(* ===== verification/Prelude.thy ===== *)
theory Prelude
  imports Main "HOL-Library.Word" "HOL-Library.AList" "HOL-Library.Multiset"
    "HOL-Library.Char_ord" "HOL-Library.List_Lexorder" "HOL-Library.Sublist"
begin

section \<open>Shared vocabulary of the ncda model\<close>

text \<open>
  The machine integers, the string and option helpers of Rust's standard library that the
  sources use, and the generic lemmas the component theories share.

  A Rust \<open>u8\<close> sequence, a \<open>String\<close> and a \<open>&str\<close> are all modelled as Isabelle's
  \<open>string\<close>: an Isabelle \<open>char\<close> is exactly one of the 256 byte values, so a Rust string
  is the list of its UTF-8 bytes. Every string operation the sources apply (splitting at an
  ASCII character, comparing, prefix and suffix tests, substring search) acts on those bytes.

  A \<open>HashMap\<close> that the code only reads and writes by key is a map \<open>'k \<rightharpoonup> 'v\<close>; one
  that the code iterates is an association list with distinct keys, whose order stands for the
  unspecified iteration order of the hash table.
\<close>

unbundle bit_operations_syntax

named_theorems sat_simps \<open>saturating arithmetic read through unat\<close>
named_theorems alist_simps \<open>association lists read as maps\<close>
named_theorems path_simps \<open>splitting and joining of paths\<close>

subsection \<open>Machine integers\<close>

type_synonym u8 = "8 word"
type_synonym u16 = "16 word"
type_synonym u32 = "32 word"
type_synonym u64 = "64 word"

text \<open>Signed integers share the word types; \<open>sint\<close> reads them as two's complement.\<close>

type_synonym i32 = "32 word"
type_synonym i64 = "64 word"

text \<open>\<open>saturating_add\<close> and \<open>saturating_sub\<close> of the unsigned integer types.\<close>

definition sat_add :: "'a::len word \<Rightarrow> 'a word \<Rightarrow> 'a word" where
  "sat_add a b = (if a + b < a then - 1 else a + b)"

definition sat_sub :: "'a::len word \<Rightarrow> 'a word \<Rightarrow> 'a word" where
  "sat_sub a b = (if a < b then 0 else a - b)"

text \<open>\<open>usize\<close> counters are natural numbers below \<open>2 ^ 64\<close>.\<close>

definition usize_max :: nat where
  "usize_max = 2 ^ 64 - 1"

definition usize_sat_add :: "nat \<Rightarrow> nat \<Rightarrow> nat" where
  "usize_sat_add a b = min (a + b) usize_max"

lemma unat_max_word [sat_simps]: "unat (- 1 :: 'a::len word) = 2 ^ LENGTH('a) - 1"
  by (simp add: unsigned_minus_1_eq_mask mask_eq_exp_minus_1)

lemma unat_bound: "unat a < 2 ^ LENGTH('a)" for a :: "'a::len word"
  by (rule unsigned_less)

lemma unat_sat_add [sat_simps]:
  "unat (sat_add a b) = min (unat a + unat b) (2 ^ LENGTH('a) - 1)"
  for a b :: "'a::len word"
proof (cases "unat a + unat b < 2 ^ LENGTH('a)")
  case True
  then have "unat (a + b) = unat a + unat b"
    by (simp add: unat_plus_if')
  then have "sat_add a b = a + b"
    by (simp add: sat_add_def word_less_nat_alt)
  with True \<open>unat (a + b) = unat a + unat b\<close> show ?thesis by simp
next
  case False
  then have "unat (a + b) = unat a + unat b - 2 ^ LENGTH('a)"
    by (simp add: unat_plus_if')
  with False unat_bound [of a] unat_bound [of b] have "unat (a + b) < unat a"
    by linarith
  then have "sat_add a b = - 1"
    by (simp add: sat_add_def word_less_nat_alt)
  with False show ?thesis by (simp add: unat_max_word)
qed

lemma unat_sat_sub [sat_simps]: "unat (sat_sub a b) = unat a - unat b"
  by (auto simp: sat_sub_def word_less_nat_alt unat_sub_if')

lemma sat_add_commute: "sat_add a b = sat_add b a"
  by (rule word_unat_eq_iff [THEN iffD2]) (simp add: sat_simps add.commute)

lemma min_add_assoc: "min (min (a + b) m + c) m = min (a + min (b + c) m) m" for a b c m :: nat
  by linarith

lemma sat_add_assoc: "sat_add (sat_add a b) c = sat_add a (sat_add b c)"
  by (rule word_unat_eq_iff [THEN iffD2]) (simp only: unat_sat_add min_add_assoc)

lemma sat_add_0 [simp]: "sat_add 0 a = a" "sat_add a 0 = a"
  by (simp_all add: sat_add_def word_less_nat_alt)

lemma sat_add_exact:
  "unat a + unat b < 2 ^ LENGTH('a) \<Longrightarrow> sat_add a b = a + b" for a b :: "'a::len word"
  by (rule word_unat_eq_iff [THEN iffD2]) (simp add: sat_simps unat_word_ariths)

lemma sat_add_mono: "unat a \<le> unat (sat_add a b)"
  using unat_bound [of a] unfolding unat_sat_add by linarith

lemma usize_sat_add_exact: "a + b \<le> usize_max \<Longrightarrow> usize_sat_add a b = a + b"
  by (simp add: usize_sat_add_def)

subsection \<open>Strings and slices\<close>

text \<open>\<open>strip_prefix\<close>, \<open>starts_with\<close>, \<open>strip_suffix\<close>, \<open>ends_with\<close> and \<open>contains\<close>.\<close>

fun strip_prefix :: "'a list \<Rightarrow> 'a list \<Rightarrow> 'a list option" where
  "strip_prefix [] s = Some s"
| "strip_prefix (x # p) [] = None"
| "strip_prefix (x # p) (y # s) = (if x = y then strip_prefix p s else None)"

definition starts_with :: "'a list \<Rightarrow> 'a list \<Rightarrow> bool" where
  "starts_with p s \<longleftrightarrow> strip_prefix p s \<noteq> None"

definition strip_suffix :: "'a list \<Rightarrow> 'a list \<Rightarrow> 'a list option" where
  "strip_suffix p s = map_option rev (strip_prefix (rev p) (rev s))"

definition ends_with :: "'a list \<Rightarrow> 'a list \<Rightarrow> bool" where
  "ends_with p s \<longleftrightarrow> strip_suffix p s \<noteq> None"

fun contains :: "'a list \<Rightarrow> 'a list \<Rightarrow> bool" where
  "contains p [] = (p = [])"
| "contains p (x # s) = (starts_with p (x # s) \<or> contains p s)"

lemma strip_prefix_eq_Some [simp]: "strip_prefix p s = Some r \<longleftrightarrow> s = p @ r"
  by (induction p s rule: strip_prefix.induct) auto

lemma strip_prefix_append [simp]: "strip_prefix p (p @ r) = Some r"
  by simp

lemma starts_with_iff: "starts_with p s \<longleftrightarrow> (\<exists>r. s = p @ r)"
  by (auto simp: starts_with_def)

lemma starts_with_append [simp]: "starts_with p (p @ r)"
  by (simp add: starts_with_iff)

lemma strip_suffix_eq_Some [simp]: "strip_suffix p s = Some r \<longleftrightarrow> s = r @ p"
  by (auto simp: strip_suffix_def rev_eq_append_conv intro: exI [of _ "rev r"])

lemma contains_iff: "contains p s \<longleftrightarrow> (\<exists>a b. s = a @ p @ b)"
proof (induction s)
  case (Cons x s)
  show ?case
    unfolding contains.simps Cons.IH starts_with_iff by (metis Cons_eq_append_conv)
qed auto

text \<open>
  The UTF-8 encodings of the characters with Unicode's \<open>White_Space\<close> property, which
  \<open>str::trim\<close> and \<open>str::split_whitespace\<close> use. Each begins with a lead byte, so in valid
  UTF-8 a match starts at a character boundary.
\<close>

definition white_space :: "string list" where
  "white_space = map (map char_of)
     ([[9], [10], [11], [12], [13], [32], [0xC2, 0x85], [0xC2, 0xA0], [0xE1, 0x9A, 0x80]]
      @ map (\<lambda>n. [0xE2, 0x80, n]) [0x80 ..< 0x8B]
      @ [[0xE2, 0x80, 0xA8], [0xE2, 0x80, 0xA9], [0xE2, 0x80, 0xAF], [0xE2, 0x81, 0x9F],
         [0xE3, 0x80, 0x80 :: nat]])"

text \<open>The length in bytes of the white space character at the head of a string, or 0.\<close>

definition lead_space :: "string \<Rightarrow> nat" where
  "lead_space s = (case find (\<lambda>w. starts_with w s) white_space of None \<Rightarrow> 0 | Some w \<Rightarrow> length w)"

definition tail_space :: "string \<Rightarrow> nat" where
  "tail_space s = (case find (\<lambda>w. ends_with w s) white_space of None \<Rightarrow> 0 | Some w \<Rightarrow> length w)"

function trim_start :: "string \<Rightarrow> string" where
  "trim_start s = (if lead_space s = 0 \<or> s = [] then s else trim_start (drop (lead_space s) s))"
  by pat_completeness auto
termination
  by (relation "measure length") auto

function trim_end :: "string \<Rightarrow> string" where
  "trim_end s = (if tail_space s = 0 \<or> s = [] then s else trim_end (take (length s - tail_space s) s))"
  by pat_completeness auto
termination
  by (relation "measure length") auto

declare trim_start.simps [simp del] trim_end.simps [simp del]

definition trim :: "string \<Rightarrow> string" where
  "trim s = trim_end (trim_start s)"

text \<open>\<open>split_whitespace\<close>: the maximal runs free of white space.\<close>

function split_words :: "string \<Rightarrow> string \<Rightarrow> string list" where
  "split_words cur [] = (if cur = [] then [] else [rev cur])"
| "split_words cur (x # xs) =
     (if lead_space (x # xs) = 0 then split_words (x # cur) xs
      else (if cur = [] then [] else [rev cur]) @ split_words [] (drop (lead_space (x # xs)) (x # xs)))"
  by pat_completeness auto
termination
  by (relation "measure (\<lambda>(cur, s). length s)") auto

definition split_whitespace :: "string \<Rightarrow> string list" where
  "split_whitespace s = split_words [] s"

text \<open>A string of bytes none of which begins or ends a white space character.\<close>

definition plain_byte :: "char \<Rightarrow> bool" where
  "plain_byte c \<longleftrightarrow> 33 \<le> (of_char c :: nat) \<and> (of_char c :: nat) \<le> 127"

lemma white_space_not_plain:
  "list_all (\<lambda>w. w \<noteq> [] \<and> \<not> plain_byte (hd w) \<and> \<not> plain_byte (last w)) white_space"
  by (simp add: white_space_def plain_byte_def upt_rec)

lemma lead_space_plain: "plain_byte c \<Longrightarrow> lead_space (c # s) = 0"
proof -
  assume c: "plain_byte c"
  have "\<not> starts_with w (c # s)" if "w \<in> set white_space" for w
  proof -
    from that white_space_not_plain have "w \<noteq> [] \<and> \<not> plain_byte (hd w)"
      by (auto simp: list_all_iff)
    with c show ?thesis by (cases w) (auto simp: starts_with_iff)
  qed
  then have "find (\<lambda>w. starts_with w (c # s)) white_space = None"
    by (simp add: find_None_iff)
  then show ?thesis by (simp add: lead_space_def)
qed

lemma split_words_plain: "\<forall>c \<in> set s. plain_byte c \<Longrightarrow> split_words cur s =
    (if rev cur @ s = [] then [] else [rev cur @ s])"
  by (induction s arbitrary: cur) (auto simp: lead_space_plain)

lemma split_whitespace_plain: "\<forall>c \<in> set s. plain_byte c \<Longrightarrow> s \<noteq> [] \<Longrightarrow> split_whitespace s = [s]"
  by (simp add: split_whitespace_def split_words_plain)

lemma trim_start_plain: "plain_byte c \<Longrightarrow> trim_start (c # s) = c # s"
  by (simp add: trim_start.simps lead_space_plain)

lemma tail_space_plain: "plain_byte c \<Longrightarrow> tail_space (s @ [c]) = 0"
proof -
  assume c: "plain_byte c"
  have "\<not> ends_with w (s @ [c])" if "w \<in> set white_space" for w
  proof -
    from that white_space_not_plain have "w \<noteq> [] \<and> \<not> plain_byte (last w)"
      by (auto simp: list_all_iff)
    with c show ?thesis by (cases w rule: rev_cases) (auto simp: ends_with_def)
  qed
  then have "find (\<lambda>w. ends_with w (s @ [c])) white_space = None"
    by (simp add: find_None_iff)
  then show ?thesis by (simp add: tail_space_def)
qed

lemma trim_plain: "\<forall>c \<in> set s. plain_byte c \<Longrightarrow> trim s = s"
proof (cases s rule: rev_cases)
  case Nil
  then show ?thesis by (simp add: trim_def trim_start.simps trim_end.simps)
next
  case (snoc t c)
  assume "\<forall>c \<in> set s. plain_byte c"
  then have "trim_start s = s"
    using trim_start_plain by (cases s) (auto simp: trim_start.simps)
  with snoc \<open>\<forall>c \<in> set s. plain_byte c\<close> show ?thesis
    by (simp add: trim_def trim_end.simps tail_space_plain)
qed

subsection \<open>Splitting and joining\<close>

text \<open>\<open>str::split\<close> at one character: always at least one piece.\<close>

fun split_on :: "'a \<Rightarrow> 'a list \<Rightarrow> 'a list list" where
  "split_on d [] = [[]]"
| "split_on d (x # xs) =
     (if x = d then [] # split_on d xs
      else (case split_on d xs of [] \<Rightarrow> [[x]] | p # ps \<Rightarrow> (x # p) # ps))"

fun join_with :: "'a list \<Rightarrow> 'a list list \<Rightarrow> 'a list" where
  "join_with sep [] = []"
| "join_with sep [p] = p"
| "join_with sep (p # q # ps) = p @ sep @ join_with sep (q # ps)"

text \<open>\<open>path.split('/').filter(|c| !c.is_empty())\<close>: the components of a path.\<close>

definition path_components :: "string \<Rightarrow> string list" where
  "path_components path = filter (\<lambda>c. c \<noteq> []) (split_on (CHR ''/'') path)"

definition is_component :: "string \<Rightarrow> bool" where
  "is_component c \<longleftrightarrow> c \<noteq> [] \<and> CHR ''/'' \<notin> set c"

lemma split_on_nonempty [simp]: "split_on d xs \<noteq> []"
  by (induction xs) (auto split: list.split)

lemma split_on_free: "p \<in> set (split_on d xs) \<Longrightarrow> d \<notin> set p"
proof (induction xs arbitrary: p)
  case (Cons x xs)
  then show ?case
    by (cases "split_on d xs") (auto split: if_splits)
qed simp

lemma join_with_Cons: "ps \<noteq> [] \<Longrightarrow> join_with sep (p # ps) = p @ sep @ join_with sep ps"
  by (cases ps) simp_all

lemma join_split_on [path_simps]: "join_with [d] (split_on d xs) = xs"
proof (induction xs)
  case (Cons x xs)
  obtain p ps where ps: "split_on d xs = p # ps"
    by (cases "split_on d xs") simp_all
  with Cons show ?case
    by (cases ps) auto
qed simp

lemma split_on_append_free: "d \<notin> set p \<Longrightarrow> split_on d (p @ d # xs) = p # split_on d xs"
  by (induction p) auto

lemma split_on_append: "split_on d (p @ d # xs) = split_on d p @ split_on d xs"
proof (induction p)
  case (Cons y p)
  obtain q qs where "split_on d p = q # qs" by (cases "split_on d p") simp_all
  with Cons show ?case by simp
qed simp

lemma join_with_append: "ps \<noteq> [] \<Longrightarrow> qs \<noteq> [] \<Longrightarrow> join_with sep (ps @ qs) = join_with sep ps @ sep @ join_with sep qs"
proof (induction ps)
  case (Cons p ps)
  then show ?case by (cases "ps = []") (simp_all add: join_with_Cons)
qed simp

lemma split_on_free_whole: "d \<notin> set p \<Longrightarrow> split_on d p = [p]"
  by (induction p) auto

lemma split_on_join [path_simps]:
  "ps \<noteq> [] \<Longrightarrow> \<forall>p \<in> set ps. d \<notin> set p \<Longrightarrow> split_on d (join_with [d] ps) = ps"
proof (induction ps)
  case (Cons p ps)
  show ?case
  proof (cases ps)
    case Nil
    with Cons.prems show ?thesis by (simp add: split_on_free_whole)
  next
    case (Cons q qs)
    with Cons.IH Cons.prems show ?thesis
      by (simp add: split_on_append_free)
  qed
qed simp

lemma path_components_are_components: "c \<in> set (path_components path) \<Longrightarrow> is_component c"
  by (auto simp: path_components_def is_component_def dest: split_on_free)

lemma filter_nonempty_components:
  "\<forall>c \<in> set cs. is_component c \<Longrightarrow> filter (\<lambda>c. c \<noteq> []) cs = cs"
  by (induction cs) (auto simp: is_component_def)

lemma path_components_join [path_simps]:
  "\<forall>c \<in> set cs. is_component c \<Longrightarrow> path_components (CHR ''/'' # join_with ''/'' cs) = cs"
proof (cases cs)
  case Nil
  then show ?thesis by (simp add: path_components_def)
next
  case (Cons c cs')
  assume "\<forall>c \<in> set cs. is_component c"
  with Cons show ?thesis
    by (simp add: path_components_def split_on_join filter_nonempty_components is_component_def
        del: join_with.simps)
qed

lemma path_components_empty_iff: "path_components path = [] \<longleftrightarrow> (\<forall>c \<in> set path. c = CHR ''/'')"
proof -
  have "(\<forall>p \<in> set (split_on d xs). p = []) \<longleftrightarrow> (\<forall>c \<in> set xs. c = d)" for d and xs :: string
  proof (induction xs)
    case (Cons x xs)
    then show ?case by (cases "split_on d xs") auto
  qed simp
  then show ?thesis
    by (auto simp: path_components_def filter_empty_conv)
qed

subsection \<open>Decimal numbers\<close>

text \<open>\<open>format!("{n}")\<close> of an unsigned integer.\<close>

fun show_nat :: "nat \<Rightarrow> string" where
  "show_nat n = (if n < 10 then [char_of (48 + n)] else show_nat (n div 10) @ [char_of (48 + n mod 10)])"

declare show_nat.simps [simp del]

definition show_word :: "'a::len word \<Rightarrow> string" where
  "show_word w = show_nat (unat w)"

text \<open>\<open>str::parse::<u32>\<close>: decimal digits, an optional leading plus sign, no overflow.\<close>

definition digit_value :: "char \<Rightarrow> nat option" where
  "digit_value c = (if 48 \<le> (of_char c :: nat) \<and> (of_char c :: nat) \<le> 57 then Some (of_char c - 48) else None)"

fun parse_digits :: "nat \<Rightarrow> nat \<Rightarrow> string \<Rightarrow> nat option" where
  "parse_digits bound acc [] = Some acc"
| "parse_digits bound acc (c # cs) =
     (case digit_value c of
        None \<Rightarrow> None
      | Some d \<Rightarrow> if 10 * acc + d < bound then parse_digits bound (10 * acc + d) cs else None)"

definition parse_u32 :: "string \<Rightarrow> u32 option" where
  "parse_u32 s =
     (let digits = (case s of [] \<Rightarrow> [] | c # cs \<Rightarrow> if c = CHR ''+'' then cs else s)
      in if digits = [] then None else map_option of_nat (parse_digits (2 ^ 32) 0 digits))"

lemma show_nat_nonempty [simp]: "show_nat n \<noteq> []"
  by (subst show_nat.simps) simp

lemma digit_value_char [simp]: "d < 10 \<Longrightarrow> digit_value (char_of (48 + d)) = Some d"
  by (simp add: digit_value_def)

lemma parse_digits_append:
  "parse_digits bound acc (xs @ ys) =
     (case parse_digits bound acc xs of None \<Rightarrow> None | Some a \<Rightarrow> parse_digits bound a ys)"
  by (induction xs arbitrary: acc) (auto split: option.split)

lemma parse_digits_show_nat: "n < bound \<Longrightarrow> parse_digits bound 0 (show_nat n) = Some n"
proof (induction n rule: show_nat.induct)
  case (1 n)
  show ?case
  proof (cases "n < 10")
    case True
    with 1 show ?thesis by (simp add: show_nat.simps [of n])
  next
    case False
    with 1 have "parse_digits bound 0 (show_nat (n div 10)) = Some (n div 10)" by simp
    with False 1 show ?thesis
      by (simp add: show_nat.simps [of n] parse_digits_append)
  qed
qed

lemma show_nat_digits: "c \<in> set (show_nat n) \<Longrightarrow> digit_value c \<noteq> None"
proof (induction n rule: show_nat.induct)
  case (1 n)
  then show ?case
    by (cases "n < 10") (auto simp: show_nat.simps [of n])
qed

lemma parse_u32_show [simp]: "parse_u32 (show_word w) = Some w"
proof -
  obtain c cs where cs: "show_nat (unat w) = c # cs"
    by (cases "show_nat (unat w)") simp_all
  have "c \<noteq> CHR ''+''"
    using show_nat_digits [of c "unat w"] cs by (auto simp: digit_value_def)
  moreover have "parse_digits (2 ^ 32) 0 (c # cs) = Some (unat w)"
    using parse_digits_show_nat [of "unat w" "2 ^ 32"] unat_bound [of w] cs by simp
  ultimately show ?thesis
    by (simp add: parse_u32_def show_word_def cs)
qed

subsection \<open>Orderings and stable sorting\<close>

text \<open>\<open>std::cmp::Ordering\<close>, \<open>cmp\<close>, \<open>reverse\<close> and \<open>then_with\<close>.\<close>

datatype ordering = Lt | Eq | Gt

definition cmp :: "'a::linorder \<Rightarrow> 'a \<Rightarrow> ordering" where
  "cmp a b = (if a < b then Lt else if a = b then Eq else Gt)"

fun ord_reverse :: "ordering \<Rightarrow> ordering" where
  "ord_reverse Lt = Gt"
| "ord_reverse Eq = Eq"
| "ord_reverse Gt = Lt"

definition then_with :: "ordering \<Rightarrow> ordering \<Rightarrow> ordering" where
  "then_with o1 o2 = (if o1 = Eq then o2 else o1)"

lemma ord_reverse_eq_iff [simp]:
  "ord_reverse r = Eq \<longleftrightarrow> r = Eq" "ord_reverse r = Lt \<longleftrightarrow> r = Gt" "ord_reverse r = Gt \<longleftrightarrow> r = Lt"
  "Eq = ord_reverse r \<longleftrightarrow> r = Eq" "Lt = ord_reverse r \<longleftrightarrow> r = Gt" "Gt = ord_reverse r \<longleftrightarrow> r = Lt"
  by (cases r; simp)+

lemma ord_reverse_twice [simp]: "ord_reverse (ord_reverse r) = r"
  by (cases r) simp_all

text \<open>\<open>slice::sort_by\<close> is a stable sort; the sorted order of a list is unique, so
  insertion sort computes what the library's merge sort does.\<close>

fun insort_by :: "('a \<Rightarrow> 'a \<Rightarrow> ordering) \<Rightarrow> 'a \<Rightarrow> 'a list \<Rightarrow> 'a list" where
  "insort_by c x [] = [x]"
| "insort_by c x (y # ys) = (if c x y = Gt then y # insort_by c x ys else x # y # ys)"

definition sort_by :: "('a \<Rightarrow> 'a \<Rightarrow> ordering) \<Rightarrow> 'a list \<Rightarrow> 'a list" where
  "sort_by c xs = foldr (insort_by c) xs []"

lemma mset_insort_by: "mset (insort_by c x ys) = add_mset x (mset ys)"
  by (induction ys) auto

lemma mset_sort_by [simp]: "mset (sort_by c xs) = mset xs"
  by (induction xs) (auto simp: sort_by_def mset_insort_by)

lemma set_sort_by [simp]: "set (sort_by c xs) = set xs"
  by (metis mset_sort_by set_mset_mset)

lemma length_sort_by [simp]: "length (sort_by c xs) = length xs"
  by (metis mset_sort_by size_mset)

text \<open>
  The contract of a comparison function passed to \<open>sort_by\<close>: a total preorder. Its clients
  are the displayed lists, whose order must not depend on the hash table they come from.
\<close>

locale comparison =
  fixes c :: "'a \<Rightarrow> 'a \<Rightarrow> ordering"
  assumes cmp_flip: "c y x = ord_reverse (c x y)"
    and cmp_trans: "c x y \<noteq> Gt \<Longrightarrow> c y z \<noteq> Gt \<Longrightarrow> c x z \<noteq> Gt"
begin

lemma cmp_total: "c x y = Gt \<Longrightarrow> c y x \<noteq> Gt"
  using cmp_flip [of y x] by simp

lemma sorted_insort_by:
  "sorted_wrt (\<lambda>a b. c a b \<noteq> Gt) ys \<Longrightarrow> sorted_wrt (\<lambda>a b. c a b \<noteq> Gt) (insort_by c x ys)"
proof (induction ys)
  case (Cons y ys)
  have "set (insort_by c x ys) = insert x (set ys)"
    by (metis mset_insort_by set_mset_add_mset_insert set_mset_mset)
  with Cons show ?case
    by (auto dest: cmp_total) (blast dest: cmp_trans)
qed simp

lemma sorted_sort_by: "sorted_wrt (\<lambda>a b. c a b \<noteq> Gt) (sort_by c xs)"
  by (induction xs) (auto simp: sort_by_def sorted_insort_by)

lemma sorted_unique:
  "sorted_wrt (\<lambda>a b. c a b \<noteq> Gt) xs \<Longrightarrow> sorted_wrt (\<lambda>a b. c a b \<noteq> Gt) ys \<Longrightarrow>
   mset xs = mset ys \<Longrightarrow> (\<forall>a \<in> set xs. \<forall>b \<in> set xs. c a b = Eq \<longrightarrow> a = b) \<Longrightarrow> xs = ys"
proof (induction xs arbitrary: ys)
  case (Cons x xs)
  then obtain y ys' where ys: "ys = y # ys'"
    by (cases ys) auto
  have sets: "set (x # xs) = set (y # ys')"
    using Cons.prems(3) ys by (metis set_mset_mset)
  have "x = y"
  proof (rule ccontr)
    assume "x \<noteq> y"
    with sets have "y \<in> set xs" "x \<in> set ys'" by auto
    with Cons.prems(1,2) ys have "c x y \<noteq> Gt" "c y x \<noteq> Gt" by auto
    then have "c x y = Eq" using cmp_flip [of y x] by (cases "c x y") auto
    with Cons.prems(4) \<open>y \<in> set xs\<close> \<open>x \<noteq> y\<close> show False by auto
  qed
  with Cons ys show ?case by auto
qed simp

lemma sort_by_order_independent:
  assumes "mset xs = mset ys"
    and "\<And>a b. a \<in> set xs \<Longrightarrow> b \<in> set xs \<Longrightarrow> c a b = Eq \<Longrightarrow> a = b"
  shows "sort_by c xs = sort_by c ys"
  using assms by (intro sorted_unique sorted_sort_by) auto

end

lemma comparison_key: "comparison (\<lambda>a b. cmp (k a) (k b))"
  by unfold_locales (auto simp: cmp_def split: if_splits)

lemma comparison_reverse:
  assumes "comparison c"
  shows "comparison (\<lambda>a b. ord_reverse (c a b))"
proof -
  have flip: "c y x = ord_reverse (c x y)" for x y
    using assms unfolding comparison_def by blast
  have tr: "c x y \<noteq> Gt \<Longrightarrow> c y z \<noteq> Gt \<Longrightarrow> c x z \<noteq> Gt" for x y z
    using assms unfolding comparison_def by blast
  show ?thesis
  proof (unfold comparison_def, intro conjI allI impI)
    fix x y
    show "ord_reverse (c y x) = ord_reverse (ord_reverse (c x y))"
      using flip [where x = x and y = y] by simp
  next
    fix x y z
    assume "ord_reverse (c x y) \<noteq> Gt" "ord_reverse (c y z) \<noteq> Gt"
    then have "c z x \<noteq> Gt"
      using tr [of z y x] flip [where x = x and y = y] flip [where x = y and y = z] by simp
    then show "ord_reverse (c x z) \<noteq> Gt"
      using flip [where x = x and y = z] by simp
  qed
qed

lemma comparison_then_with:
  assumes "comparison c" and "comparison d"
  shows "comparison (\<lambda>a b. then_with (c a b) (d a b))"
proof -
  have flip: "c y x = ord_reverse (c x y)" "d y x = ord_reverse (d x y)" for x y
    using assms unfolding comparison_def by blast+
  have tr: "c x y \<noteq> Gt \<Longrightarrow> c y z \<noteq> Gt \<Longrightarrow> c x z \<noteq> Gt" "d x y \<noteq> Gt \<Longrightarrow> d y z \<noteq> Gt \<Longrightarrow> d x z \<noteq> Gt" for x y z
    using assms unfolding comparison_def by blast+
  have eq: "c x y = Eq \<longleftrightarrow> c x y \<noteq> Gt \<and> c y x \<noteq> Gt" for x y
    using flip(1) [of x y] by (cases "c x y") auto
  show ?thesis
  proof (unfold comparison_def, intro conjI allI impI)
    fix x y
    show "then_with (c y x) (d y x) = ord_reverse (then_with (c x y) (d x y))"
      using flip [of x y] by (cases "c x y") (auto simp: then_with_def)
  next
    fix x y z
    assume "then_with (c x y) (d x y) \<noteq> Gt" "then_with (c y z) (d y z) \<noteq> Gt"
    then have "c x y \<noteq> Gt" "c y z \<noteq> Gt" and d: "c x y = Eq \<Longrightarrow> d x y \<noteq> Gt" "c y z = Eq \<Longrightarrow> d y z \<noteq> Gt"
      by (auto simp: then_with_def split: if_splits)
    from this(1,2) have xz: "c x z \<noteq> Gt" by (rule tr(1))
    have "d x z \<noteq> Gt" if "c x z = Eq"
    proof -
      from that eq have zx: "c z x \<noteq> Gt" by blast
      have "c y x \<noteq> Gt" using \<open>c y z \<noteq> Gt\<close> zx by (rule tr(1))
      moreover have "c z y \<noteq> Gt" using zx \<open>c x y \<noteq> Gt\<close> by (rule tr(1))
      ultimately have "c x y = Eq" "c y z = Eq"
        using \<open>c x y \<noteq> Gt\<close> \<open>c y z \<noteq> Gt\<close> eq by blast+
      then show ?thesis using d tr(2) [of x y z] by blast
    qed
    with xz show "then_with (c x z) (d x z) \<noteq> Gt"
      by (auto simp: then_with_def)
  qed
qed

lemma cmp_eq_iff [simp]: "cmp a b = Eq \<longleftrightarrow> a = b"
  by (auto simp: cmp_def)

lemma then_with_eq_iff [simp]: "then_with r s = Eq \<longleftrightarrow> r = Eq \<and> s = Eq"
  by (auto simp: then_with_def)

subsection \<open>Hash tables that are iterated\<close>

text \<open>
  \<open>alter d f k m\<close> is \<open>m.entry(k).or_insert(d)\<close> followed by an in-place update \<open>f\<close>.
\<close>

definition alter :: "'v \<Rightarrow> ('v \<Rightarrow> 'v) \<Rightarrow> 'k \<Rightarrow> ('k \<times> 'v) list \<Rightarrow> ('k \<times> 'v) list" where
  "alter d f k al = AList.update k (f (case map_of al k of None \<Rightarrow> d | Some v \<Rightarrow> v)) al"

definition distinct_keys :: "('k \<times> 'v) list \<Rightarrow> bool" where
  "distinct_keys al \<longleftrightarrow> distinct (map fst al)"

lemma map_of_update [alist_simps]: "map_of (AList.update k v al) = (map_of al)(k \<mapsto> v)"
  by (rule update_conv')

lemma map_of_delete [alist_simps]: "map_of (AList.delete k al) = (map_of al)(k := None)"
  by (rule delete_conv')

lemma map_of_alter [alist_simps]:
  "map_of (alter d f k al) = (map_of al)(k \<mapsto> f (case map_of al k of None \<Rightarrow> d | Some v \<Rightarrow> v))"
  by (simp add: alter_def alist_simps)

lemma distinct_keys_Nil [simp]: "distinct_keys []"
  by (simp add: distinct_keys_def)

lemma distinct_keys_update [simp]: "distinct_keys al \<Longrightarrow> distinct_keys (AList.update k v al)"
  by (simp add: distinct_keys_def distinct_update)

lemma distinct_keys_delete [simp]: "distinct_keys al \<Longrightarrow> distinct_keys (AList.delete k al)"
  by (simp add: distinct_keys_def distinct_delete)

lemma distinct_keys_alter [simp]: "distinct_keys al \<Longrightarrow> distinct_keys (alter d f k al)"
  by (simp add: alter_def)

lemma distinct_keys_filter [simp]: "distinct_keys al \<Longrightarrow> distinct_keys (filter P al)"
  by (auto simp: distinct_keys_def distinct_map_filter)

lemma map_of_filter_keys [alist_simps]:
  "map_of (filter (\<lambda>(k, v). P k) al) k = (if P k then map_of al k else None)"
  by (induction al) auto

lemma map_of_mem: "distinct_keys al \<Longrightarrow> (k, v) \<in> set al \<longleftrightarrow> map_of al k = Some v"
  by (auto simp: distinct_keys_def dest: map_of_SomeD)

text \<open>Sums over an association list follow the update of one entry.\<close>

lemma sum_list_update:
  fixes g :: "'k \<times> 'v \<Rightarrow> 'm::comm_monoid_add"
  assumes "distinct_keys al"
  shows "sum_list (map g (AList.update k v al)) =
      g (k, v) + sum_list (map g (AList.delete k al))"
  using assms
proof (induction al)
  case (Cons kv al)
  show ?case
  proof (cases "fst kv = k")
    case True
    with Cons.prems have "AList.delete k al = al"
      by (auto simp: distinct_keys_def image_iff intro!: delete_idem)
    with True Cons show ?thesis by (cases kv) simp
  next
    case False
    with Cons show ?thesis
      by (cases kv) (simp add: distinct_keys_def add.left_commute)
  qed
qed simp

lemma sum_list_split:
  fixes g :: "'k \<times> 'v \<Rightarrow> 'm::comm_monoid_add"
  assumes "distinct_keys al" and "map_of al k = Some v"
  shows "sum_list (map g al) = g (k, v) + sum_list (map g (AList.delete k al))"
  using assms
proof (induction al)
  case (Cons kv al)
  show ?case
  proof (cases "fst kv = k")
    case True
    with Cons.prems have "AList.delete k al = al"
      by (auto simp: distinct_keys_def image_iff intro!: delete_idem)
    with True Cons show ?thesis by (cases kv) simp
  next
    case False
    with Cons show ?thesis
      by (cases kv) (simp add: distinct_keys_def add.left_commute)
  qed
qed simp

lemma delete_absent: "map_of al k = None \<Longrightarrow> AList.delete k al = al"
  by (simp add: map_of_eq_None_iff delete_idem)

text \<open>\<open>Iterator::find_map\<close>.\<close>

fun find_map :: "('a \<Rightarrow> 'b option) \<Rightarrow> 'a list \<Rightarrow> 'b option" where
  "find_map f [] = None"
| "find_map f (x # xs) = (case f x of Some y \<Rightarrow> Some y | None \<Rightarrow> find_map f xs)"

end
