(* ===== verification/Common.thy ===== *)
theory Common
  imports Prelude
begin

section \<open>The ring-buffer ABI (ncda-common)\<close>

text \<open>
  The constants and the \<open>repr(C)\<close> structs of \<open>ncda-common/src/lib.rs\<close>, which the eBPF
  programs and the userspace reader share. Field names carry a prefix per struct, because
  Isabelle's record selectors live in one name space. A fixed byte array is a byte list; the
  theories that build one prove its length.
\<close>

definition MAX_FNAME_LEN :: nat where
  "MAX_FNAME_LEN = 256"

definition PROBE_FNAME_LEN :: nat where
  "PROBE_FNAME_LEN = MAX_FNAME_LEN + 2"

definition PATH_TRUNCATED :: u16 where
  "PATH_TRUNCATED = push_bit 0 1"

definition PATH_READ_FAILED :: u16 where
  "PATH_READ_FAILED = push_bit 1 1"

definition PATH_KNOWN_FLAGS :: u16 where
  "PATH_KNOWN_FLAGS = PATH_TRUNCATED OR PATH_READ_FAILED"

definition EVENT_OPEN :: u32 where
  "EVENT_OPEN = 1"

definition EVENT_READ :: u32 where
  "EVENT_READ = 2"

definition EVENT_WRITE :: u32 where
  "EVENT_WRITE = 3"

definition EVENT_CLOSE :: u32 where
  "EVENT_CLOSE = 4"

definition EVENT_DUP :: u32 where
  "EVENT_DUP = 5"

definition EVENT_CLOSE_RANGE :: u32 where
  "EVENT_CLOSE_RANGE = 6"

definition EVENT_PROCESS_EXEC :: u32 where
  "EVENT_PROCESS_EXEC = 7"

definition EVENT_PROCESS_EXIT :: u32 where
  "EVENT_PROCESS_EXIT = 8"

definition LINUX_EBADF :: i64 where
  "LINUX_EBADF = 9"

definition CLOSE_RANGE_CLOEXEC :: u32 where
  "CLOSE_RANGE_CLOEXEC = push_bit 2 1"

lemmas event_kinds = EVENT_OPEN_def EVENT_READ_def EVENT_WRITE_def EVENT_CLOSE_def EVENT_DUP_def
  EVENT_CLOSE_RANGE_def EVENT_PROCESS_EXEC_def EVENT_PROCESS_EXIT_def

lemmas path_flag_defs = PATH_TRUNCATED_def PATH_READ_FAILED_def PATH_KNOWN_FLAGS_def

definition close_releases_fd :: "i64 \<Rightarrow> bool" where
  "close_releases_fd result \<longleftrightarrow> result \<noteq> - LINUX_EBADF"

subsection \<open>Events sent through the ring buffer\<close>

record open_event =
  oe_kind :: u32
  oe_pid :: u32
  oe_tid :: u32
  oe_fd :: u32
  oe_fname_len :: u16
  oe_fname_flags :: u16
  oe_dirfd :: i32
  oe_emitted_ns :: u64
  oe_fname :: string

record io_event =
  ie_kind :: u32
  ie_pid :: u32
  ie_tid :: u32
  ie_fd :: u32
  ie_result :: i64
  ie_latency_ns :: u64
  ie_emitted_ns :: u64

record fd_event =
  fe_kind :: u32
  fe_pid :: u32
  fe_tid :: u32
  fe_old_fd :: u32
  fe_new_fd :: u32
  fe_pad :: u32
  fe_emitted_ns :: u64

record range_event =
  re_kind :: u32
  re_pid :: u32
  re_tid :: u32
  re_first_fd :: u32
  re_last_fd :: u32
  re_flags :: u32
  re_emitted_ns :: u64

record process_event =
  pe_kind :: u32
  pe_pid :: u32
  pe_emitted_ns :: u64

subsection \<open>Values stashed between syscall entry and exit\<close>

record open_args =
  oa_fname :: string
  oa_fname_len :: u16
  oa_fname_flags :: u16
  oa_dirfd :: i32

record rw_args =
  ra_ts :: u64
  ra_fd :: u32
  ra_kind :: u32

record fd_args =
  fa_fd :: u32
  fa_pad :: u32

record range_args =
  ga_first_fd :: u32
  ga_last_fd :: u32
  ga_flags :: u32
  ga_pad :: u32

subsection \<open>Capture counters\<close>

record capture_stats =
  ring_output_drops :: u64
  stash_update_failures :: u64
  scratch_failures :: u64
  read_entries :: u64
  write_entries :: u64
  read_exits :: u64
  write_exits :: u64
  compat_syscalls_ignored :: u64

definition default_capture_stats :: capture_stats where
  "default_capture_stats =
     \<lparr>ring_output_drops = 0, stash_update_failures = 0, scratch_failures = 0, read_entries = 0,
      write_entries = 0, read_exits = 0, write_exits = 0, compat_syscalls_ignored = 0\<rparr>"

end
