(* ===== verification/Model.thy ===== *)
theory Model
  imports Common
begin

section \<open>The filesystem activity tree (ncda/src/model.rs)\<close>

text \<open>
  \<open>NodeStats\<close>, \<open>OpKind\<close>, \<open>SortBy\<close>, \<open>TreeNode\<close> and \<open>FileTree\<close>. The statistics form a
  commutative monoid under \<open>accumulate\<close> (an instance of the library's class, so that the
  library's sums apply to them). A tree is read through \<open>get_node\<close>; \<open>abs_tree\<close> is what it
  says about every path, and each operation is shown to act on that view as its specification.
\<close>

subsection \<open>Node statistics\<close>

record node_stats =
  read_bytes :: u64
  write_bytes :: u64
  read_ops :: u64
  write_ops :: u64
  open_ops :: u64
  close_ops :: u64
  total_latency_ns :: u64
  max_latency_ns :: u64

definition default_stats :: node_stats where
  "default_stats =
     \<lparr>read_bytes = 0, write_bytes = 0, read_ops = 0, write_ops = 0, open_ops = 0, close_ops = 0,
      total_latency_ns = 0, max_latency_ns = 0\<rparr>"

definition stats_reset :: "node_stats \<Rightarrow> node_stats" where
  "stats_reset s = default_stats"

definition total_bytes :: "node_stats \<Rightarrow> u64" where
  "total_bytes s = sat_add (read_bytes s) (write_bytes s)"

definition total_ops :: "node_stats \<Rightarrow> u64" where
  "total_ops s = sat_add (sat_add (sat_add (read_ops s) (write_ops s)) (open_ops s)) (close_ops s)"

definition avg_latency_ns :: "node_stats \<Rightarrow> u64" where
  "avg_latency_ns s =
     (let ops = sat_add (read_ops s) (write_ops s)
      in if ops = 0 then 0 else total_latency_ns s div ops)"

definition accumulate :: "node_stats \<Rightarrow> node_stats \<Rightarrow> node_stats" where
  "accumulate s other =
     \<lparr>read_bytes = sat_add (read_bytes s) (read_bytes other),
      write_bytes = sat_add (write_bytes s) (write_bytes other),
      read_ops = sat_add (read_ops s) (read_ops other),
      write_ops = sat_add (write_ops s) (write_ops other),
      open_ops = sat_add (open_ops s) (open_ops other),
      close_ops = sat_add (close_ops s) (close_ops other),
      total_latency_ns = sat_add (total_latency_ns s) (total_latency_ns other),
      max_latency_ns = max (max_latency_ns s) (max_latency_ns other)\<rparr>"

datatype op_kind = Open | Read | Write | Close

fun for_operations :: "op_kind \<Rightarrow> u64 \<Rightarrow> u64 \<Rightarrow> u64 \<Rightarrow> u64 \<Rightarrow> node_stats" where
  "for_operations Open bytes operations total_latency max_latency =
     default_stats\<lparr>open_ops := operations\<rparr>"
| "for_operations Read bytes operations total_latency max_latency =
     default_stats\<lparr>read_bytes := bytes, read_ops := operations,
       total_latency_ns := total_latency, max_latency_ns := max_latency\<rparr>"
| "for_operations Write bytes operations total_latency max_latency =
     default_stats\<lparr>write_bytes := bytes, write_ops := operations,
       total_latency_ns := total_latency, max_latency_ns := max_latency\<rparr>"
| "for_operations Close bytes operations total_latency max_latency =
     default_stats\<lparr>close_ops := operations\<rparr>"

text \<open>
  The statistics as a commutative monoid. The class instance is on the record's extension
  type, so the empty extension, \<open>unit\<close>, is made a monoid first.
\<close>

instantiation unit :: comm_monoid_add
begin

definition zero_unit :: unit where
  "zero_unit = ()"

definition plus_unit :: "unit \<Rightarrow> unit \<Rightarrow> unit" where
  "plus_unit a b = ()"

instance
  by intro_classes simp_all

end

instantiation node_stats_ext :: (comm_monoid_add) comm_monoid_add
begin

definition zero_node_stats_ext :: "'a node_stats_scheme" where
  "zero_node_stats_ext =
     \<lparr>read_bytes = 0, write_bytes = 0, read_ops = 0, write_ops = 0, open_ops = 0, close_ops = 0,
      total_latency_ns = 0, max_latency_ns = 0, \<dots> = 0\<rparr>"

definition plus_node_stats_ext ::
    "'a node_stats_scheme \<Rightarrow> 'a node_stats_scheme \<Rightarrow> 'a node_stats_scheme" where
  "plus_node_stats_ext a b =
     \<lparr>read_bytes = sat_add (read_bytes a) (read_bytes b),
      write_bytes = sat_add (write_bytes a) (write_bytes b),
      read_ops = sat_add (read_ops a) (read_ops b),
      write_ops = sat_add (write_ops a) (write_ops b),
      open_ops = sat_add (open_ops a) (open_ops b),
      close_ops = sat_add (close_ops a) (close_ops b),
      total_latency_ns = sat_add (total_latency_ns a) (total_latency_ns b),
      max_latency_ns = max (max_latency_ns a) (max_latency_ns b),
      \<dots> = node_stats.more a + node_stats.more b\<rparr>"

instance
proof
  fix a b c :: "'a node_stats_scheme"
  show "a + b + c = a + (b + c)"
    by (simp add: plus_node_stats_ext_def sat_add_assoc max.assoc add.assoc)
  show "a + b = b + a"
    by (simp add: plus_node_stats_ext_def sat_add_commute max.commute add.commute)
  show "0 + a = a"
    by (simp add: plus_node_stats_ext_def zero_node_stats_ext_def)
qed

end

lemma accumulate_eq_plus: "accumulate a b = a + b"
  by (simp add: accumulate_def plus_node_stats_ext_def)

lemma default_stats_eq_zero: "default_stats = 0"
  by (simp add: default_stats_def zero_node_stats_ext_def zero_unit_def)

lemmas stats_monoid = accumulate_eq_plus default_stats_eq_zero

lemma accumulate_saturates: "unat (read_bytes (a + b)) =
    min (unat (read_bytes a) + unat (read_bytes b)) (2 ^ 64 - 1)" for a b :: node_stats
  by (simp add: plus_node_stats_ext_def sat_simps)


subsection \<open>Tree nodes\<close>

text \<open>
  \<open>children\<close> and \<open>per_process\<close> are hash tables the code iterates, hence association lists.
\<close>

datatype tree_node = TreeNode
  (name: string) (is_dir: bool) (stats: node_stats) (agg_stats: node_stats)
  (children: "(string \<times> tree_node) list") (per_process: "(u32 \<times> node_stats) list")

definition new_node :: "string \<Rightarrow> bool \<Rightarrow> tree_node" where
  "new_node nm dir = TreeNode nm dir default_stats default_stats [] []"

text \<open>The in-place updates of a node's fields.\<close>

fun set_is_dir :: "bool \<Rightarrow> tree_node \<Rightarrow> tree_node" where
  "set_is_dir d (TreeNode n _ s a ch pp) = TreeNode n d s a ch pp"

fun bump_agg :: "node_stats \<Rightarrow> tree_node \<Rightarrow> tree_node" where
  "bump_agg delta (TreeNode n d s a ch pp) = TreeNode n d s (accumulate a delta) ch pp"

fun set_children :: "(string \<times> tree_node) list \<Rightarrow> tree_node \<Rightarrow> tree_node" where
  "set_children ch (TreeNode n d s a _ pp) = TreeNode n d s a ch pp"

fun set_per_process :: "(u32 \<times> node_stats) list \<Rightarrow> tree_node \<Rightarrow> tree_node" where
  "set_per_process pp (TreeNode n d s a ch _) = TreeNode n d s a ch pp"

text \<open>The leaf part of \<open>record_stats\<close>, with \<open>first_process_activity\<close> as second component.\<close>

fun record_leaf :: "u32 \<Rightarrow> node_stats \<Rightarrow> tree_node \<Rightarrow> tree_node \<times> bool" where
  "record_leaf pid delta (TreeNode n d s a ch pp) =
     (case map_of pp pid of
        Some st \<Rightarrow> (TreeNode n d (accumulate s delta) a ch (AList.update pid (accumulate st delta) pp), False)
      | None \<Rightarrow> (TreeNode n d (accumulate s delta) a ch (AList.update pid delta pp), True))"

text \<open>
  The loop of \<open>record_stats\<close>: the mutable reference \<open>node\<close> walks down the components. The
  recursion rebuilds each node the reference passes through.
\<close>

fun record_walk :: "u32 \<Rightarrow> node_stats \<Rightarrow> string list \<Rightarrow> tree_node \<Rightarrow> tree_node \<times> bool" where
  "record_walk pid delta [] node = record_leaf pid delta node"
| "record_walk pid delta (component # rest) node =
     (let child = (case map_of (children node) component of
                     Some c \<Rightarrow> c
                   | None \<Rightarrow> new_node component (rest \<noteq> []));
          child = (if rest \<noteq> [] then set_is_dir True child else child);
          (child, first) = record_walk pid delta rest (bump_agg delta child)
      in (set_children (AList.update component child (children node)) node, first))"

subsection \<open>The file tree\<close>

record file_tree =
  root :: tree_node
  active_paths :: "string \<rightharpoonup> nat"
  paths_by_process :: "u32 \<rightharpoonup> string list"

definition new_tree :: file_tree where
  "new_tree = \<lparr>root = new_node ''/'' True, active_paths = Map.empty, paths_by_process = Map.empty\<rparr>"

text \<open>The reverse index: a \<open>HashSet\<close> of paths per process and a reference count per path.\<close>

definition index_path :: "string \<Rightarrow> u32 \<Rightarrow> file_tree \<Rightarrow> file_tree" where
  "index_path path pid t =
     (let paths = (case paths_by_process t pid of None \<Rightarrow> [] | Some ps \<Rightarrow> ps);
          paths = (if path \<in> set paths then paths else paths @ [path]);
          references = (case active_paths t path of None \<Rightarrow> 0 | Some n \<Rightarrow> n)
      in t\<lparr>paths_by_process := (paths_by_process t)(pid \<mapsto> paths),
           active_paths := (active_paths t)(path \<mapsto> usize_sat_add references 1)\<rparr>)"

definition record_stats :: "string \<Rightarrow> u32 \<Rightarrow> node_stats \<Rightarrow> file_tree \<Rightarrow> file_tree" where
  "record_stats path pid delta t =
     (let components = path_components path
      in if components = [] then t
         else (let (node, first_process_activity) =
                     record_walk pid delta components (bump_agg delta (root t));
                   t = t\<lparr>root := node\<rparr>
               in if first_process_activity then index_path path pid t else t))"

definition record_op :: "string \<Rightarrow> u32 \<Rightarrow> op_kind \<Rightarrow> u64 \<Rightarrow> u64 \<Rightarrow> file_tree \<Rightarrow> file_tree" where
  "record_op path pid op bytes latency t =
     record_stats path pid (for_operations op bytes 1 latency latency) t"

fun get_node :: "tree_node \<Rightarrow> string list \<Rightarrow> tree_node option" where
  "get_node node [] = Some node"
| "get_node node (component # rest) =
     (case map_of (children node) component of
        None \<Rightarrow> None
      | Some c \<Rightarrow> get_node c rest)"

definition tree_get_node :: "file_tree \<Rightarrow> string list \<Rightarrow> tree_node option" where
  "tree_get_node t path = get_node (root t) path"

definition tree_reset :: "file_tree \<Rightarrow> file_tree" where
  "tree_reset t = t\<lparr>root := new_node ''/'' True, active_paths := Map.empty, paths_by_process := Map.empty\<rparr>"

text \<open>
  \<open>find_node_mut\<close> followed by an update of the node it finds; the tree is unchanged when the
  path leads nowhere.
\<close>

fun update_node :: "(tree_node \<Rightarrow> tree_node) \<Rightarrow> string list \<Rightarrow> tree_node \<Rightarrow> tree_node" where
  "update_node f [] node = f node"
| "update_node f (component # rest) node =
     (case map_of (children node) component of
        None \<Rightarrow> node
      | Some c \<Rightarrow> set_children (AList.update component (update_node f rest c) (children node)) node)"

definition forget_process :: "u32 \<Rightarrow> tree_node \<Rightarrow> tree_node" where
  "forget_process pid node = set_per_process (AList.delete pid (per_process node)) node"

definition release_path :: "string \<Rightarrow> (string \<rightharpoonup> nat) \<Rightarrow> (string \<rightharpoonup> nat)" where
  "release_path path active =
     (case active path of
        None \<Rightarrow> active
      | Some n \<Rightarrow> if n \<le> 1 then active(path := None) else active(path \<mapsto> n - 1))"

fun remove_paths :: "u32 \<Rightarrow> string list \<Rightarrow> file_tree \<Rightarrow> file_tree" where
  "remove_paths pid [] t = t"
| "remove_paths pid (path # paths) t =
     remove_paths pid paths
       (t\<lparr>root := update_node (forget_process pid) (path_components path) (root t),
          active_paths := release_path path (active_paths t)\<rparr>)"

definition remove_process :: "u32 \<Rightarrow> file_tree \<Rightarrow> file_tree" where
  "remove_process pid t =
     (case paths_by_process t pid of
        None \<Rightarrow> t
      | Some paths \<Rightarrow>
          remove_paths pid paths (t\<lparr>paths_by_process := (paths_by_process t)(pid := None)\<rparr>))"

subsection \<open>Sort criteria\<close>

datatype sort_criterion = TotalBytes | ReadBytes | WriteBytes | Frequency | Latency | Name

fun sort_label :: "sort_criterion \<Rightarrow> string" where
  "sort_label TotalBytes = ''bytes''"
| "sort_label ReadBytes = ''read''"
| "sort_label WriteBytes = ''write''"
| "sort_label Frequency = ''ops''"
| "sort_label Latency = ''latency''"
| "sort_label Name = ''name''"

fun sort_next :: "sort_criterion \<Rightarrow> sort_criterion" where
  "sort_next TotalBytes = ReadBytes"
| "sort_next ReadBytes = WriteBytes"
| "sort_next WriteBytes = Frequency"
| "sort_next Frequency = Latency"
| "sort_next Latency = Name"
| "sort_next Name = TotalBytes"

fun node_order :: "sort_criterion \<Rightarrow> tree_node \<Rightarrow> tree_node \<Rightarrow> ordering" where
  "node_order TotalBytes a b = cmp (total_bytes (agg_stats a)) (total_bytes (agg_stats b))"
| "node_order ReadBytes a b = cmp (read_bytes (agg_stats a)) (read_bytes (agg_stats b))"
| "node_order WriteBytes a b = cmp (write_bytes (agg_stats a)) (write_bytes (agg_stats b))"
| "node_order Frequency a b = cmp (total_ops (agg_stats a)) (total_ops (agg_stats b))"
| "node_order Latency a b = cmp (avg_latency_ns (agg_stats a)) (avg_latency_ns (agg_stats b))"
| "node_order Name a b = cmp (name a) (name b)"

definition sorted_children :: "tree_node \<Rightarrow> sort_criterion \<Rightarrow> bool \<Rightarrow> tree_node list" where
  "sorted_children node sort_by_key descending =
     sort_by (\<lambda>a b. let ord = node_order sort_by_key a b
                    in if descending \<and> sort_by_key \<noteq> Name then ord_reverse ord else ord)
       (map snd (children node))"

end
