(* ===== verification/Tree_Spec.thy ===== *)
theory Tree_Spec
  imports Model
begin

section \<open>What the file tree promises\<close>

text \<open>
  \<open>tree_view\<close> is the abstract specification of \<open>FileTree\<close>: for each path the aggregate and
  the direct statistics and the statistics of each process. \<open>spec_step\<close> says what each
  operation does to that view; the theorems show that the concrete operations, with their
  reverse index and reference counts, implement it, and that every aggregate of every
  reachable tree is the sum of what lies below it.
\<close>

subsection \<open>Field access after an update\<close>

lemma setters [simp]:
  "name (set_is_dir d n) = name n" "is_dir (set_is_dir d n) = d" "stats (set_is_dir d n) = stats n"
  "agg_stats (set_is_dir d n) = agg_stats n" "children (set_is_dir d n) = children n"
  "per_process (set_is_dir d n) = per_process n"
  "name (bump_agg x n) = name n" "is_dir (bump_agg x n) = is_dir n" "stats (bump_agg x n) = stats n"
  "agg_stats (bump_agg x n) = agg_stats n + x" "children (bump_agg x n) = children n"
  "per_process (bump_agg x n) = per_process n"
  "name (set_children ch n) = name n" "is_dir (set_children ch n) = is_dir n"
  "stats (set_children ch n) = stats n" "agg_stats (set_children ch n) = agg_stats n"
  "children (set_children ch n) = ch" "per_process (set_children ch n) = per_process n"
  "name (set_per_process pp n) = name n" "is_dir (set_per_process pp n) = is_dir n"
  "stats (set_per_process pp n) = stats n" "agg_stats (set_per_process pp n) = agg_stats n"
  "children (set_per_process pp n) = children n" "per_process (set_per_process pp n) = pp"
  by (cases n; simp add: stats_monoid)+

lemma new_node_fields [simp]:
  "name (new_node nm d) = nm" "is_dir (new_node nm d) = d" "stats (new_node nm d) = 0"
  "agg_stats (new_node nm d) = 0" "children (new_node nm d) = []" "per_process (new_node nm d) = []"
  by (simp_all add: new_node_def stats_monoid)

lemma record_leaf_fields [simp]:
  "name (fst (record_leaf pid d n)) = name n" "is_dir (fst (record_leaf pid d n)) = is_dir n"
  "stats (fst (record_leaf pid d n)) = stats n + d"
  "agg_stats (fst (record_leaf pid d n)) = agg_stats n"
  "children (fst (record_leaf pid d n)) = children n"
  "map_of (per_process (fst (record_leaf pid d n))) =
     (map_of (per_process n))(pid \<mapsto> (case map_of (per_process n) pid of None \<Rightarrow> d | Some s \<Rightarrow> s + d))"
  "snd (record_leaf pid d n) \<longleftrightarrow> map_of (per_process n) pid = None"
  "distinct_keys (per_process n) \<Longrightarrow> distinct_keys (per_process (fst (record_leaf pid d n)))"
  by (cases n; auto simp: stats_monoid alist_simps split: option.split)+

lemma bump_agg_commutes:
  "bump_agg x (set_children ch n) = set_children ch (bump_agg x n)"
  "record_leaf pid d (bump_agg x n) =
     (bump_agg x (fst (record_leaf pid d n)), snd (record_leaf pid d n))"
  by (cases n; simp split: option.split)+

text \<open>The child a walk enters.\<close>

definition entered :: "tree_node \<Rightarrow> string \<Rightarrow> string list \<Rightarrow> tree_node" where
  "entered n c rest =
     (let child = (case map_of (children n) c of Some m \<Rightarrow> m | None \<Rightarrow> new_node c (rest \<noteq> []))
      in if rest \<noteq> [] then set_is_dir True child else child)"

lemma entered_fields [simp]:
  "stats (entered n c rest) = (case map_of (children n) c of None \<Rightarrow> 0 | Some m \<Rightarrow> stats m)"
  "agg_stats (entered n c rest) = (case map_of (children n) c of None \<Rightarrow> 0 | Some m \<Rightarrow> agg_stats m)"
  "children (entered n c rest) = (case map_of (children n) c of None \<Rightarrow> [] | Some m \<Rightarrow> children m)"
  "per_process (entered n c rest) = (case map_of (children n) c of None \<Rightarrow> [] | Some m \<Rightarrow> per_process m)"
  "name (entered n c rest) = (case map_of (children n) c of None \<Rightarrow> c | Some m \<Rightarrow> name m)"
  by (auto simp: entered_def Let_def split: option.split)

lemma record_walk_Cons:
  "record_walk pid d (c # rest) n =
     (set_children (AList.update c (fst (record_walk pid d rest (bump_agg d (entered n c rest)))) (children n)) n,
      snd (record_walk pid d rest (bump_agg d (entered n c rest))))"
  by (simp add: entered_def Let_def case_prod_unfold)

declare record_walk.simps(2) [simp del] record_walk_Cons [simp]

lemma record_walk_bump:
  "record_walk pid d cs (bump_agg x n) =
     (bump_agg x (fst (record_walk pid d cs n)), snd (record_walk pid d cs n))"
proof (cases cs)
  case Nil
  then show ?thesis by (simp add: bump_agg_commutes)
next
  case (Cons c rest)
  have "entered (bump_agg x n) c rest = entered n c rest" by (simp add: entered_def)
  with Cons show ?thesis by (simp add: bump_agg_commutes)
qed

lemma record_walk_top [simp]:
  "cs \<noteq> [] \<Longrightarrow> stats (fst (record_walk pid d cs n)) = stats n"
  "agg_stats (fst (record_walk pid d cs n)) = agg_stats n"
  "name (fst (record_walk pid d cs n)) = name n"
  by (cases cs; simp)+

subsection \<open>The view of a tree\<close>

definition agg_at :: "tree_node \<Rightarrow> string list \<Rightarrow> node_stats" where
  "agg_at n q = (case get_node n q of None \<Rightarrow> 0 | Some m \<Rightarrow> agg_stats m)"

definition stats_at :: "tree_node \<Rightarrow> string list \<Rightarrow> node_stats" where
  "stats_at n q = (case get_node n q of None \<Rightarrow> 0 | Some m \<Rightarrow> stats m)"

definition process_at :: "tree_node \<Rightarrow> string list \<Rightarrow> u32 \<Rightarrow> node_stats option" where
  "process_at n q = (case get_node n q of None \<Rightarrow> Map.empty | Some m \<Rightarrow> map_of (per_process m))"

lemma at_Nil [simp]:
  "agg_at n [] = agg_stats n" "stats_at n [] = stats n" "process_at n [] = map_of (per_process n)"
  by (simp_all add: agg_at_def stats_at_def process_at_def)

lemma at_Cons:
  "agg_at n (c # q) = (case map_of (children n) c of None \<Rightarrow> 0 | Some m \<Rightarrow> agg_at m q)"
  "stats_at n (c # q) = (case map_of (children n) c of None \<Rightarrow> 0 | Some m \<Rightarrow> stats_at m q)"
  "process_at n (c # q) = (case map_of (children n) c of None \<Rightarrow> Map.empty | Some m \<Rightarrow> process_at m q)"
  by (auto simp: agg_at_def stats_at_def process_at_def split: option.split)

lemma at_entered:
  "agg_at (entered n c rest) q = agg_at n (c # q)"
  "stats_at (entered n c rest) q = stats_at n (c # q)"
  "process_at (entered n c rest) q = process_at n (c # q)"
  by (cases q; simp add: at_Cons split: option.split)+

lemma at_bump:
  "agg_at (bump_agg x n) q = agg_at n q + (if q = [] then x else 0)"
  "stats_at (bump_agg x n) q = stats_at n q"
  "process_at (bump_agg x n) q = process_at n q"
  by (cases q; simp add: at_Cons)+

lemma agg_at_record_walk:
  "agg_at (fst (record_walk pid d cs n)) q =
     agg_at n q + (if q \<noteq> [] \<and> prefix q cs then d else 0)"
proof (induction cs arbitrary: n q)
  case Nil
  then show ?case by (cases q) (simp_all add: at_Cons)
next
  case (Cons c cs)
  show ?case
  proof (cases q)
    case (Cons k ks)
    show ?thesis
    proof (cases "k = c")
      case True
      have "agg_at (fst (record_walk pid d (c # cs) n)) q =
          agg_at n q + (if ks = [] then d else 0) + (if ks \<noteq> [] \<and> prefix ks cs then d else 0)"
        using Cons True Cons.IH by (simp add: at_Cons alist_simps at_bump at_entered)
      then show ?thesis using Cons True by auto
    qed (use Cons in \<open>simp add: at_Cons alist_simps\<close>)
  qed simp
qed

lemma stats_at_record_walk:
  "stats_at (fst (record_walk pid d cs n)) q = stats_at n q + (if q = cs then d else 0)"
proof (induction cs arbitrary: n q)
  case Nil
  then show ?case by (cases q) (simp_all add: at_Cons)
next
  case (Cons c cs)
  then show ?case
    by (cases q) (auto simp: at_Cons alist_simps at_bump at_entered)
qed

lemma process_at_record_walk:
  "process_at (fst (record_walk pid d cs n)) q =
     (if q = cs
      then (process_at n q)(pid \<mapsto> (case process_at n q pid of None \<Rightarrow> d | Some s \<Rightarrow> s + d))
      else process_at n q)"
proof (induction cs arbitrary: n q)
  case Nil
  then show ?case by (cases q) (simp_all add: at_Cons)
next
  case (Cons c cs)
  then show ?case
    by (cases q) (auto simp: at_Cons alist_simps at_bump at_entered)
qed

lemma first_activity_record_walk:
  "snd (record_walk pid d cs n) \<longleftrightarrow> process_at n cs pid = None"
proof (induction cs arbitrary: n)
  case (Cons c cs)
  then show ?case by (simp add: at_bump at_entered)
qed simp

lemma node_exists_record_walk:
  "get_node (fst (record_walk pid d cs n)) q \<noteq> None \<longleftrightarrow> get_node n q \<noteq> None \<or> prefix q cs"
proof (induction cs arbitrary: n q)
  case Nil
  then show ?case by (cases q) simp_all
next
  case (Cons c cs)
  have "get_node (bump_agg d (entered n c cs)) r \<noteq> None \<longleftrightarrow> get_node n (c # r) \<noteq> None \<or> r = []" for r
    by (cases r) (auto split: option.split)
  with Cons show ?case
    by (cases q) (auto simp: alist_simps)
qed


subsection \<open>Well-formed nodes and consistent aggregates\<close>

text \<open>
  What holds at each single node: the hash tables have distinct keys, a child is filed under
  its own name, and the aggregate is the node's own statistics plus its children's aggregates.
\<close>

definition node_ok :: "tree_node \<Rightarrow> bool" where
  "node_ok n \<longleftrightarrow> distinct_keys (children n) \<and> distinct_keys (per_process n) \<and>
     list_all (\<lambda>(k, c). name c = k \<and> is_component k) (children n) \<and>
     agg_stats n = stats n + sum_list (map (\<lambda>(k, c). agg_stats c) (children n))"

definition all_nodes :: "(tree_node \<Rightarrow> bool) \<Rightarrow> tree_node \<Rightarrow> bool" where
  "all_nodes P n \<longleftrightarrow> (\<forall>q m. get_node n q = Some m \<longrightarrow> P m)"

lemma all_nodes_unfold:
  "all_nodes P n \<longleftrightarrow> P n \<and> (\<forall>c m. map_of (children n) c = Some m \<longrightarrow> all_nodes P m)"
proof
  assume a: "all_nodes P n"
  show "P n \<and> (\<forall>c m. map_of (children n) c = Some m \<longrightarrow> all_nodes P m)"
  proof (intro conjI allI impI)
    show "P n" using a by (simp add: all_nodes_def) (metis get_node.simps(1))
    fix c m
    assume "map_of (children n) c = Some m"
    then have "get_node m q = get_node n (c # q)" for q by simp
    with a show "all_nodes P m" unfolding all_nodes_def by metis
  qed
next
  assume a: "P n \<and> (\<forall>c m. map_of (children n) c = Some m \<longrightarrow> all_nodes P m)"
  show "all_nodes P n"
    unfolding all_nodes_def
  proof (intro allI impI)
    fix q m
    assume "get_node n q = Some m"
    with a show "P m"
      by (cases q) (auto simp: all_nodes_def split: option.splits)
  qed
qed

lemma all_nodes_here: "all_nodes P n \<Longrightarrow> P n"
  using all_nodes_unfold by blast

lemma all_nodes_child: "all_nodes P n \<Longrightarrow> map_of (children n) c = Some m \<Longrightarrow> all_nodes P m"
  using all_nodes_unfold by blast

lemma node_ok_agg: "node_ok n \<Longrightarrow> agg_stats n = stats n + sum_list (map (\<lambda>(k, c). agg_stats c) (children n))"
  by (simp add: node_ok_def)

lemma node_ok_new [simp]: "node_ok (new_node nm d)"
  by (simp add: node_ok_def)

lemma all_ok_new [simp]: "all_nodes node_ok (new_node nm d)"
  by (subst all_nodes_unfold) simp

lemma node_ok_set_is_dir [simp]: "node_ok (set_is_dir d n) = node_ok n"
  by (simp add: node_ok_def)

lemma all_ok_set_is_dir [simp]: "all_nodes node_ok (set_is_dir d n) = all_nodes node_ok n"
  by (subst (1 2) all_nodes_unfold) simp

lemma all_ok_entered:
  "all_nodes node_ok n \<Longrightarrow> all_nodes node_ok (entered n c rest)"
  by (auto simp: entered_def Let_def all_nodes_unfold [of node_ok n] split: option.split)

text \<open>Replacing one child changes the sum of the children's aggregates by the difference.\<close>

lemma children_sum_update:
  assumes "distinct_keys ch"
    and "agg_stats new = (case map_of ch c of None \<Rightarrow> 0 | Some m \<Rightarrow> agg_stats m) + d"
  shows "sum_list (map (\<lambda>(k, n). agg_stats n) (AList.update c new ch)) =
     sum_list (map (\<lambda>(k, n). agg_stats n) ch) + d"
proof (cases "map_of ch c")
  case None
  with assms show ?thesis
    by (simp add: sum_list_update delete_absent add.commute)
next
  case (Some m)
  with assms show ?thesis
    by (simp add: sum_list_update sum_list_split [OF assms(1) Some] ac_simps)
qed

lemma list_all_update:
  "list_all P al \<Longrightarrow> P (k, v) \<Longrightarrow> list_all P (AList.update k v al)"
  by (induction al) auto

lemma all_ok_record_walk:
  assumes "all_nodes node_ok n" and "list_all is_component cs"
  shows "all_nodes node_ok (bump_agg d (fst (record_walk pid d cs n)))"
  using assms
proof (induction cs arbitrary: n)
  case Nil
  from Nil(1) have "node_ok n" by (rule all_nodes_here)
  then have "node_ok (bump_agg d (fst (record_leaf pid d n)))"
    by (simp add: node_ok_def ac_simps)
  with Nil show ?case
    by (simp add: all_nodes_unfold [of node_ok n] all_nodes_unfold [of node_ok "bump_agg d m" for m])
next
  case (Cons c cs)
  let ?e = "entered n c cs"
  let ?new = "fst (record_walk pid d cs (bump_agg d ?e))"
  have new: "?new = bump_agg d (fst (record_walk pid d cs ?e))"
    by (simp add: record_walk_bump)
  have ok_new: "all_nodes node_ok ?new"
    using Cons.IH [OF all_ok_entered [OF Cons.prems(1)]] Cons.prems(2) new by simp
  have ok: "node_ok n" using Cons.prems(1) all_nodes_unfold by blast
  have sum: "sum_list (map (\<lambda>(k, n). agg_stats n) (AList.update c ?new (children n))) =
      sum_list (map (\<lambda>(k, n). agg_stats n) (children n)) + d"
    by (rule children_sum_update) (use ok in \<open>simp_all add: node_ok_def\<close>)
  have "name ?new = c"
    using ok by (auto simp: node_ok_def list_all_iff split: option.split dest: map_of_SomeD)
  then have "node_ok (bump_agg d (fst (record_walk pid d (c # cs) n)))"
    using ok sum Cons.prems(2) by (auto simp: node_ok_def ac_simps intro!: list_all_update)
  moreover have "all_nodes node_ok m" if "map_of (AList.update c ?new (children n)) k = Some m" for k m
    using that ok_new Cons.prems(1) all_nodes_unfold [of node_ok n]
    by (auto simp: alist_simps split: if_splits)
  ultimately show ?case
    by (subst all_nodes_unfold) simp
qed

subsection \<open>Removing a process\<close>

lemma agg_at_update_forget: "agg_at (update_node (forget_process pid) cs n) q = agg_at n q"
proof (induction cs arbitrary: n q)
  case Nil
  then show ?case by (cases q) (simp_all add: forget_process_def at_Cons)
next
  case (Cons c cs)
  then show ?case by (cases q) (auto simp: at_Cons alist_simps split: option.split)
qed

lemma stats_at_update_forget: "stats_at (update_node (forget_process pid) cs n) q = stats_at n q"
proof (induction cs arbitrary: n q)
  case Nil
  then show ?case by (cases q) (simp_all add: forget_process_def at_Cons)
next
  case (Cons c cs)
  then show ?case by (cases q) (auto simp: at_Cons alist_simps split: option.split)
qed

lemma process_at_update_forget:
  "process_at (update_node (forget_process pid) cs n) q =
     (if q = cs then (process_at n q)(pid := None) else process_at n q)"
proof (induction cs arbitrary: n q)
  case Nil
  then show ?case by (cases q) (simp_all add: forget_process_def at_Cons alist_simps)
next
  case (Cons c cs)
  then show ?case by (cases q) (auto simp: at_Cons alist_simps split: option.split)
qed

lemmas at_update_forget = agg_at_update_forget stats_at_update_forget process_at_update_forget

lemma agg_stats_update_forget [simp]:
  "agg_stats (update_node (forget_process pid) cs n) = agg_stats n"
  "name (update_node (forget_process pid) cs n) = name n"
  by (cases cs; simp add: forget_process_def split: option.split)+

lemma all_ok_update_forget:
  "all_nodes node_ok n \<Longrightarrow> all_nodes node_ok (update_node (forget_process pid) cs n)"
proof (induction cs arbitrary: n)
  case Nil
  then have "node_ok (forget_process pid n)"
    using all_nodes_here [OF Nil] by (simp add: forget_process_def node_ok_def)
  then show ?case
    using all_nodes_child [OF Nil] by (subst all_nodes_unfold) (auto simp: forget_process_def)
next
  case (Cons c cs)
  have ok: "node_ok n" "\<And>k m. map_of (children n) k = Some m \<Longrightarrow> all_nodes node_ok m"
    using Cons.prems all_nodes_unfold by blast+
  show ?case
  proof (cases "map_of (children n) c")
    case None
    with Cons.prems show ?thesis by simp
  next
    case (Some m)
    let ?new = "update_node (forget_process pid) cs m"
    have "sum_list (map (\<lambda>(k, n). agg_stats n) (AList.update c ?new (children n))) =
        sum_list (map (\<lambda>(k, n). agg_stats n) (children n)) + 0"
      by (rule children_sum_update) (use ok Some in \<open>simp_all add: node_ok_def\<close>)
    moreover have "name m = c" "is_component c"
      using ok(1) Some by (auto simp: node_ok_def list_all_iff dest!: map_of_SomeD)
    ultimately have "node_ok (set_children (AList.update c ?new (children n)) n)"
      using ok(1) by (auto simp: node_ok_def intro!: list_all_update)
    moreover have "all_nodes node_ok k'"
      if "map_of (AList.update c ?new (children n)) k = Some k'" for k k'
      using that ok(2) Some Cons.IH [OF ok(2) [OF Some]] by (auto simp: alist_simps split: if_splits)
    ultimately show ?thesis
      using Some by (subst all_nodes_unfold) simp
  qed
qed


subsection \<open>The abstract specification\<close>

record tree_view =
  view_agg :: "string list \<Rightarrow> node_stats"
  view_stats :: "string list \<Rightarrow> node_stats"
  view_process :: "string list \<Rightarrow> u32 \<Rightarrow> node_stats option"

definition empty_view :: tree_view where
  "empty_view = \<lparr>view_agg = (\<lambda>_. 0), view_stats = (\<lambda>_. 0), view_process = (\<lambda>_. Map.empty)\<rparr>"

definition abs_tree :: "file_tree \<Rightarrow> tree_view" where
  "abs_tree t =
     \<lparr>view_agg = agg_at (root t), view_stats = stats_at (root t), view_process = process_at (root t)\<rparr>"

datatype tree_op = RecordStats string u32 node_stats | RemoveProcess u32 | ResetTree

fun tree_step :: "tree_op \<Rightarrow> file_tree \<Rightarrow> file_tree" where
  "tree_step (RecordStats path pid delta) t = record_stats path pid delta t"
| "tree_step (RemoveProcess pid) t = remove_process pid t"
| "tree_step ResetTree t = tree_reset t"

fun spec_step :: "tree_op \<Rightarrow> tree_view \<Rightarrow> tree_view" where
  "spec_step (RecordStats path pid delta) v =
     (let cs = path_components path
      in if cs = [] then v
         else \<lparr>view_agg = (\<lambda>q. view_agg v q + (if prefix q cs then delta else 0)),
               view_stats = (\<lambda>q. view_stats v q + (if q = cs then delta else 0)),
               view_process = (view_process v)(cs := (view_process v cs)(pid \<mapsto>
                  (case view_process v cs pid of None \<Rightarrow> delta | Some s \<Rightarrow> s + delta)))\<rparr>)"
| "spec_step (RemoveProcess pid) v = v\<lparr>view_process := (\<lambda>q. (view_process v q)(pid := None))\<rparr>"
| "spec_step ResetTree v = empty_view"

fun tree_run :: "tree_op list \<Rightarrow> file_tree \<Rightarrow> file_tree" where
  "tree_run [] t = t"
| "tree_run (x # xs) t = tree_run xs (tree_step x t)"

fun spec_run :: "tree_op list \<Rightarrow> tree_view \<Rightarrow> tree_view" where
  "spec_run [] v = v"
| "spec_run (x # xs) v = spec_run xs (spec_step x v)"

lemma tree_run_append: "tree_run (xs @ ys) t = tree_run ys (tree_run xs t)"
  by (induction xs arbitrary: t) simp_all

subsection \<open>The reverse index\<close>

definition indexed :: "file_tree \<Rightarrow> u32 \<Rightarrow> string list" where
  "indexed t pid = (case paths_by_process t pid of None \<Rightarrow> [] | Some ps \<Rightarrow> ps)"

text \<open>
  A process's indexed paths name, each once, exactly the nodes that hold statistics for it, and
  a path's reference count is the number of processes that index it.
\<close>

definition index_ok :: "file_tree \<Rightarrow> bool" where
  "index_ok t \<longleftrightarrow> (\<forall>pid. distinct (map path_components (indexed t pid)) \<and>
     (\<forall>q. process_at (root t) q pid \<noteq> None \<longleftrightarrow> q \<in> set (map path_components (indexed t pid))))"

definition users :: "file_tree \<Rightarrow> string \<Rightarrow> u32 set" where
  "users t path = {pid. path \<in> set (indexed t pid)}"

definition refs_ok :: "file_tree \<Rightarrow> bool" where
  "refs_ok t \<longleftrightarrow> (\<forall>path. active_paths t path =
     (if users t path = {} then None else Some (card (users t path))))"

definition tree_ok :: "file_tree \<Rightarrow> bool" where
  "tree_ok t \<longleftrightarrow> all_nodes node_ok (root t) \<and> index_ok t \<and> refs_ok t"

lemma index_okD:
  "index_ok t \<Longrightarrow> distinct (map path_components (indexed t pid))"
  "index_ok t \<Longrightarrow> process_at (root t) q pid \<noteq> None \<longleftrightarrow> q \<in> path_components ` set (indexed t pid)"
  by (auto simp: index_ok_def)

lemma process_at_new [simp]: "process_at (new_node nm d) q = Map.empty"
  by (cases q) (simp_all add: at_Cons)

lemma agg_stats_at_new [simp]: "agg_at (new_node nm d) q = 0" "stats_at (new_node nm d) q = 0"
  by (cases q; simp add: at_Cons)+

lemma tree_ok_empty:
  "root t = new_node nm d \<Longrightarrow> active_paths t = Map.empty \<Longrightarrow> paths_by_process t = Map.empty \<Longrightarrow> tree_ok t"
  by (simp add: tree_ok_def index_ok_def refs_ok_def users_def indexed_def)

lemma tree_ok_new: "tree_ok new_tree"
  by (rule tree_ok_empty) (simp_all add: new_tree_def)

lemma tree_ok_reset: "tree_ok (tree_reset t)"
  by (rule tree_ok_empty) (simp_all add: tree_reset_def)

lemma card_users: "card (users t path) \<le> 2 ^ 32"
proof -
  have "card (users t path) \<le> card (UNIV :: u32 set)"
    by (rule card_mono) auto
  then show ?thesis by (simp add: card_word)
qed

text \<open>Indexing a path for a process that has no statistics at its node yet.\<close>

lemma indexed_index_path:
  "path \<notin> set (indexed t pid) \<Longrightarrow>
   indexed (index_path path pid t) p = (if p = pid then indexed t pid @ [path] else indexed t p)"
  by (auto simp: index_path_def indexed_def Let_def split: option.split)

lemma users_index_path:
  "path \<notin> set (indexed t pid) \<Longrightarrow>
   users (index_path path pid t) x = (if x = path then insert pid (users t x) else users t x)"
  by (auto simp: users_def indexed_index_path)

lemma root_index_path [simp]: "root (index_path path pid t) = root t"
  by (simp add: index_path_def Let_def)

lemma refs_ok_index_path:
  assumes "refs_ok t" and "path \<notin> set (indexed t pid)"
  shows "refs_ok (index_path path pid t)"
proof -
  have "pid \<notin> users t path" using assms(2) by (simp add: users_def)
  then have card: "card (insert pid (users t path)) = card (users t path) + 1" by simp
  have "usize_sat_add (case active_paths t path of None \<Rightarrow> 0 | Some n \<Rightarrow> n) 1 = card (users t path) + 1"
    using assms(1) card_users [of t path] by (auto simp: refs_ok_def usize_sat_add_def usize_max_def)
  then have "active_paths (index_path path pid t) = (active_paths t)(path \<mapsto> card (users t path) + 1)"
    by (simp add: index_path_def Let_def)
  then show ?thesis
    using assms card by (auto simp: refs_ok_def users_index_path)
qed

lemma tree_ok_record_stats:
  assumes "tree_ok t"
  shows "tree_ok (record_stats path pid d t)"
proof (cases "path_components path = []")
  case True
  then show ?thesis using assms by (simp add: record_stats_def)
next
  case False
  let ?cs = "path_components path"
  let ?root = "fst (record_walk pid d ?cs (bump_agg d (root t)))"
  have root_ok: "all_nodes node_ok ?root"
    using assms path_components_are_components [of _ path]
    by (simp add: record_walk_bump tree_ok_def all_ok_record_walk list_all_iff)
  have proc: "process_at ?root q p \<noteq> None \<longleftrightarrow> process_at (root t) q p \<noteq> None \<or> (q = ?cs \<and> p = pid)" for q p
    by (simp add: process_at_record_walk at_bump)
  have idx: "index_ok t" "refs_ok t" using assms by (simp_all add: tree_ok_def)
  show ?thesis
  proof (cases "process_at (root t) ?cs pid = None")
    case True
    then have new: "?cs \<notin> path_components ` set (indexed t pid)"
      using index_okD(2) [OF idx(1)] by blast
    then have absent: "path \<notin> set (indexed (t\<lparr>root := ?root\<rparr>) pid)"
      by (auto simp: indexed_def)
    have ind: "indexed (t\<lparr>root := ?root\<rparr>) p = indexed t p" for p by (simp add: indexed_def)
    have "index_ok (index_path path pid (t\<lparr>root := ?root\<rparr>))"
      unfolding index_ok_def
      using idx(1) new by (auto simp: indexed_index_path [OF absent] ind proc index_ok_def simp del: not_None_eq)
    moreover have "refs_ok (index_path path pid (t\<lparr>root := ?root\<rparr>))"
      by (rule refs_ok_index_path [OF _ absent]) (use idx(2) in \<open>simp add: refs_ok_def users_def indexed_def\<close>)
    ultimately show ?thesis
      using False True root_ok
      by (simp add: record_stats_def Let_def case_prod_unfold first_activity_record_walk at_bump tree_ok_def)
  next
    case some: False
    have "index_ok (t\<lparr>root := ?root\<rparr>)"
      using idx(1) some by (auto simp: index_ok_def proc indexed_def simp del: not_None_eq)
    moreover have "refs_ok (t\<lparr>root := ?root\<rparr>)"
      using idx(2) by (simp add: refs_ok_def users_def indexed_def)
    ultimately show ?thesis
      using False some root_ok
      by (auto simp: record_stats_def Let_def case_prod_unfold first_activity_record_walk at_bump tree_ok_def)
  qed
qed

lemma remove_paths_fields:
  "paths_by_process (remove_paths pid ps t) = paths_by_process t"
  "agg_at (root (remove_paths pid ps t)) = agg_at (root t)"
  "stats_at (root (remove_paths pid ps t)) = stats_at (root t)"
  by (induction ps arbitrary: t; simp add: at_update_forget fun_eq_iff)+

lemma process_at_remove_paths:
  "process_at (root (remove_paths pid ps t)) q =
     (if q \<in> path_components ` set ps then (process_at (root t) q)(pid := None) else process_at (root t) q)"
  by (induction ps arbitrary: t) (auto simp: at_update_forget)

lemma release_path_other [simp]: "x \<noteq> path \<Longrightarrow> release_path path m x = m x"
  by (auto simp: release_path_def split: option.split)

lemma active_remove_paths:
  "distinct ps \<Longrightarrow> active_paths (remove_paths pid ps t) x =
     (if x \<in> set ps then release_path x (active_paths t) x else active_paths t x)"
  by (induction ps arbitrary: t) (auto simp: release_path_def split: option.split)

lemma all_ok_remove_paths:
  "all_nodes node_ok (root t) \<Longrightarrow> all_nodes node_ok (root (remove_paths pid ps t))"
  by (induction ps arbitrary: t) (simp_all add: all_ok_update_forget)


lemma tree_ok_remove_process:
  assumes "tree_ok t"
  shows "tree_ok (remove_process pid t)"
proof (cases "paths_by_process t pid")
  case None
  then show ?thesis using assms by (simp add: remove_process_def)
next
  case (Some ps)
  let ?s = "t\<lparr>paths_by_process := (paths_by_process t)(pid := None)\<rparr>"
  let ?t = "remove_paths pid ps ?s"
  have idx: "index_ok t" "refs_ok t" and ps: "ps = indexed t pid"
    using assms Some by (simp_all add: tree_ok_def indexed_def)
  have ind: "indexed ?t p = (if p = pid then [] else indexed t p)" for p
    by (auto simp: indexed_def remove_paths_fields)
  have "index_ok ?t"
    unfolding index_ok_def ind
    using idx(1) by (auto simp: process_at_remove_paths index_ok_def ps image_iff simp del: not_None_eq)
  moreover have "refs_ok ?t"
    unfolding refs_ok_def
  proof
    fix path
    have us: "users ?t path = users t path - {pid}" by (auto simp: users_def ind)
    have "distinct ps" using index_okD(1) [OF idx(1), of pid] ps by (simp add: distinct_map)
    then have act: "active_paths ?t path =
        (if path \<in> set ps then release_path path (active_paths t) path else active_paths t path)"
      by (simp add: active_remove_paths)
    show "active_paths ?t path = (if users ?t path = {} then None else Some (card (users ?t path)))"
    proof (cases "path \<in> set ps")
      case False
      then have "pid \<notin> users t path" by (simp add: users_def ps)
      with False act us idx(2) show ?thesis by (simp add: refs_ok_def)
    next
      case True
      then have mem: "pid \<in> users t path" by (simp add: users_def ps)
      then have ap: "active_paths t path = Some (card (users t path))"
        using idx(2) by (auto simp: refs_ok_def)
      have "card (users t path - {pid}) = card (users t path) - 1"
        using mem by simp
      moreover have "users t path - {pid} = {} \<longleftrightarrow> card (users t path) \<le> 1"
        using mem card_users by (metis calculation card_0_eq diff_is_0_eq finite)
      ultimately show ?thesis
        using True act us ap by (simp add: release_path_def)
    qed
  qed
  moreover have "all_nodes node_ok (root ?t)"
    using assms by (intro all_ok_remove_paths) (simp add: tree_ok_def)
  ultimately show ?thesis
    using Some by (simp add: remove_process_def tree_ok_def)
qed

lemma tree_ok_step: "tree_ok t \<Longrightarrow> tree_ok (tree_step x t)"
  by (cases x) (auto intro: tree_ok_record_stats tree_ok_remove_process tree_ok_reset)

lemma tree_ok_run: "tree_ok t \<Longrightarrow> tree_ok (tree_run xs t)"
  by (induction xs arbitrary: t) (auto intro: tree_ok_step)

subsection \<open>The operations implement their specification\<close>

lemma abs_record_stats: "abs_tree (record_stats path pid d t) = spec_step (RecordStats path pid d) (abs_tree t)"
proof (cases "path_components path")
  case Nil
  then show ?thesis by (simp add: record_stats_def)
next
  case (Cons c cs)
  let ?r = "fst (record_walk pid d (c # cs) (bump_agg d (root t)))"
  have root: "root (record_stats path pid d t) = ?r"
    using Cons by (simp add: record_stats_def Let_def case_prod_unfold root_index_path del: record_walk_Cons)
  have agg: "agg_at ?r q = (if prefix q (c # cs) then agg_at (root t) q + d else agg_at (root t) q)" for q
    unfolding agg_at_record_walk at_bump by auto
  have st: "stats_at ?r q = (if q = c # cs then stats_at (root t) q + d else stats_at (root t) q)" for q
    unfolding stats_at_record_walk at_bump by simp
  have pr: "process_at ?r q =
      (if q = c # cs then (process_at (root t) q)(pid \<mapsto>
          (case process_at (root t) q pid of None \<Rightarrow> d | Some s \<Rightarrow> s + d)) else process_at (root t) q)" for q
    unfolding process_at_record_walk at_bump by simp
  show ?thesis
    unfolding abs_tree_def root agg st pr using Cons by (simp add: Let_def fun_eq_iff)
qed

lemma abs_remove_process:
  assumes "tree_ok t"
  shows "abs_tree (remove_process pid t) = spec_step (RemoveProcess pid) (abs_tree t)"
proof -
  have idx: "index_ok t" using assms by (simp add: tree_ok_def)
  have none: "process_at (root t) q pid = None" if "q \<notin> path_components ` set (indexed t pid)" for q
    using that index_okD(2) [OF idx] by blast
  show ?thesis
  proof (cases "paths_by_process t pid")
    case None
    then have "(process_at (root t) q)(pid := None) = process_at (root t) q" for q
      using none [of q] by (simp add: indexed_def fun_upd_idem)
    with None show ?thesis by (simp add: remove_process_def abs_tree_def)
  next
    case (Some ps)
    then have ps: "indexed t pid = ps" by (simp add: indexed_def)
    have "(if q \<in> path_components ` set ps then (process_at (root t) q)(pid := None)
        else process_at (root t) q) = (process_at (root t) q)(pid := None)" for q
      using none [of q] ps by (auto simp: fun_upd_idem)
    with Some show ?thesis
      using none ps
      by (simp add: remove_process_def abs_tree_def remove_paths_fields process_at_remove_paths fun_eq_iff)
  qed
qed

lemma abs_reset: "abs_tree (tree_reset t) = empty_view"
  by (simp add: abs_tree_def tree_reset_def empty_view_def fun_eq_iff)

lemma abs_new: "abs_tree new_tree = empty_view"
  by (simp add: abs_tree_def new_tree_def empty_view_def fun_eq_iff)

lemma abs_step: "tree_ok t \<Longrightarrow> abs_tree (tree_step x t) = spec_step x (abs_tree t)"
  by (cases x) (simp_all add: abs_record_stats abs_remove_process abs_reset del: spec_step.simps(1,2))

lemma abs_run: "tree_ok t \<Longrightarrow> abs_tree (tree_run xs t) = spec_run xs (abs_tree t)"
  by (induction xs arbitrary: t) (simp_all add: abs_step tree_ok_step)

subsection \<open>Properties of every reachable tree\<close>

text \<open>(C5) Functional refinement of \<open>FileTree\<close>: whatever sequence of \<open>record_stats\<close>,
  \<open>remove_process\<close> and \<open>reset\<close> is applied to a new tree, the statistics it shows at every
  path are those the specification computes from that sequence: a delta is added to the
  aggregate of every prefix of its path, to the direct statistics and the process entry of the
  path itself, and a removed process disappears from every path while all totals stay.\<close>

theorem file_tree_refines_spec:
  "abs_tree (tree_run ops new_tree) = spec_run ops empty_view"
  by (simp add: abs_run tree_ok_new abs_new)

text \<open>(C29) Aggregates are consistent: at every node of every reachable tree, \<open>agg_stats\<close> is
  the node's own statistics plus the sum of its children's aggregates, saturation included.\<close>

theorem file_tree_aggregates:
  assumes "get_node (root (tree_run ops new_tree)) q = Some n"
  shows "agg_stats n = stats n + sum_list (map (\<lambda>(k, c). agg_stats c) (children n))"
proof -
  have "all_nodes node_ok (root (tree_run ops new_tree))"
    using tree_ok_run [OF tree_ok_new] by (simp add: tree_ok_def)
  with assms have "node_ok n" by (auto simp: all_nodes_def)
  then show ?thesis by (rule node_ok_agg)
qed

lemma file_tree_aggregates_witness:
  "\<exists>n. get_node (root (tree_run
      [RecordStats ''/a'' 1 (for_operations Read 5 1 7 7),
       RecordStats ''/a/b'' 2 (for_operations Write 11 1 13 13)] new_tree)) [''a''] = Some n
     \<and> agg_stats n = stats n + sum_list (map (\<lambda>(k, c). agg_stats c) (children n))
     \<and> read_bytes (agg_stats n) = 5 \<and> write_bytes (agg_stats n) = 11 \<and> write_bytes (stats n) = 0"
proof -
  let ?ops = "[RecordStats ''/a'' 1 (for_operations Read 5 1 7 7),
       RecordStats ''/a/b'' 2 (for_operations Write 11 1 13 13)]"
  obtain n where n: "get_node (root (tree_run ?ops new_tree)) [''a''] = Some n"
    and v: "read_bytes (agg_stats n) = 5" "write_bytes (agg_stats n) = 11" "write_bytes (stats n) = 0"
    by (simp add: new_tree_def record_stats_def path_components_def index_path_def new_node_def
        record_walk.simps accumulate_def default_stats_def sat_add_def entered_def)
  from n v file_tree_aggregates [OF n] show ?thesis by blast
qed

text \<open>(C12) The reverse index is exact: in every reachable tree a node holds statistics for a
  process if and only if that process indexes the node's path, each path is indexed once per
  process, and \<open>active_paths\<close> counts for each path the processes that index it, with no entry
  when no process does. So removing a process reaches every one of its entries.\<close>

theorem file_tree_index_exact:
  "let t = tree_run ops new_tree in
     distinct (map path_components (indexed t pid)) \<and>
     (process_at (root t) q pid \<noteq> None) = (q \<in> path_components ` set (indexed t pid)) \<and>
     active_paths t path =
       (if users t path = {} then None else Some (card (users t path)))"
proof -
  have "index_ok (tree_run ops new_tree)" "refs_ok (tree_run ops new_tree)"
    using tree_ok_run [OF tree_ok_new] by (simp_all add: tree_ok_def)
  then show ?thesis
    using index_okD by (simp add: Let_def refs_ok_def)
qed

end
