(* ===== verification/Processes.thy ===== *)
theory Processes
  imports Model
begin

section \<open>The process table (ncda/src/process.rs)\<close>

text \<open>
  \<open>ProcessInfo\<close>, \<open>ProcessSort\<close> and \<open>ProcessTable\<close>. Reading \<open>/proc/PID/comm\<close> is the
  parameter \<open>comm_file\<close>, the file's content or \<open>None\<close> when it cannot be read. The table's
  hash map is iterated when it is displayed, hence an association list; the theorems show that
  its order is never visible.
\<close>

record process_info =
  pi_pid :: u32
  pi_comm :: string
  pi_container :: "string option"
  pi_stats :: node_stats

datatype process_sort =
  ByTotalBytes | ByReadBytes | ByWriteBytes | ByOperations | ByLatency | ByPid | ByName

fun process_sort_next :: "process_sort \<Rightarrow> process_sort" where
  "process_sort_next ByTotalBytes = ByReadBytes"
| "process_sort_next ByReadBytes = ByWriteBytes"
| "process_sort_next ByWriteBytes = ByOperations"
| "process_sort_next ByOperations = ByLatency"
| "process_sort_next ByLatency = ByPid"
| "process_sort_next ByPid = ByName"
| "process_sort_next ByName = ByTotalBytes"

fun process_sort_label :: "process_sort \<Rightarrow> string" where
  "process_sort_label ByTotalBytes = ''bytes''"
| "process_sort_label ByReadBytes = ''read''"
| "process_sort_label ByWriteBytes = ''write''"
| "process_sort_label ByOperations = ''ops''"
| "process_sort_label ByLatency = ''latency''"
| "process_sort_label ByPid = ''pid''"
| "process_sort_label ByName = ''name''"

type_synonym process_table = "(u32 \<times> process_info) list"

definition new_table :: process_table where
  "new_table = []"

definition read_comm :: "(u32 \<Rightarrow> string option) \<Rightarrow> u32 \<Rightarrow> string" where
  "read_comm comm_file pid = trim (case comm_file pid of None \<Rightarrow> [] | Some s \<Rightarrow> s)"

definition table_record_stats ::
    "(u32 \<Rightarrow> string option) \<Rightarrow> u32 \<Rightarrow> string option \<Rightarrow> node_stats \<Rightarrow> process_table \<Rightarrow> process_table" where
  "table_record_stats comm_file pid container delta t =
     alter \<lparr>pi_pid = pid, pi_comm = read_comm comm_file pid, pi_container = container,
            pi_stats = default_stats\<rparr>
       (\<lambda>info. let info = (if pi_container info = None then info\<lparr>pi_container := container\<rparr> else info)
               in info\<lparr>pi_stats := accumulate (pi_stats info) delta\<rparr>)
       pid t"

definition table_record_context ::
    "(u32 \<Rightarrow> string option) \<Rightarrow> u32 \<Rightarrow> string option \<Rightarrow> op_kind \<Rightarrow> u64 \<Rightarrow> u64 \<Rightarrow> process_table \<Rightarrow> process_table" where
  "table_record_context comm_file pid container op bytes latency t =
     table_record_stats comm_file pid container (for_operations op bytes 1 latency latency) t"

definition table_record ::
    "(u32 \<Rightarrow> string option) \<Rightarrow> u32 \<Rightarrow> op_kind \<Rightarrow> u64 \<Rightarrow> u64 \<Rightarrow> process_table \<Rightarrow> process_table" where
  "table_record comm_file pid op bytes latency t =
     table_record_context comm_file pid None op bytes latency t"

fun process_key_order :: "process_sort \<Rightarrow> process_info \<Rightarrow> process_info \<Rightarrow> ordering" where
  "process_key_order ByTotalBytes a b = cmp (total_bytes (pi_stats a)) (total_bytes (pi_stats b))"
| "process_key_order ByReadBytes a b = cmp (read_bytes (pi_stats a)) (read_bytes (pi_stats b))"
| "process_key_order ByWriteBytes a b = cmp (write_bytes (pi_stats a)) (write_bytes (pi_stats b))"
| "process_key_order ByOperations a b = cmp (total_ops (pi_stats a)) (total_ops (pi_stats b))"
| "process_key_order ByLatency a b = cmp (avg_latency_ns (pi_stats a)) (avg_latency_ns (pi_stats b))"
| "process_key_order ByPid a b = cmp (pi_pid a) (pi_pid b)"
| "process_key_order ByName a b = cmp (pi_comm a) (pi_comm b)"

definition process_order :: "process_sort \<Rightarrow> bool \<Rightarrow> process_info \<Rightarrow> process_info \<Rightarrow> ordering" where
  "process_order key descending a b =
     (let order = process_key_order key a b;
          order = (if descending then ord_reverse order else order)
      in then_with order (cmp (pi_pid a) (pi_pid b)))"

definition sorted_processes :: "process_sort \<Rightarrow> bool \<Rightarrow> process_table \<Rightarrow> process_info list" where
  "sorted_processes key descending t = sort_by (process_order key descending) (map snd t)"

definition top_by_bytes :: "nat \<Rightarrow> process_table \<Rightarrow> process_info list" where
  "top_by_bytes n t = take n (sorted_processes ByTotalBytes True t)"

definition table_remove :: "u32 \<Rightarrow> process_table \<Rightarrow> process_table" where
  "table_remove pid t = AList.delete pid t"

definition table_reset :: "process_table \<Rightarrow> process_table" where
  "table_reset t = []"

subsection \<open>The table invariant\<close>

text \<open>Keys are distinct and each entry is filed under its own pid.\<close>

definition table_ok :: "process_table \<Rightarrow> bool" where
  "table_ok t \<longleftrightarrow> distinct_keys t \<and> list_all (\<lambda>(k, info). pi_pid info = k) t"

lemma table_ok_new [simp]: "table_ok new_table" "table_ok (table_reset t)"
  by (simp_all add: table_ok_def new_table_def table_reset_def)

lemma table_ok_lookup: "table_ok t \<Longrightarrow> map_of t k = Some info \<Longrightarrow> pi_pid info = k"
  by (auto simp: table_ok_def list_all_iff dest: map_of_SomeD)

lemma list_all_alist_update:
  "list_all P al \<Longrightarrow> P (k, v) \<Longrightarrow> list_all P (AList.update k v al)"
  by (induction al) auto

lemma table_ok_update: "table_ok t \<Longrightarrow> pi_pid info = k \<Longrightarrow> table_ok (AList.update k info t)"
  by (simp add: table_ok_def list_all_alist_update)

lemma table_ok_record [simp]: "table_ok t \<Longrightarrow> table_ok (table_record_stats comm_file pid container d t)"
  unfolding table_record_stats_def alter_def
  by (rule table_ok_update) (simp_all add: Let_def table_ok_lookup split: option.split)

lemma table_ok_remove [simp]: "table_ok t \<Longrightarrow> table_ok (table_remove pid t)"
  by (auto simp: table_ok_def table_remove_def list_all_iff AList.delete_eq)

lemma map_of_table_record:
  "map_of (table_record_stats comm_file pid container d t) =
     (map_of t)(pid \<mapsto> (case map_of t pid of
        None \<Rightarrow> \<lparr>pi_pid = pid, pi_comm = read_comm comm_file pid, pi_container = container, pi_stats = d\<rparr>
      | Some info \<Rightarrow> info\<lparr>pi_container := (case pi_container info of None \<Rightarrow> container | Some c \<Rightarrow> Some c),
                          pi_stats := pi_stats info + d\<rparr>))"
  by (auto simp: table_record_stats_def alist_simps Let_def stats_monoid split: option.split)

subsection \<open>Display order\<close>

lemma comparison_process_key: "comparison (process_key_order key)"
  by (cases key) (simp_all add: comparison_key process_key_order.simps [abs_def])

interpretation process_cmp: comparison "process_order key descending"
  for key :: process_sort and descending :: bool
proof -
  have "comparison (\<lambda>a b. if descending then ord_reverse (process_key_order key a b)
      else process_key_order key a b)"
    using comparison_process_key comparison_reverse by (cases descending) auto
  then have "comparison (\<lambda>a b. then_with (if descending then ord_reverse (process_key_order key a b)
      else process_key_order key a b) (cmp (pi_pid a) (pi_pid b)))"
    by (intro comparison_then_with comparison_key)
  then show "comparison (process_order key descending)"
    by (simp add: process_order_def [abs_def] Let_def)
qed

lemma process_order_eq: "process_order key descending a b = Eq \<Longrightarrow> pi_pid a = pi_pid b"
  by (simp add: process_order_def Let_def)

lemma table_entry_lookup: "table_ok t \<Longrightarrow> a \<in> set (map snd t) \<Longrightarrow> map_of t (pi_pid a) = Some a"
  by (auto simp: table_ok_def list_all_iff distinct_keys_def)

lemma table_entries_unique:
  "table_ok t \<Longrightarrow> a \<in> set (map snd t) \<Longrightarrow> b \<in> set (map snd t) \<Longrightarrow> pi_pid a = pi_pid b \<Longrightarrow> a = b"
  by (metis option.inject table_entry_lookup)

lemma same_table_mset:
  assumes "distinct_keys t" "distinct_keys u" "map_of t = map_of u"
  shows "mset t = mset u"
proof -
  have "set t = set u"
    using assms by (auto simp: map_of_mem)
  moreover have "distinct t" "distinct u"
    using assms by (simp_all add: distinct_keys_def distinct_map)
  ultimately show ?thesis
    by (simp add: set_eq_iff_mset_eq_distinct)
qed

text \<open>The process list does not depend on the iteration order of the hash table: two
  well-formed tables with the same entries are displayed as the same list under every key key
  and direction, so the pid tie-break makes the order total.\<close>

theorem sorted_processes_deterministic:
  assumes "table_ok t" and "table_ok u" and "map_of t = map_of u"
  shows "sorted_processes key descending t = sorted_processes key descending u"
proof -
  have "mset (map snd t) = mset (map snd u)"
    using same_table_mset [OF _ _ assms(3)] assms(1,2) by (simp add: table_ok_def)
  then show ?thesis
    unfolding sorted_processes_def
    by (rule process_cmp.sort_by_order_independent)
      (blast intro: table_entries_unique [OF assms(1)] process_order_eq)
qed

lemma sorted_processes_deterministic_witness:
  "let a = table_record (\<lambda>_. Some ''sh'') 7 Read 10 1 new_table;
       b = table_record (\<lambda>_. None) 9 Write 10 1 new_table
   in a @ b \<noteq> b @ a \<and>
      sorted_processes ByTotalBytes True (a @ b) = sorted_processes ByTotalBytes True (b @ a)"
proof -
  let ?a = "table_record (\<lambda>_. Some ''sh'') 7 Read 10 1 new_table"
  let ?b = "table_record (\<lambda>_. None) 9 Write 10 1 new_table"
  have val: "?a = [(7, \<lparr>pi_pid = 7, pi_comm = read_comm (\<lambda>_. Some ''sh'') 7, pi_container = None,
        pi_stats = for_operations Read 10 1 1 1\<rparr>)]"
      "?b = [(9, \<lparr>pi_pid = 9, pi_comm = read_comm (\<lambda>_. None) 9, pi_container = None,
        pi_stats = for_operations Write 10 1 1 1\<rparr>)]"
    by (simp_all add: table_record_def table_record_context_def table_record_stats_def alter_def
        new_table_def Let_def stats_monoid del: for_operations.simps)
  have "table_ok (?a @ ?b)" "table_ok (?b @ ?a)" "map_of (?a @ ?b) = map_of (?b @ ?a)"
    unfolding val by (simp_all add: table_ok_def distinct_keys_def fun_upd_twist)
  from sorted_processes_deterministic [OF this, of ByTotalBytes True] val show ?thesis
    by (simp add: Let_def)
qed

end
