(* ===== verification/Filters.thy ===== *)
theory Filters
  imports Tree_Spec Processes
begin

section \<open>Filter queries (ncda/src/tui/filter.rs)\<close>

text \<open>
  \<open>FilterQuery\<close>, its parser and its three uses: matching one activity, aggregating the
  matching statistics below a node, and collecting the matching processes.

  Unicode lower-casing (\<open>str::to_lowercase\<close>) is the parameter \<open>lower\<close>: its tables are not
  part of the program, and no theorem needs to know what it does.
\<close>

datatype filter_term =
  AnyTerm string | PathTerm string | PidTerm u32 | ProcessTerm string | ContainerTerm string

record filter_query =
  fq_raw :: string
  fq_terms :: "filter_term list"

definition empty_query :: filter_query where
  "empty_query = \<lparr>fq_raw = [], fq_terms = []\<rparr>"

fun split_once :: "char \<Rightarrow> string \<Rightarrow> (string \<times> string) option" where
  "split_once d [] = None"
| "split_once d (c # cs) =
     (if c = d then Some ([], cs)
      else map_option (\<lambda>(a, b). (c # a, b)) (split_once d cs))"

definition to_ascii_lowercase :: "string \<Rightarrow> string" where
  "to_ascii_lowercase s =
     map (\<lambda>c. if 65 \<le> (of_char c :: nat) \<and> (of_char c :: nat) \<le> 90 then char_of (of_char c + 32 :: nat) else c) s"

definition parse_term :: "(string \<Rightarrow> string) \<Rightarrow> string \<Rightarrow> string + filter_term" where
  "parse_term lower token =
     (let (field, val) = (case split_once (CHR '':'') token of Some fv \<Rightarrow> fv | None \<Rightarrow> ([], token))
      in if val = [] then Inl (''missing value in filter term '' @ [CHR 0x27] @ token @ [CHR 0x27])
         else let val_lower = lower val; f = to_ascii_lowercase field
              in if f = [] then Inr (AnyTerm val_lower)
                 else if f = ''path'' then Inr (PathTerm val_lower)
                 else if f = ''pid'' then
                   (case parse_u32 val of
                      Some pid \<Rightarrow> Inr (PidTerm pid)
                    | None \<Rightarrow> Inl (''invalid PID in filter term '' @ [CHR 0x27] @ token @ [CHR 0x27]))
                 else if f = ''proc'' \<or> f = ''process'' then Inr (ProcessTerm val_lower)
                 else if f = ''container'' then Inr (ContainerTerm val_lower)
                 else Inl (''unknown filter field '' @ [CHR 0x27] @ field @ [CHR 0x27]))"

fun parse_terms :: "(string \<Rightarrow> string) \<Rightarrow> string list \<Rightarrow> string + filter_term list" where
  "parse_terms lower [] = Inr []"
| "parse_terms lower (token # tokens) =
     (case parse_term lower token of
        Inl e \<Rightarrow> Inl e
      | Inr t \<Rightarrow> (case parse_terms lower tokens of Inl e \<Rightarrow> Inl e | Inr ts \<Rightarrow> Inr (t # ts)))"

definition parse_query :: "(string \<Rightarrow> string) \<Rightarrow> string \<Rightarrow> string + filter_query" where
  "parse_query lower input =
     (case parse_terms lower (split_whitespace input) of
        Inl e \<Rightarrow> Inl e
      | Inr ts \<Rightarrow> Inr \<lparr>fq_raw = trim input, fq_terms = ts\<rparr>)"

definition query_is_empty :: "filter_query \<Rightarrow> bool" where
  "query_is_empty q \<longleftrightarrow> fq_terms q = []"

fun term_matches :: "string \<Rightarrow> u32 \<Rightarrow> string \<Rightarrow> string \<Rightarrow> string \<Rightarrow> filter_term \<Rightarrow> bool" where
  "term_matches path pid pid_text process_name container (AnyTerm v) \<longleftrightarrow>
     contains v path \<or> contains v pid_text \<or> contains v process_name \<or> contains v container"
| "term_matches path pid pid_text process_name container (PathTerm v) \<longleftrightarrow> contains v path"
| "term_matches path pid pid_text process_name container (PidTerm v) \<longleftrightarrow> pid = v"
| "term_matches path pid pid_text process_name container (ProcessTerm v) \<longleftrightarrow> contains v process_name"
| "term_matches path pid pid_text process_name container (ContainerTerm v) \<longleftrightarrow> contains v container"

definition matches_activity ::
    "(string \<Rightarrow> string) \<Rightarrow> filter_query \<Rightarrow> string \<Rightarrow> u32 \<Rightarrow> process_info option \<Rightarrow> bool" where
  "matches_activity lower query path pid process =
     (if query_is_empty query then True
      else let path_lower = lower path;
               pid_text = show_word pid;
               process_name = (case process of None \<Rightarrow> [] | Some info \<Rightarrow> lower (pi_comm info));
               container = (case process of None \<Rightarrow> []
                            | Some info \<Rightarrow> (case pi_container info of None \<Rightarrow> [] | Some c \<Rightarrow> lower c))
           in list_all (term_matches path_lower pid pid_text process_name container) (fq_terms query))"

definition join_path :: "string \<Rightarrow> string \<Rightarrow> string" where
  "join_path parent child = (if parent = ''/'' then ''/'' @ child else parent @ ''/'' @ child)"

subsection \<open>Aggregating what matches\<close>

definition own_matching ::
    "(string \<Rightarrow> string) \<Rightarrow> process_table \<Rightarrow> filter_query \<Rightarrow> string \<Rightarrow> tree_node \<Rightarrow> node_stats" where
  "own_matching lower procs query path node =
     fold (\<lambda>(pid, st) total.
             if matches_activity lower query path pid (map_of procs pid) then accumulate total st else total)
       (per_process node) default_stats"

function filtered_stats ::
    "(string \<Rightarrow> string) \<Rightarrow> process_table \<Rightarrow> filter_query \<Rightarrow> string \<Rightarrow> tree_node \<Rightarrow> node_stats option" where
  "filtered_stats lower procs query path node =
     (if query_is_empty query then Some (agg_stats node)
      else let total = fold (\<lambda>child total.
                 case filtered_stats lower procs query (join_path path (name (snd child))) (snd child) of
                   Some st \<Rightarrow> accumulate total st
                 | None \<Rightarrow> total) (children node) (own_matching lower procs query path node)
           in if 0 < total_ops total then Some total else None)"
  by pat_completeness auto

lemma size_child: "kc \<in> set (children node) \<Longrightarrow> size (snd kc) < size node"
proof -
  assume a: "kc \<in> set (children node)"
  have "size (snd kc) \<le> size_list (size_prod (\<lambda>_. 0) size) (children node)"
    using a by (rule size_list_estimation') (cases kc; simp)
  also have "\<dots> < size node" by (cases node) simp
  finally show ?thesis .
qed

termination filtered_stats
  by (relation "measure (\<lambda>(_, _, _, _, node). size node)") (auto dest: size_child)

declare filtered_stats.simps [simp del]

function visit_pids ::
    "(string \<Rightarrow> string) \<Rightarrow> process_table \<Rightarrow> filter_query \<Rightarrow> string \<Rightarrow> tree_node \<Rightarrow> u32 set \<Rightarrow> u32 set" where
  "visit_pids lower procs query path node matching =
     fold (\<lambda>child matching.
             visit_pids lower procs query (join_path path (name (snd child))) (snd child) matching)
       (children node)
       (fold (\<lambda>(pid, st) matching.
                if matches_activity lower query path pid (map_of procs pid) then insert pid matching
                else matching) (per_process node) matching)"
  by pat_completeness auto

termination visit_pids
  by (relation "measure (\<lambda>(_, _, _, _, node, _). size node)") (auto dest: size_child)

declare visit_pids.simps [simp del]

definition matching_pids ::
    "(string \<Rightarrow> string) \<Rightarrow> file_tree \<Rightarrow> filter_query \<Rightarrow> process_table \<Rightarrow> u32 set" where
  "matching_pids lower tree query procs =
     (if query_is_empty query then set (map fst procs)
      else visit_pids lower procs query ''/'' (root tree) {})"

subsection \<open>What a filtered aggregate is\<close>

text \<open>The direct activity below a node: path, process and statistics of every entry.\<close>

function entries :: "string \<Rightarrow> tree_node \<Rightarrow> (string \<times> u32 \<times> node_stats) list" where
  "entries path node =
     map (\<lambda>(pid, st). (path, pid, st)) (per_process node)
     @ concat (map (\<lambda>child. entries (join_path path (name (snd child))) (snd child)) (children node))"
  by pat_completeness auto

termination entries
  by (relation "measure (\<lambda>(_, node). size node)") (auto dest: size_child)

declare entries.simps [simp del]

definition entry_matches ::
    "(string \<Rightarrow> string) \<Rightarrow> process_table \<Rightarrow> filter_query \<Rightarrow> string \<times> u32 \<times> node_stats \<Rightarrow> bool" where
  "entry_matches lower procs query e =
     (case e of (path, pid, st) \<Rightarrow> matches_activity lower query path pid (map_of procs pid))"

definition matching_sum ::
    "(string \<Rightarrow> string) \<Rightarrow> process_table \<Rightarrow> filter_query \<Rightarrow> string \<Rightarrow> tree_node \<Rightarrow> node_stats" where
  "matching_sum lower procs query path node =
     sum_list (map (\<lambda>(path, pid, st). st) (filter (entry_matches lower procs query) (entries path node)))"

lemma entries_TreeNode:
  "entries path (TreeNode n d s a ch pp) = map (\<lambda>(pid, st). (path, pid, st)) pp
     @ concat (map (\<lambda>child. entries (join_path path (name (snd child))) (snd child)) ch)"
  by (subst entries.simps) simp

text \<open>Statistics that count no operation are empty; every delta the program records is such.\<close>

definition counted :: "node_stats \<Rightarrow> bool" where
  "counted st \<longleftrightarrow> (total_ops st = 0 \<longrightarrow> st = 0)"

lemma sat_add_eq_0_iff: "sat_add a b = 0 \<longleftrightarrow> a = 0 \<and> b = 0" for a b :: u64
proof -
  have "unat (sat_add a b) = 0 \<longleftrightarrow> unat a = 0 \<and> unat b = 0"
    unfolding unat_sat_add by (auto simp: min_def)
  then show ?thesis by (simp only: unat_eq_zero)
qed

lemma total_ops_add: "total_ops (a + b) = 0 \<longleftrightarrow> total_ops a = 0 \<and> total_ops b = 0"
  by (auto simp: total_ops_def plus_node_stats_ext_def sat_add_eq_0_iff)

lemma counted_add: "counted a \<Longrightarrow> counted b \<Longrightarrow> counted (a + b)"
  by (auto simp: counted_def total_ops_add)

lemma counted_zero [simp]: "counted 0"
  by (simp add: counted_def)

lemma counted_sum: "(\<And>x. x \<in> set xs \<Longrightarrow> counted (f x)) \<Longrightarrow> counted (sum_list (map f xs))"
  by (induction xs) (auto intro: counted_add)

lemma fold_accumulate:
  fixes g :: "'x \<Rightarrow> node_stats"
  assumes "\<And>x t. x \<in> set xs \<Longrightarrow> f x t = t + g x"
  shows "fold f xs t = t + sum_list (map g xs)"
  using assms by (induction xs arbitrary: t) (auto simp: add.assoc)

lemma sum_list_concat: "sum_list (concat xss) = sum_list (map sum_list xss)"
  by (induction xss) auto

lemma sum_list_filter_if:
  fixes g :: "'x \<Rightarrow> 'm::comm_monoid_add"
  shows "sum_list (map g (filter P xs)) = sum_list (map (\<lambda>x. if P x then g x else 0) xs)"
  by (induction xs) auto

lemma matching_sum_unfold:
  "matching_sum lower procs query path node =
     own_matching lower procs query path node +
     sum_list (map (\<lambda>child. matching_sum lower procs query (join_path path (name (snd child))) (snd child))
       (children node))"
proof -
  have own: "own_matching lower procs query path node =
      sum_list (map (\<lambda>(pid, st). if matches_activity lower query path pid (map_of procs pid) then st else 0)
        (per_process node))"
    unfolding own_matching_def
    by (subst fold_accumulate [where g = "\<lambda>(pid, st).
        if matches_activity lower query path pid (map_of procs pid) then st else 0"])
      (auto simp: stats_monoid)
  show ?thesis
    unfolding matching_sum_def own
    by (subst entries.simps)
      (simp add: filter_concat map_concat sum_list_filter_if entry_matches_def comp_def
        case_prod_unfold sum_list_concat cong: if_cong)
qed

lemma entries_child:
  "child \<in> set (children node) \<Longrightarrow> e \<in> set (entries (join_path p (name (snd child))) (snd child)) \<Longrightarrow>
   e \<in> set (entries p node)"
  by (subst entries.simps) auto

lemma counted_matching_sum:
  "(\<forall>(path, pid, st) \<in> set (entries p node). counted st) \<Longrightarrow> counted (matching_sum lower procs query p node)"
  unfolding matching_sum_def by (rule counted_sum) auto

lemma filtered_stats_is_sum:
  assumes "\<not> query_is_empty query" and "\<forall>(path, pid, st) \<in> set (entries p node). counted st"
  shows "filtered_stats lower procs query p node =
    (let s = matching_sum lower procs query p node in if 0 < total_ops s then Some s else None)"
  using assms(2)
proof (induction "size node" arbitrary: p node rule: less_induct)
  case less
  let ?f = "\<lambda>child total. case filtered_stats lower procs query (join_path p (name (snd child))) (snd child) of
      Some st \<Rightarrow> accumulate total st | None \<Rightarrow> total"
  have step: "?f child total =
      total + matching_sum lower procs query (join_path p (name (snd child))) (snd child)"
    if "child \<in> set (children node)" for child total
  proof -
    have ok: "\<forall>(path, pid, st) \<in> set (entries (join_path p (name (snd child))) (snd child)). counted st"
      using less.prems entries_child [OF that] by blast
    have "counted (matching_sum lower procs query (join_path p (name (snd child))) (snd child))"
      by (rule counted_matching_sum [OF ok])
    then show ?thesis
      unfolding less.hyps [OF size_child [OF that] ok]
      by (auto simp: Let_def stats_monoid counted_def word_gt_0)
  qed
  show ?case
    using assms(1) fold_accumulate [of "children node" ?f, OF step]
    by (subst filtered_stats.simps) (simp add: matching_sum_unfold [of _ _ _ p node])
qed

subsection \<open>Filtering a reachable tree\<close>

lemma entries_from_tree:
  "all_nodes node_ok n \<Longrightarrow> (path, pid, st) \<in> set (entries p n) \<Longrightarrow> \<exists>q. process_at n q pid = Some st"
proof (induction "size n" arbitrary: p n rule: less_induct)
  case less
  have ok: "node_ok n" using less.prems(1) all_nodes_unfold by blast
  from less.prems(2) consider "(pid, st) \<in> set (per_process n)"
    | child where "child \<in> set (children n)"
        "(path, pid, st) \<in> set (entries (join_path p (name (snd child))) (snd child))"
    by (subst (asm) entries.simps) auto
  then show ?case
  proof cases
    case 1
    with ok have "process_at n [] pid = Some st" by (simp add: node_ok_def map_of_mem)
    then show ?thesis by blast
  next
    case 2
    obtain k c where kc: "child = (k, c)" by (cases child)
    have mem: "map_of (children n) k = Some c" using 2(1) kc ok by (simp add: node_ok_def map_of_mem)
    then have "all_nodes node_ok c" using less.prems(1) all_nodes_child by blast
    with less.hyps [OF size_child [OF 2(1)]] 2(2) kc obtain q where "process_at c q pid = Some st" by auto
    with mem have "process_at n (k # q) pid = Some st" by (simp add: at_Cons)
    then show ?thesis by blast
  qed
qed

fun op_counted :: "tree_op \<Rightarrow> bool" where
  "op_counted (RecordStats path pid d) = counted d"
| "op_counted _ = True"

lemma spec_run_counted:
  "list_all op_counted ops \<Longrightarrow> (\<forall>q pid st. view_process v q pid = Some st \<longrightarrow> counted st) \<Longrightarrow>
   view_process (spec_run ops v) q pid = Some st \<Longrightarrow> counted st"
proof (induction ops arbitrary: v)
  case (Cons x xs)
  have "\<forall>q pid st. view_process (spec_step x v) q pid = Some st \<longrightarrow> counted st"
    using Cons.prems(1,2) by (cases x) (auto simp: Let_def empty_view_def counted_add split: if_splits option.splits)
  with Cons show ?case by simp
qed simp

lemma tree_entries_counted:
  assumes "list_all op_counted ops" and "get_node (root (tree_run ops new_tree)) q = Some n"
    and "(path, pid, st) \<in> set (entries p n)"
  shows "counted st"
proof -
  let ?t = "tree_run ops new_tree"
  have ok: "all_nodes node_ok (root ?t)" using tree_ok_run [OF tree_ok_new] by (simp add: tree_ok_def)
  have get_app: "get_node n r = get_node m (q @ r)" if "get_node m q = Some n" for r m
    using that by (induction q arbitrary: m) (auto split: option.splits)
  have "all_nodes node_ok n"
    using ok get_app [OF assms(2)] unfolding all_nodes_def by metis
  then obtain r where "process_at n r pid = Some st" using entries_from_tree assms(3) by blast
  then have "process_at (root ?t) (q @ r) pid = Some st"
    using get_app [OF assms(2)] by (simp add: process_at_def)
  then have "view_process (spec_run ops empty_view) (q @ r) pid = Some st"
    using arg_cong [OF abs_run [OF tree_ok_new, of ops], of view_process]
    by (simp add: abs_new) (simp add: abs_tree_def)
  then show ?thesis
    by (rule spec_run_counted [OF assms(1), rotated]) (simp add: empty_view_def)
qed

text \<open>(C31) A filtered aggregate is the sum of exactly the matching direct activity: in every
  tree the program builds, and for a query with at least one term, \<open>filtered_stats\<close> of a node
  is the sum of the per-process statistics, of the node and of everything below it, whose path
  and process match, or \<open>None\<close> when they count no operation; the iteration order of the hash
  tables and the early \<open>None\<close> of a subtree never change the sum.\<close>

theorem filtered_stats_sums_matching:
  assumes "list_all op_counted ops"
    and "get_node (root (tree_run ops new_tree)) q = Some n"
    and "\<not> query_is_empty query"
  shows "filtered_stats lower procs query p n =
    (let s = sum_list (map (\<lambda>(path, pid, st). st)
               (filter (\<lambda>(path, pid, st). matches_activity lower query path pid (map_of procs pid)) (entries p n)))
     in if 0 < total_ops s then Some s else None)"
proof -
  have "\<forall>(path, pid, st) \<in> set (entries p n). counted st"
    using tree_entries_counted [OF assms(1,2)] by blast
  from filtered_stats_is_sum [OF assms(3) this] show ?thesis
    unfolding matching_sum_def by (simp add: entry_matches_def [abs_def])
qed

lemma filtered_stats_sums_matching_witness:
  "let ops = [RecordStats ''/v/a'' 10 (for_operations Read 5 1 1 1),
              RecordStats ''/v/b'' 20 (for_operations Read 7 1 1 1)];
       query = \<lparr>fq_raw = ''pid:20'', fq_terms = [PidTerm 20]\<rparr>
   in \<exists>n. get_node (root (tree_run ops new_tree)) [''v''] = Some n \<and>
        filtered_stats id [] query ''/v'' n = Some (for_operations Read 7 1 1 1)"
proof -
  let ?ops = "[RecordStats ''/v/a'' 10 (for_operations Read 5 1 1 1),
              RecordStats ''/v/b'' 20 (for_operations Read 7 1 1 1)]"
  let ?q = "\<lparr>fq_raw = ''pid:20'', fq_terms = [PidTerm 20]\<rparr>"
  obtain n where n: "get_node (root (tree_run ?ops new_tree)) [''v''] = Some n"
    and ent: "entries ''/v'' n =
      [(''/v/a'', 10, for_operations Read 5 1 1 1), (''/v/b'', 20, for_operations Read 7 1 1 1)]"
    by (simp add: new_tree_def record_stats_def path_components_def index_path_def new_node_def
        record_walk.simps accumulate_def default_stats_def sat_add_def entered_def join_path_def
        entries_TreeNode)
  have "list_all op_counted ?ops"
    by (simp add: counted_def total_ops_def default_stats_def sat_add_def)
  from filtered_stats_sums_matching [OF this n, of ?q id "[]" "''/v''"] ent
  have "filtered_stats id [] ?q ''/v'' n = Some (for_operations Read 7 1 1 1)"
    by (simp add: query_is_empty_def matches_activity_def Let_def total_ops_def default_stats_def sat_add_def)
  with n show ?thesis by (simp add: Let_def del: for_operations.simps tree_run.simps)
qed

subsection \<open>Collecting processes\<close>

lemma fold_collect:
  assumes "\<And>x m. x \<in> set xs \<Longrightarrow> f x m = m \<union> g x"
  shows "fold f xs m = m \<union> (\<Union>x \<in> set xs. g x)"
  using assms by (induction xs arbitrary: m) auto

definition matching_set ::
    "(string \<Rightarrow> string) \<Rightarrow> process_table \<Rightarrow> filter_query \<Rightarrow> (string \<times> u32 \<times> node_stats) list \<Rightarrow> u32 set" where
  "matching_set lower procs query es =
     set (map (\<lambda>(path, pid, st). pid) (filter (entry_matches lower procs query) es))"

lemma matching_set_append:
  "matching_set lower procs query (xs @ ys) = matching_set lower procs query xs \<union> matching_set lower procs query ys"
  "matching_set lower procs query (concat xss) = (\<Union>xs \<in> set xss. matching_set lower procs query xs)"
  by (simp_all add: matching_set_def filter_concat map_concat)

lemma matching_set_own:
  "matching_set lower procs query (map (Pair p) pp) =
     (\<Union>(pid, st) \<in> set pp. if matches_activity lower query p pid (map_of procs pid) then {pid} else {})"
  by (induction pp) (auto simp: matching_set_def entry_matches_def split: if_splits)

lemma visit_pids_eq:
  "visit_pids lower procs query p node m = m \<union> matching_set lower procs query (entries p node)"
proof (induction "size node" arbitrary: p node m rule: less_induct)
  case less
  let ?own = "\<lambda>(pid, st). if matches_activity lower query p pid (map_of procs pid) then {pid} else {}"
  let ?below = "\<lambda>child. matching_set lower procs query (entries (join_path p (name (snd child))) (snd child))"
  have own: "fold (\<lambda>(pid, st) matching. if matches_activity lower query p pid (map_of procs pid)
      then insert pid matching else matching) (per_process node) m =
      m \<union> (\<Union>x \<in> set (per_process node). ?own x)" for m
    by (rule fold_collect) (auto split: if_splits)
  have below: "fold (\<lambda>child matching. visit_pids lower procs query (join_path p (name (snd child))) (snd child) matching)
      (children node) m = m \<union> (\<Union>x \<in> set (children node). ?below x)" for m
    by (rule fold_collect) (rule less.hyps [OF size_child])
  have "matching_set lower procs query (entries p node) =
      (\<Union>x \<in> set (per_process node). ?own x) \<union> (\<Union>x \<in> set (children node). ?below x)"
    by (subst entries.simps) (simp add: matching_set_append matching_set_own)
  then show ?case
    by (subst visit_pids.simps) (simp add: own below Un_assoc)
qed

text \<open>\<open>matching_pids\<close> returns exactly the processes with some matching direct activity
  anywhere in the tree (every known process when the query is empty).\<close>

theorem matching_pids_exact:
  "pid \<in> matching_pids lower tree query procs \<longleftrightarrow>
     (if query_is_empty query then map_of procs pid \<noteq> None
      else (\<exists>path st. (path, pid, st) \<in> set (entries ''/'' (root tree)) \<and>
             matches_activity lower query path pid (map_of procs pid)))"
  by (force simp: matching_pids_def visit_pids_eq matching_set_def entry_matches_def map_of_eq_None_iff)

subsection \<open>Parsing\<close>

text \<open>Splitting at white space distributes over a blank, so queries compose term by term.\<close>

lemma white_space_blank:
  "list_all (\<lambda>w. w \<noteq> [] \<and> (CHR '' '' \<in> set w \<longrightarrow> w = '' '')) white_space"
  "'' '' \<in> set white_space"
  by (simp_all add: white_space_def upt_rec flip: of_char_eq_iff [where 'a = nat])

lemma lead_space_blank: "s \<noteq> [] \<Longrightarrow> lead_space (s @ CHR '' '' # r) = lead_space s"
proof -
  assume s: "s \<noteq> []"
  note w = white_space_blank(1)
  have "starts_with w (s @ CHR '' '' # r) = starts_with w s" if "w \<in> set white_space" for w
  proof
    assume "starts_with w (s @ CHR '' '' # r)"
    then obtain u where u: "s @ CHR '' '' # r = w @ u" by (auto simp: starts_with_iff)
    show "starts_with w s"
    proof (cases "length w \<le> length s")
      case True
      with u show ?thesis
        by (auto simp: starts_with_iff append_eq_append_conv2)
    next
      case False
      with u have "CHR '' '' \<in> set w"
        by (auto simp: append_eq_append_conv2 Cons_eq_append_conv)
      with w that have "w = '' ''" by (auto simp: list_all_iff)
      with False s show ?thesis by (cases s) auto
    qed
  qed (auto simp: starts_with_iff)
  then have "find (\<lambda>w. starts_with w (s @ CHR '' '' # r)) white_space = find (\<lambda>w. starts_with w s) white_space"
    by (intro find_cong) auto
  then show ?thesis by (simp add: lead_space_def)
qed

lemma lead_space_self: "lead_space (CHR '' '' # r) = 1"
proof -
  have blank: "starts_with '' '' (CHR '' '' # r)" by (simp add: starts_with_iff)
  have "w = '' ''" if "w \<in> set white_space" "starts_with w (CHR '' '' # r)" for w
  proof -
    from that white_space_blank(1) have "w \<noteq> []" "CHR '' '' \<in> set w \<longrightarrow> w = '' ''"
      by (auto simp: list_all_iff)
    with that(2) show ?thesis by (auto simp: starts_with_iff Cons_eq_append_conv)
  qed
  then have "\<forall>w. find (\<lambda>w. starts_with w (CHR '' '' # r)) white_space = Some w \<longrightarrow> w = '' ''"
    by (auto simp: find_Some_iff)
  moreover have "find (\<lambda>w. starts_with w (CHR '' '' # r)) white_space \<noteq> None"
    using blank white_space_blank(2) by (auto simp: find_None_iff)
  ultimately show ?thesis by (auto simp: lead_space_def)
qed

lemma lead_space_le: "lead_space s \<le> length s"
  by (auto simp: lead_space_def starts_with_iff split: option.split dest!: find_Some_iff [THEN iffD1])

lemma split_words_blank:
  "split_words cur (a @ CHR '' '' # b) = split_words cur a @ split_words [] b"
proof (induction cur a rule: split_words.induct)
  case (1 cur)
  show ?case by (simp add: lead_space_self)
next
  case (2 cur x xs)
  have lead: "lead_space (x # xs @ CHR '' '' # b) = lead_space (x # xs)"
    using lead_space_blank [of "x # xs" b] by simp
  have "drop (lead_space (x # xs)) (x # xs @ CHR '' '' # b) = drop (lead_space (x # xs)) (x # xs) @ CHR '' '' # b"
    using lead_space_le [of "x # xs"] by (simp add: drop_Cons split: nat.split)
  with 2 lead show ?case by simp
qed

lemma split_whitespace_blank: "split_whitespace (a @ '' '' @ b) = split_whitespace a @ split_whitespace b"
  by (simp add: split_whitespace_def split_words_blank)

lemma parse_terms_append:
  "parse_terms lower (xs @ ys) = (case parse_terms lower xs of
     Inl e \<Rightarrow> Inl e
   | Inr ts \<Rightarrow> (case parse_terms lower ys of Inl e \<Rightarrow> Inl e | Inr us \<Rightarrow> Inr (ts @ us)))"
  by (induction xs) (auto split: sum.split)

lemma parse_query_terms:
  "parse_query lower input = Inr q \<Longrightarrow> parse_terms lower (split_whitespace input) = Inr (fq_terms q)"
  by (auto simp: parse_query_def split: sum.splits)

text \<open>Queries are conjunctions: two queries joined by a blank parse to a query exactly when
  both parse, and an activity matches the joined query exactly when it matches both.\<close>

theorem parse_query_conjunction:
  "case (parse_query lower a, parse_query lower b) of
     (Inr qa, Inr qb) \<Rightarrow>
       (\<exists>q. parse_query lower (a @ '' '' @ b) = Inr q \<and>
          (\<forall>path pid info. matches_activity lower q path pid info =
             (matches_activity lower qa path pid info \<and> matches_activity lower qb path pid info)))
   | (Inl e, _) \<Rightarrow> parse_query lower (a @ '' '' @ b) = Inl e
   | (Inr _, Inl e) \<Rightarrow> parse_query lower (a @ '' '' @ b) = Inl e"
proof -
  have split: "parse_query lower (a @ '' '' @ b) =
      (case parse_terms lower (split_whitespace a @ split_whitespace b) of
         Inl e \<Rightarrow> Inl e | Inr ts \<Rightarrow> Inr \<lparr>fq_raw = trim (a @ '' '' @ b), fq_terms = ts\<rparr>)"
    unfolding parse_query_def split_whitespace_blank ..
  show ?thesis
    unfolding split
    by (auto simp: parse_terms_append parse_query_def matches_activity_def query_is_empty_def Let_def
        split: sum.split)
qed

text \<open>The text \<open>pid:n\<close>, which the process pane applies, parses for every 32-bit \<open>n\<close>.\<close>

lemma parse_pid_query:
  "parse_query lower (''pid:'' @ show_word n) = Inr \<lparr>fq_raw = ''pid:'' @ show_word n, fq_terms = [PidTerm n]\<rparr>"
proof -
  let ?s = "''pid:'' @ show_word n"
  have "digit_value c \<noteq> None \<Longrightarrow> plain_byte c" for c
    by (auto simp: digit_value_def plain_byte_def split: if_splits)
  then have plain: "\<forall>c \<in> set ?s. plain_byte c"
    using show_nat_digits by (auto simp: show_word_def plain_byte_def)
  have "split_once (CHR '':'') ?s = Some (''pid'', show_word n)" by simp
  moreover have "show_word n \<noteq> []" by (simp add: show_word_def)
  moreover have "to_ascii_lowercase ''pid'' = ''pid''" by (simp add: to_ascii_lowercase_def)
  ultimately have "parse_term lower ?s = Inr (PidTerm n)"
    by (simp add: parse_term_def Let_def)
  then show ?thesis
    using plain by (simp add: parse_query_def split_whitespace_plain trim_plain del: append.simps)
qed

lemma pid_query_roundtrip:
  "\<exists>q. parse_query lower (''pid:'' @ show_word n) = Inr q \<and> fq_raw q = ''pid:'' @ show_word n \<and>
     (\<forall>path pid info. matches_activity lower q path pid info \<longleftrightarrow> pid = n)"
  unfolding parse_pid_query by (simp add: matches_activity_def query_is_empty_def)

end
