(* ===== verification/Rates.thy ===== *)
theory Rates
  imports Filters
begin

section \<open>Rolling rates (ncda/src/rate.rs, RateTracker)\<close>

text \<open>
  An \<open>Instant\<close> is an integer count of nanoseconds (Linux's monotonic clock, a signed 64-bit
  second plus nanoseconds), a \<open>Duration\<close> a natural number of nanoseconds. The quotient
  \<open>bytes as f64 / window.as_secs_f64()\<close> is kept as its two operands.

  The shared part comes first: a window of time buckets, whatever a bucket holds. It is the
  locale \<open>bucket_log\<close>, interpreted on the buckets of \<open>RateTracker\<close> here and on those of
  \<open>EventLog\<close> in \<open>Event_Log\<close>.
\<close>

definition MAX_TIME_BUCKETS :: nat where
  "MAX_TIME_BUCKETS = 64"

definition checked_sub :: "int \<Rightarrow> nat \<Rightarrow> int option" where
  "checked_sub now d = (if now - int d < - (2 ^ 63) * 10 ^ 9 then None else Some (now - int d))"

definition checked_duration_since :: "int \<Rightarrow> int \<Rightarrow> nat option" where
  "checked_duration_since now earlier = (if earlier \<le> now then Some (nat (now - earlier)) else None)"

definition bucket_width :: "nat \<Rightarrow> nat" where
  "bucket_width window =
     (if window = 0 then 0
      else let divisor = MAX_TIME_BUCKETS - 1;
               nanos = (window + divisor - 1) div divisor
           in max (min nanos (2 ^ 64 - 1)) 1)"

definition window_cutoff :: "int \<Rightarrow> nat \<Rightarrow> int" where
  "window_cutoff now window = (case checked_sub now window of Some c \<Rightarrow> c | None \<Rightarrow> now)"

definition joins_bucket :: "nat \<Rightarrow> int \<Rightarrow> int \<Rightarrow> bool" where
  "joins_bucket width now started =
     (case checked_duration_since now started of Some elapsed \<Rightarrow> elapsed < width | None \<Rightarrow> False)"

datatype rate = ZeroRate | BytesPer u64 nat

subsection \<open>RateTracker\<close>

record rate_bucket =
  rb_started :: int
  rb_latest :: int
  rb_bytes :: u64

record rate_tracker =
  rt_window :: nat
  rt_width :: nat
  rt_buckets :: "rate_bucket list"
  rt_sum :: u64

definition new_tracker :: "nat \<Rightarrow> rate_tracker" where
  "new_tracker window = \<lparr>rt_window = window, rt_width = bucket_width window, rt_buckets = [], rt_sum = 0\<rparr>"

definition rate_reset :: "rate_tracker \<Rightarrow> rate_tracker" where
  "rate_reset t = t\<lparr>rt_buckets := [], rt_sum := 0\<rparr>"

fun expire_buckets :: "int \<Rightarrow> rate_bucket list \<Rightarrow> u64 \<Rightarrow> rate_bucket list \<times> u64" where
  "expire_buckets cutoff [] s = ([], s)"
| "expire_buckets cutoff (b # bs) s =
     (if rb_latest b < cutoff then expire_buckets cutoff bs (sat_sub s (rb_bytes b)) else (b # bs, s))"

definition expire_rate_buckets :: "int \<Rightarrow> rate_tracker \<Rightarrow> rate_tracker" where
  "expire_rate_buckets now t =
     (let (bs, s) = expire_buckets (window_cutoff now (rt_window t)) (rt_buckets t) (rt_sum t)
      in t\<lparr>rt_buckets := bs, rt_sum := s\<rparr>)"

fun trim_buckets :: "rate_bucket list \<Rightarrow> u64 \<Rightarrow> rate_bucket list \<times> u64" where
  "trim_buckets [] s = ([], s)"
| "trim_buckets (b # bs) s =
     (if length (b # bs) > MAX_TIME_BUCKETS then trim_buckets bs (sat_sub s (rb_bytes b)) else (b # bs, s))"

definition trim_rate_buckets :: "rate_tracker \<Rightarrow> rate_tracker" where
  "trim_rate_buckets t =
     (let (bs, s) = trim_buckets (rt_buckets t) (rt_sum t) in t\<lparr>rt_buckets := bs, rt_sum := s\<rparr>)"

definition rate_record_at :: "int \<Rightarrow> u64 \<Rightarrow> rate_tracker \<Rightarrow> rate_tracker" where
  "rate_record_at now bytes t =
     (let t = expire_rate_buckets now t
      in if rt_window t = 0 \<or> bytes = 0 then t
         else let bs = rt_buckets t;
                  bs = (if bs \<noteq> [] \<and> joins_bucket (rt_width t) now (rb_started (last bs))
                        then butlast bs @ [(last bs)\<lparr>rb_latest := now,
                                             rb_bytes := sat_add (rb_bytes (last bs)) bytes\<rparr>]
                        else bs @ [\<lparr>rb_started = now, rb_latest = now, rb_bytes = bytes\<rparr>])
              in trim_rate_buckets (t\<lparr>rt_buckets := bs, rt_sum := sat_add (rt_sum t) bytes\<rparr>))"

definition rate_bps_at :: "int \<Rightarrow> rate_tracker \<Rightarrow> rate \<times> rate_tracker" where
  "rate_bps_at now t =
     (if rt_window t = 0 then (ZeroRate, t\<lparr>rt_buckets := [], rt_sum := 0\<rparr>)
      else let t = expire_rate_buckets now t in (BytesPer (rt_sum t) (rt_window t), t))"

subsection \<open>Windows of timed events\<close>

text \<open>
  The events of a window, grouped as the buckets group them: a list of nonempty runs of
  \<open>(time, event)\<close> pairs. \<open>seg_step\<close> is what one \<open>record_at\<close> does to the grouping.
\<close>

type_synonym 'e timed = "int \<times> 'e"

definition seg_expire :: "int \<Rightarrow> 'e timed list list \<Rightarrow> 'e timed list list" where
  "seg_expire cutoff segs = dropWhile (\<lambda>seg. fst (last seg) < cutoff) segs"

definition seg_push :: "nat \<Rightarrow> 'e timed \<Rightarrow> 'e timed list list \<Rightarrow> 'e timed list list" where
  "seg_push width x segs =
     (if segs \<noteq> [] \<and> joins_bucket width (fst x) (fst (hd (last segs)))
      then butlast segs @ [last segs @ [x]] else segs @ [[x]])"

definition seg_step :: "nat \<Rightarrow> ('e \<Rightarrow> bool) \<Rightarrow> 'e timed \<Rightarrow> 'e timed list list \<Rightarrow> 'e timed list list" where
  "seg_step window live x segs =
     (let segs = seg_expire (window_cutoff (fst x) window) segs
      in if live (snd x) then seg_push (bucket_width window) x segs else segs)"

definition seg_run :: "nat \<Rightarrow> ('e \<Rightarrow> bool) \<Rightarrow> 'e timed list \<Rightarrow> 'e timed list list" where
  "seg_run window live xs = fold (seg_step window live) xs []"

text \<open>
  \<open>grouped\<close>: the runs are nonempty and shorter than the bucket width, and each starts at least
  a bucket width after the one before. \<open>covers\<close>: they hold all live events but some that the
  window has passed.
\<close>

definition grouped :: "nat \<Rightarrow> 'e timed list list \<Rightarrow> bool" where
  "grouped width segs \<longleftrightarrow>
     (\<forall>seg \<in> set segs. seg \<noteq> [] \<and> (\<forall>x \<in> set seg. fst (hd seg) \<le> fst x \<and> fst x \<le> fst (last seg) \<and>
        fst x < fst (hd seg) + int width)) \<and>
     sorted_wrt (\<lambda>s s'. fst (hd s) + int width \<le> fst (hd s')) segs"

definition covers :: "int \<Rightarrow> 'e timed list \<Rightarrow> 'e timed list list \<Rightarrow> bool" where
  "covers cutoff xs segs \<longleftrightarrow>
     (\<exists>dropped. xs = dropped @ concat segs \<and> (\<forall>x \<in> set dropped. fst x < cutoff))"

lemma grouped_Nil [simp]: "grouped width []"
  by (simp add: grouped_def)

lemma grouped_suffix: "grouped width (as @ bs) \<Longrightarrow> grouped width bs"
  by (auto simp: grouped_def sorted_wrt_append)

lemma grouped_expire: "grouped width segs \<Longrightarrow> grouped width (seg_expire cutoff segs)"
  unfolding seg_expire_def by (metis grouped_suffix takeWhile_dropWhile_id)

lemma grouped_push:
  assumes "grouped width segs" and "0 < width"
    and "\<And>y. y \<in> set (concat segs) \<Longrightarrow> fst y \<le> fst x"
  shows "grouped width (seg_push width x segs)"
proof (cases "segs \<noteq> [] \<and> joins_bucket width (fst x) (fst (hd (last segs)))")
  case True
  then obtain init seg where segs: "segs = init @ [seg]"
    by (metis append_butlast_last_id)
  with assms(1) have seg: "seg \<noteq> []" by (simp add: grouped_def)
  with True segs have join: "fst x < fst (hd seg) + int width" "fst (hd seg) \<le> fst x"
    by (auto simp: joins_bucket_def checked_duration_since_def split: if_splits)
  have "\<forall>y \<in> set seg. fst y \<le> fst x" using assms(3) segs by simp
  with True segs seg join assms(1) show ?thesis
    by (auto simp: grouped_def seg_push_def sorted_wrt_append)
next
  case False
  have later: "fst (hd s) + int width \<le> fst x" if s: "s \<in> set segs" for s
  proof -
    obtain init seg where segs: "segs = init @ [seg]"
      using s by (metis append_butlast_last_id empty_iff empty_set)
    have "seg \<noteq> []" using assms(1) segs by (simp add: grouped_def)
    then have "fst (hd seg) \<le> fst x" using assms(3) [of "hd seg"] segs by simp
    with False segs have last: "fst (hd seg) + int width \<le> fst x"
      by (auto simp: joins_bucket_def checked_duration_since_def split: if_splits)
    show ?thesis
    proof (cases "s = seg")
      case False
      with s segs assms(1) have "fst (hd s) + int width \<le> fst (hd seg)"
        by (auto simp: grouped_def sorted_wrt_append)
      with last \<open>fst (hd seg) \<le> fst x\<close> show ?thesis by linarith
    qed (use last in simp)
  qed
  with False assms(1,2) show ?thesis
    by (auto simp: grouped_def seg_push_def sorted_wrt_append)
qed

lemma concat_push: "segs = [] \<or> last segs \<noteq> [] \<Longrightarrow> concat (seg_push width x segs) = concat segs @ [x]"
  by (cases segs rule: rev_cases) (auto simp: seg_push_def)

lemma covers_mono: "covers c xs segs \<Longrightarrow> c \<le> c' \<Longrightarrow> covers c' xs segs"
  unfolding covers_def by (metis less_le_trans)

lemma covers_expire:
  assumes "covers c xs segs" and "c \<le> c'" and "grouped width segs"
  shows "covers c' xs (seg_expire c' segs)"
proof -
  let ?P = "\<lambda>seg. fst (last seg) < c'"
  obtain dropped where d: "xs = dropped @ concat segs" "\<forall>x \<in> set dropped. fst x < c"
    using assms(1) by (auto simp: covers_def)
  have split: "concat segs = concat (takeWhile ?P segs) @ concat (seg_expire c' segs)"
    unfolding seg_expire_def by (metis concat_append takeWhile_dropWhile_id)
  have "fst x < c'" if "x \<in> set (concat (takeWhile ?P segs))" for x
  proof -
    from that obtain seg where seg: "x \<in> set seg" "seg \<in> set segs" "fst (last seg) < c'"
      by (auto dest: set_takeWhileD)
    with assms(3) have "fst x \<le> fst (last seg)" by (auto simp: grouped_def)
    with seg show ?thesis by linarith
  qed
  moreover have "fst x < c'" if "x \<in> set dropped" for x
    using d(2) that assms(2) by (metis less_le_trans)
  ultimately have "\<forall>x \<in> set (dropped @ concat (takeWhile ?P segs)). fst x < c'"
    unfolding set_append by blast
  moreover have "xs = (dropped @ concat (takeWhile ?P segs)) @ concat (seg_expire c' segs)"
    using d(1) split by (metis append.assoc)
  ultimately show ?thesis unfolding covers_def by blast
qed

lemma covers_push:
  "covers c xs segs \<Longrightarrow> segs = [] \<or> last segs \<noteq> [] \<Longrightarrow> covers c (xs @ [x]) (seg_push width x segs)"
  by (auto simp: covers_def concat_push)

definition window_ok :: "nat \<Rightarrow> bool" where
  "window_ok window \<longleftrightarrow> 0 < window \<and> window \<le> 63 * (2 ^ 64 - 1)"

lemma bucket_width_bounds:
  assumes "window_ok window"
  shows "0 < bucket_width window" and "window \<le> 63 * bucket_width window"
    and "63 * bucket_width window < window + 63"
proof -
  let ?n = "(window + 62) div 63"
  have n: "?n \<le> 2 ^ 64 - 1" "1 \<le> ?n" "window \<le> 63 * ?n" "63 * ?n < window + 63"
    using assms by (auto simp: window_ok_def)
  then have "bucket_width window = ?n"
    using assms by (simp add: bucket_width_def MAX_TIME_BUCKETS_def Let_def window_ok_def)
  with n show "0 < bucket_width window" "window \<le> 63 * bucket_width window"
      "63 * bucket_width window < window + 63"
    by simp_all
qed

lemma window_cutoff_eq: "window_ok window \<Longrightarrow> 0 \<le> now \<Longrightarrow> window_cutoff now window = now - int window"
  by (auto simp: window_cutoff_def checked_sub_def window_ok_def)

definition fresh_from :: "int \<Rightarrow> 'e timed list list \<Rightarrow> bool" where
  "fresh_from c segs \<longleftrightarrow> segs = [] \<or> c \<le> fst (last (hd segs))"

lemma fresh_expire: "fresh_from c (seg_expire c segs)"
proof (cases "seg_expire c segs = []")
  case False
  then have "\<not> fst (last (hd (seg_expire c segs))) < c"
    unfolding seg_expire_def by (rule hd_dropWhile)
  then show ?thesis by (simp add: fresh_from_def)
qed (simp add: fresh_from_def)

lemma fresh_push: "fresh_from c segs \<Longrightarrow> c \<le> fst x \<Longrightarrow> fresh_from c (seg_push width x segs)"
  by (cases segs rule: rev_cases) (auto simp: fresh_from_def seg_push_def hd_append)

lemma grouped_starts:
  "grouped width segs \<Longrightarrow> i < length segs \<Longrightarrow> fst (hd (segs ! 0)) + int i * int width \<le> fst (hd (segs ! i))"
proof (induction i)
  case (Suc i)
  then have "fst (hd (segs ! i)) + int width \<le> fst (hd (segs ! Suc i))"
    by (auto simp: grouped_def sorted_wrt_iff_nth_less)
  with Suc show ?case by (simp add: algebra_simps)
qed simp

text \<open>The bucket limit never drops live data: a window never needs more than 64 buckets.\<close>

lemma grouped_length:
  assumes "grouped (bucket_width window) segs" and "window_ok window"
    and "\<And>y. y \<in> set (concat segs) \<Longrightarrow> fst y \<le> now"
    and "fresh_from (now - int window) segs"
  shows "length segs \<le> MAX_TIME_BUCKETS"
proof (rule ccontr)
  let ?w = "bucket_width window"
  assume "\<not> length segs \<le> MAX_TIME_BUCKETS"
  then have len: "64 < length segs" by (simp add: MAX_TIME_BUCKETS_def)
  have ne: "segs \<noteq> []" using len by auto
  have first: "segs ! 0 \<noteq> []" "segs ! 64 \<noteq> []"
    using assms(1) nth_mem [OF len] nth_mem [of 0 segs] ne by (auto simp: grouped_def)
  have "fst (last (segs ! 0)) < fst (hd (segs ! 0)) + int ?w"
    using assms(1) nth_mem [of 0 segs] ne first last_in_set [OF first(1)] by (auto simp: grouped_def)
  moreover have "fst (hd (segs ! 0)) + 64 * int ?w \<le> fst (hd (segs ! 64))"
    using grouped_starts [OF assms(1) len] by simp
  moreover have "hd (segs ! 64) \<in> set (concat segs)"
    using len first by (auto intro!: bexI [of _ "segs ! 64"])
  then have "fst (hd (segs ! 64)) \<le> now" by (rule assms(3))
  moreover have "now - int window \<le> fst (last (segs ! 0))"
    using assms(4) ne by (simp add: fresh_from_def hd_conv_nth)
  moreover have "int window \<le> 63 * int ?w"
    using bucket_width_bounds(2) [OF assms(2)] by linarith
  ultimately show False by linarith
qed

lemma seg_step_grouped:
  assumes "window_ok window" and "grouped (bucket_width window) segs"
    and "covers (prev - int window) xs segs" and "prev \<le> fst x" and "0 \<le> fst x"
    and "\<And>y. y \<in> set (concat segs) \<Longrightarrow> fst y \<le> fst x"
  shows "grouped (bucket_width window) (seg_step window live x segs)"
    and "covers (fst x - int window) (xs @ (if live (snd x) then [x] else [])) (seg_step window live x segs)"
    and "length (seg_step window live x segs) \<le> MAX_TIME_BUCKETS"
    and "\<And>y. y \<in> set (concat (seg_step window live x segs)) \<Longrightarrow> fst y \<le> fst x"
proof -
  let ?c = "fst x - int window" and ?w = "bucket_width window"
  let ?e = "seg_expire ?c segs"
  have cut: "window_cutoff (fst x) window = ?c" using assms(1,5) by (rule window_cutoff_eq)
  have sub: "set (concat ?e) \<subseteq> set (concat segs)"
    by (auto simp: seg_expire_def dest: set_dropWhileD)
  have ge: "grouped ?w ?e" using assms(2) by (rule grouped_expire)
  have ce: "covers ?c xs ?e" using assms(3) _ assms(2) by (rule covers_expire) (use assms(4) in simp)
  have last: "?e = [] \<or> last ?e \<noteq> []" using ge by (auto simp: grouped_def)
  have gp: "grouped ?w (seg_push ?w x ?e)"
    using ge bucket_width_bounds(1) [OF assms(1)] by (rule grouped_push) (use sub assms(6) in blast)
  have times: "fst y \<le> fst x" if "y \<in> set (concat (seg_push ?w x ?e))" for y
  proof -
    have "y \<in> set (concat ?e) \<or> y = x" using that concat_push [OF last, of ?w x] by auto
    then show ?thesis using sub assms(6) by blast
  qed
  have fr: "fresh_from ?c ?e" "fresh_from ?c (seg_push ?w x ?e)"
    using fresh_push [OF fresh_expire, of ?c x ?w segs] by (simp_all add: fresh_expire)
  have step: "seg_step window live x segs = (if live (snd x) then seg_push ?w x ?e else ?e)"
    by (simp add: seg_step_def Let_def cut)
  show "grouped ?w (seg_step window live x segs)" using ge gp step by simp
  show "covers ?c (xs @ (if live (snd x) then [x] else [])) (seg_step window live x segs)"
    using ce covers_push [OF ce last] step by simp
  show time: "\<And>y. y \<in> set (concat (seg_step window live x segs)) \<Longrightarrow> fst y \<le> fst x"
  proof -
    fix y
    assume "y \<in> set (concat (seg_step window live x segs))"
    then have "y \<in> set (concat (seg_push ?w x ?e)) \<or> y \<in> set (concat ?e)"
      by (auto simp only: step split: if_splits)
    then show "fst y \<le> fst x" using times assms(6) sub by blast
  qed
  show "length (seg_step window live x segs) \<le> MAX_TIME_BUCKETS"
    using \<open>grouped ?w (seg_step window live x segs)\<close> assms(1) time
    by (rule grouped_length) (use fr step in auto)
qed

text \<open>Recording times never decrease and are not before the clock's origin.\<close>

definition monotone_times :: "'e timed list \<Rightarrow> bool" where
  "monotone_times xs \<longleftrightarrow> sorted (map fst xs) \<and> (\<forall>x \<in> set xs. 0 \<le> fst x)"

definition last_time :: "'e timed list \<Rightarrow> int" where
  "last_time xs = (if xs = [] then 0 else fst (last xs))"

lemma monotone_times_snoc:
  "monotone_times (xs @ [x]) \<Longrightarrow> monotone_times xs \<and> last_time xs \<le> fst x \<and> 0 \<le> fst x \<and>
     (\<forall>y \<in> set xs. fst y \<le> fst x)"
  by (auto simp: monotone_times_def sorted_append last_time_def)

lemma seg_run_snoc: "seg_run window live (xs @ [x]) = seg_step window live x (seg_run window live xs)"
  by (simp add: seg_run_def)

lemma covers_set: "covers c xs segs \<Longrightarrow> set (concat segs) \<subseteq> set xs"
  by (auto simp: covers_def)

lemma seg_run_grouped:
  assumes "window_ok window" and "monotone_times xs"
  shows "grouped (bucket_width window) (seg_run window live xs) \<and>
    covers (last_time xs - int window) (filter (live \<circ> snd) xs) (seg_run window live xs) \<and>
    length (seg_run window live xs) \<le> MAX_TIME_BUCKETS"
  using assms(2)
proof (induction xs rule: rev_induct)
  case Nil
  then show ?case by (simp add: seg_run_def covers_def)
next
  case (snoc x xs)
  let ?s = "seg_run window live xs"
  from monotone_times_snoc [OF snoc.prems] have m: "monotone_times xs" "last_time xs \<le> fst x" "0 \<le> fst x"
    and le: "\<forall>y \<in> set xs. fst y \<le> fst x" by auto
  with snoc.IH have IH: "grouped (bucket_width window) ?s"
    "covers (last_time xs - int window) (filter (live \<circ> snd) xs) ?s" by blast+
  have times: "\<And>y. y \<in> set (concat ?s) \<Longrightarrow> fst y \<le> fst x"
    using covers_set [OF IH(2)] le by auto
  show ?case
    using seg_step_grouped [OF assms(1) IH m(2,3) times, where live = live]
    by (auto simp: seg_run_snoc last_time_def comp_def)
qed

text \<open>The weight of what a query at time \<open>now\<close> still sees lies between that of the events of the
  last window and that of the events of the last window and one bucket width.\<close>

lemma window_bounds:
  fixes weight :: "'e timed \<Rightarrow> nat" and live :: "'e \<Rightarrow> bool"
    and xs :: "'e timed list" and now :: int and window :: nat
  assumes "window_ok window" and "monotone_times xs" and "last_time xs \<le> now" and "0 \<le> now"
  defines "seen \<equiv> concat (seg_expire (now - int window) (seg_run window live xs))"
    and "evs \<equiv> filter (live \<circ> snd) xs"
  shows "sum_list (map weight (filter (\<lambda>x. now - int window \<le> fst x) evs)) \<le> sum_list (map weight seen)"
    and "sum_list (map weight seen) \<le>
      sum_list (map weight (filter (\<lambda>x. now - int window - int (bucket_width window) < fst x) evs))"
proof -
  let ?c = "now - int window" and ?w = "bucket_width window"
  let ?e = "seg_expire ?c (seg_run window live xs)"
  from seg_run_grouped [OF assms(1,2), of live]
  have g: "grouped ?w (seg_run window live xs)"
    and c: "covers (last_time xs - int window) evs (seg_run window live xs)"
    by (simp_all add: evs_def)
  have "covers ?c evs ?e" using c _ g by (rule covers_expire) (use assms(3) in simp)
  then obtain dropped where d: "evs = dropped @ seen" "\<forall>x \<in> set dropped. fst x < ?c"
    by (auto simp: covers_def seen_def)
  have "filter (\<lambda>x. ?c \<le> fst x) evs = filter (\<lambda>x. ?c \<le> fst x) seen"
    using d by (auto simp: filter_empty_conv)
  moreover have "sum_list (map weight (filter P ys)) \<le> sum_list (map weight ys)" for P ys
    by (induction ys) auto
  ultimately show "sum_list (map weight (filter (\<lambda>x. ?c \<le> fst x) evs)) \<le> sum_list (map weight seen)"
    by simp
  have late: "?c - int ?w < fst x" if x: "x \<in> set seen" for x
  proof -
    obtain seg where seg: "seg \<in> set ?e" "x \<in> set seg" using x by (auto simp: seen_def)
    have ge: "grouped ?w ?e" using g by (rule grouped_expire)
    obtain s0 rest where e: "?e = s0 # rest" using seg by (cases ?e) auto
    have "?c \<le> fst (last s0)" using fresh_expire [of ?c "seg_run window live xs"] e
      by (simp add: fresh_from_def)
    moreover have "fst (last s0) < fst (hd s0) + int ?w"
      using ge e by (auto simp: grouped_def)
    moreover have "fst (hd s0) \<le> fst (hd seg)"
      using ge e seg by (auto simp: grouped_def)
    moreover have "fst (hd seg) \<le> fst x" using ge seg by (auto simp: grouped_def)
    ultimately show ?thesis by linarith
  qed
  have "sum_list (map weight seen) = sum_list (map weight (filter (\<lambda>x. ?c - int ?w < fst x) seen))"
    using late by (simp add: filter_True)
  also have "\<dots> \<le> sum_list (map weight (filter (\<lambda>x. ?c - int ?w < fst x) evs))"
    using d(1) by simp
  finally show "sum_list (map weight seen) \<le>
      sum_list (map weight (filter (\<lambda>x. ?c - int ?w < fst x) evs))" .
qed

subsection \<open>The contract of a bucket\<close>

text \<open>
  What both trackers promise of their buckets: one opened at \<open>now\<close> starts and ends there, and
  adding an event moves only its end. Then the list of buckets is the image of the grouping.
\<close>

locale bucket_log =
  fixes started :: "'b \<Rightarrow> int" and latest :: "'b \<Rightarrow> int"
    and fresh :: "int \<Rightarrow> 'e \<Rightarrow> 'b" and extend :: "int \<Rightarrow> 'e \<Rightarrow> 'b \<Rightarrow> 'b"
  assumes started_fresh: "started (fresh now e) = now"
    and latest_fresh: "latest (fresh now e) = now"
    and started_extend: "started (extend now e b) = started b"
    and latest_extend: "latest (extend now e b) = now"
begin

definition bucket_of :: "'e timed list \<Rightarrow> 'b" where
  "bucket_of seg = fold (\<lambda>x. extend (fst x) (snd x)) (tl seg) (fresh (fst (hd seg)) (snd (hd seg)))"

definition push_bucket :: "nat \<Rightarrow> int \<Rightarrow> 'e \<Rightarrow> 'b list \<Rightarrow> 'b list" where
  "push_bucket width now e bs =
     (if bs \<noteq> [] \<and> joins_bucket width now (started (last bs))
      then butlast bs @ [extend now e (last bs)] else bs @ [fresh now e])"

lemma bucket_of_single: "bucket_of [x] = fresh (fst x) (snd x)"
  by (simp add: bucket_of_def)

lemma bucket_of_snoc: "seg \<noteq> [] \<Longrightarrow> bucket_of (seg @ [x]) = extend (fst x) (snd x) (bucket_of seg)"
  by (simp add: bucket_of_def)

lemma started_bucket_of: "seg \<noteq> [] \<Longrightarrow> started (bucket_of seg) = fst (hd seg)"
  by (induction seg rule: rev_nonempty_induct)
    (simp_all add: bucket_of_single bucket_of_snoc started_fresh started_extend)

lemma latest_bucket_of: "seg \<noteq> [] \<Longrightarrow> latest (bucket_of seg) = fst (last seg)"
  by (cases seg rule: rev_cases; cases "butlast seg = []")
    (simp_all add: bucket_of_single bucket_of_snoc latest_fresh latest_extend)

lemma expire_bucket_of:
  "\<forall>seg \<in> set segs. seg \<noteq> [] \<Longrightarrow>
   dropWhile (\<lambda>b. latest b < cutoff) (map bucket_of segs) = map bucket_of (seg_expire cutoff segs)"
  by (induction segs) (auto simp: seg_expire_def latest_bucket_of)

lemma push_bucket_of:
  "\<forall>seg \<in> set segs. seg \<noteq> [] \<Longrightarrow>
   push_bucket width now e (map bucket_of segs) = map bucket_of (seg_push width (now, e) segs)"
  by (cases segs rule: rev_cases)
    (simp_all add: push_bucket_def seg_push_def started_bucket_of bucket_of_snoc bucket_of_single)

end

interpretation rate_log: bucket_log rb_started rb_latest
  "\<lambda>now bytes. \<lparr>rb_started = now, rb_latest = now, rb_bytes = bytes\<rparr>"
  "\<lambda>now bytes b. b\<lparr>rb_latest := now, rb_bytes := sat_add (rb_bytes b) bytes\<rparr>"
  by unfold_locales simp_all

subsection \<open>The running sum\<close>

definition bucket_total :: "rate_bucket list \<Rightarrow> nat" where
  "bucket_total bs = sum_list (map (unat \<circ> rb_bytes) bs)"

lemma bucket_total_simps [simp]:
  "bucket_total [] = 0" "bucket_total (b # bs) = unat (rb_bytes b) + bucket_total bs"
  "bucket_total (as @ bs) = bucket_total as + bucket_total bs"
  by (simp_all add: bucket_total_def)

text \<open>The invariant: \<open>window_sum\<close> is the sum over the buckets, of which there are at most 64.\<close>

definition tracker_ok :: "nat \<Rightarrow> rate_tracker \<Rightarrow> bool" where
  "tracker_ok bound t \<longleftrightarrow> unat (rt_sum t) = bucket_total (rt_buckets t) \<and>
     bucket_total (rt_buckets t) \<le> bound \<and> length (rt_buckets t) \<le> MAX_TIME_BUCKETS"

lemma expire_buckets_eq:
  "fst (expire_buckets cutoff bs s) = dropWhile (\<lambda>b. rb_latest b < cutoff) bs"
  by (induction cutoff bs s rule: expire_buckets.induct) simp_all

lemma expire_buckets_sum:
  "unat s = bucket_total bs \<Longrightarrow>
   unat (snd (expire_buckets cutoff bs s)) = bucket_total (fst (expire_buckets cutoff bs s))"
  by (induction cutoff bs s rule: expire_buckets.induct) (auto simp: unat_sat_sub)

lemma bucket_total_dropWhile: "bucket_total (dropWhile P bs) \<le> bucket_total bs"
  by (induction bs) auto

lemma trim_buckets_eq:
  "fst (trim_buckets bs s) = drop (length bs - MAX_TIME_BUCKETS) bs"
  by (induction bs s rule: trim_buckets.induct) (auto simp: Suc_diff_le)

lemma trim_buckets_sum:
  "unat s = bucket_total bs \<Longrightarrow>
   unat (snd (trim_buckets bs s)) = bucket_total (fst (trim_buckets bs s))"
  by (induction bs s rule: trim_buckets.induct) (auto simp: unat_sat_sub)

lemma bucket_total_drop: "bucket_total (drop n bs) \<le> bucket_total bs"
  by (induction bs arbitrary: n) (auto simp: drop_Cons' intro: trans_le_add2)

lemma expire_rate_buckets_fields:
  "rt_buckets (expire_rate_buckets now t) =
     dropWhile (\<lambda>b. rb_latest b < window_cutoff now (rt_window t)) (rt_buckets t)"
  "rt_window (expire_rate_buckets now t) = rt_window t"
  "rt_width (expire_rate_buckets now t) = rt_width t"
  by (simp_all add: expire_rate_buckets_def case_prod_unfold expire_buckets_eq)

lemma tracker_ok_expire: "tracker_ok bound t \<Longrightarrow> tracker_ok bound (expire_rate_buckets now t)"
  using bucket_total_dropWhile length_dropWhile_le expire_buckets_sum
  by (fastforce simp: tracker_ok_def expire_rate_buckets_def case_prod_unfold expire_buckets_eq
      intro: order_trans)

definition pushed :: "int \<Rightarrow> u64 \<Rightarrow> rate_tracker \<Rightarrow> rate_bucket list" where
  "pushed now bytes t = rate_log.push_bucket (rt_width t) now bytes (rt_buckets t)"

lemma rate_record_at_eq:
  "rate_record_at now bytes t =
     (let t = expire_rate_buckets now t
      in if rt_window t = 0 \<or> bytes = 0 then t
         else trim_rate_buckets (t\<lparr>rt_buckets := pushed now bytes t, rt_sum := sat_add (rt_sum t) bytes\<rparr>))"
  by (simp add: rate_record_at_def Let_def pushed_def rate_log.push_bucket_def)

lemma bucket_total_pushed:
  assumes "bucket_total (rt_buckets t) + unat bytes < 2 ^ 64"
  shows "bucket_total (pushed now bytes t) = bucket_total (rt_buckets t) + unat bytes"
  using assms
  by (cases "rt_buckets t" rule: rev_cases)
    (auto simp: pushed_def rate_log.push_bucket_def unat_sat_add)

lemma trim_rate_fields:
  "rt_buckets (trim_rate_buckets t) = drop (length (rt_buckets t) - MAX_TIME_BUCKETS) (rt_buckets t)"
  "rt_window (trim_rate_buckets t) = rt_window t" "rt_width (trim_rate_buckets t) = rt_width t"
  by (simp_all add: trim_rate_buckets_def case_prod_unfold trim_buckets_eq)

lemma tracker_ok_record:
  assumes "tracker_ok bound t" and "bound + unat bytes < 2 ^ 64"
  shows "tracker_ok (bound + unat bytes) (rate_record_at now bytes t)"
proof -
  let ?e = "expire_rate_buckets now t"
  have e: "tracker_ok bound ?e" using assms(1) by (rule tracker_ok_expire)
  have total: "bucket_total (pushed now bytes ?e) = bucket_total (rt_buckets ?e) + unat bytes"
    by (rule bucket_total_pushed) (use e assms(2) in \<open>simp add: tracker_ok_def\<close>)
  have sum: "unat (sat_add (rt_sum ?e) bytes) = bucket_total (pushed now bytes ?e)"
    using e assms(2) total by (simp add: tracker_ok_def unat_sat_add)
  let ?p = "?e\<lparr>rt_buckets := pushed now bytes ?e, rt_sum := sat_add (rt_sum ?e) bytes\<rparr>"
  have "tracker_ok (bound + unat bytes) (trim_rate_buckets ?p)"
    using e sum total trim_buckets_sum [OF sum]
      bucket_total_drop [of "length (pushed now bytes ?e) - MAX_TIME_BUCKETS" "pushed now bytes ?e"]
    by (simp add: tracker_ok_def trim_rate_buckets_def case_prod_unfold trim_buckets_eq)
  with e show ?thesis
    by (auto simp: rate_record_at_eq Let_def tracker_ok_def)
qed

datatype rate_op = RateRecord int u64 | RateQuery int | RateReset

fun rate_step :: "rate_op \<Rightarrow> rate_tracker \<Rightarrow> rate_tracker" where
  "rate_step (RateRecord now bytes) t = rate_record_at now bytes t"
| "rate_step (RateQuery now) t = snd (rate_bps_at now t)"
| "rate_step RateReset t = rate_reset t"

fun recorded_bytes :: "rate_op \<Rightarrow> nat" where
  "recorded_bytes (RateRecord now bytes) = unat bytes"
| "recorded_bytes _ = 0"

lemma tracker_ok_step:
  "tracker_ok bound t \<Longrightarrow> bound + recorded_bytes x < 2 ^ 64 \<Longrightarrow>
   tracker_ok (bound + recorded_bytes x) (rate_step x t)"
  by (cases x)
    (auto simp: rate_bps_at_def Let_def rate_reset_def tracker_ok_expire intro: tracker_ok_record,
     simp_all add: tracker_ok_def)

lemma tracker_ok_run:
  "tracker_ok bound t \<Longrightarrow> bound + sum_list (map recorded_bytes ops) < 2 ^ 64 \<Longrightarrow>
   tracker_ok (bound + sum_list (map recorded_bytes ops)) (fold rate_step ops t)"
  using tracker_ok_step
  by (induction ops arbitrary: t bound) (fastforce simp: add.assoc [symmetric])+

lemma tracker_ok_new: "tracker_ok 0 (new_tracker window)"
  by (simp add: tracker_ok_def new_tracker_def)

text \<open>The running sum is exact and storage is bounded: after any sequence of records,
  queries and resets, at any times (the clock need not be monotone), that records fewer than
  \<open>2 ^ 64\<close> bytes in total, \<open>window_sum\<close> is the sum of the buckets' bytes and there are at most
  64 buckets.\<close>

theorem rate_sum_exact:
  assumes "sum_list (map recorded_bytes ops) < 2 ^ 64"
  shows "let t = fold rate_step ops (new_tracker window) in
    unat (rt_sum t) = sum_list (map (unat \<circ> rb_bytes) (rt_buckets t)) \<and> length (rt_buckets t) \<le> 64"
  using tracker_ok_run [OF tracker_ok_new, of ops window] assms
  by (simp add: Let_def tracker_ok_def bucket_total_def MAX_TIME_BUCKETS_def)

lemma rate_sum_exact_witness:
  "sum_list (map recorded_bytes [RateRecord 5 100, RateQuery 7, RateRecord 6 30, RateRecord 2000000000 8]) < 2 ^ 64 \<and>
   (let t = fold rate_step [RateRecord 5 100, RateQuery 7, RateRecord 6 30, RateRecord 2000000000 8]
              (new_tracker 1000000000)
    in unat (rt_sum t) = sum_list (map (unat \<circ> rb_bytes) (rt_buckets t)) \<and> length (rt_buckets t) \<le> 64)"
  using rate_sum_exact [of "[RateRecord 5 100, RateQuery 7, RateRecord 6 30, RateRecord 2000000000 8]" 1000000000]
  by (simp del: fold_simps fold.simps)

subsection \<open>Accuracy\<close>

definition event_bytes :: "u64 timed \<Rightarrow> nat" where
  "event_bytes x = unat (snd x)"

definition rate_run :: "nat \<Rightarrow> u64 timed list \<Rightarrow> rate_tracker" where
  "rate_run window xs = fold (\<lambda>(now, bytes). rate_record_at now bytes) xs (new_tracker window)"

lemma rate_window_fields:
  "rt_window (rate_record_at now bytes t) = rt_window t" "rt_width (rate_record_at now bytes t) = rt_width t"
  by (simp_all add: rate_record_at_eq Let_def trim_rate_fields expire_rate_buckets_fields)

lemma rate_run_window: "rt_window (rate_run window xs) = window" "rt_width (rate_run window xs) = bucket_width window"
  by (induction xs rule: rev_induct) (auto simp: rate_run_def rate_window_fields new_tracker_def)

lemma rate_run_buckets:
  assumes "window_ok window" and "monotone_times xs"
  shows "rt_buckets (rate_run window xs) = map rate_log.bucket_of (seg_run window (\<lambda>b. b \<noteq> 0) xs)"
  using assms(2)
proof (induction xs rule: rev_induct)
  case Nil
  then show ?case by (simp add: rate_run_def seg_run_def new_tracker_def)
next
  case (snoc x xs)
  obtain now bytes where x: "x = (now, bytes)" by (cases x)
  let ?s = "seg_run window (\<lambda>b. b \<noteq> 0) xs" and ?t = "rate_run window xs"
  let ?e = "seg_expire (window_cutoff now window) ?s"
  from monotone_times_snoc [OF snoc.prems] have m: "monotone_times xs" by simp
  have ne: "\<forall>seg \<in> set ?s. seg \<noteq> []"
    using seg_run_grouped [OF assms(1) m, of "\<lambda>b. b \<noteq> 0"] by (auto simp: grouped_def)
  then have nee: "\<forall>seg \<in> set ?e. seg \<noteq> []" by (auto simp: seg_expire_def dest: set_dropWhileD)
  have e: "rt_buckets (expire_rate_buckets now ?t) = map rate_log.bucket_of ?e"
    using rate_log.expire_bucket_of [OF ne] snoc.IH [OF m]
    by (simp add: expire_rate_buckets_fields rate_run_window)
  have len: "length (seg_run window (\<lambda>b. b \<noteq> 0) (xs @ [x])) \<le> MAX_TIME_BUCKETS"
    using seg_run_grouped [OF assms(1) snoc.prems] by blast
  have "rate_run window (xs @ [x]) = rate_record_at now bytes ?t"
    by (simp add: rate_run_def x)
  moreover have "seg_run window (\<lambda>b. b \<noteq> 0) (xs @ [x]) =
      (if bytes = 0 then ?e else seg_push (bucket_width window) (now, bytes) ?e)"
    by (simp add: seg_run_snoc seg_step_def x Let_def)
  moreover have "0 < window" using assms(1) by (simp add: window_ok_def)
  ultimately show ?case
    using len rate_log.push_bucket_of [OF nee, of "bucket_width window" now bytes] e
    by (cases "bytes = 0")
      (simp_all add: rate_record_at_eq Let_def trim_rate_fields pushed_def expire_rate_buckets_fields
        rate_run_window)
qed

lemma bucket_of_bytes:
  "seg \<noteq> [] \<Longrightarrow> sum_list (map event_bytes seg) < 2 ^ 64 \<Longrightarrow>
   unat (rb_bytes (rate_log.bucket_of seg)) = sum_list (map event_bytes seg)"
  by (induction seg rule: rev_nonempty_induct)
    (simp_all add: rate_log.bucket_of_single rate_log.bucket_of_snoc event_bytes_def unat_sat_add)

lemma bucket_total_of:
  "\<forall>seg \<in> set segs. seg \<noteq> [] \<Longrightarrow> sum_list (map event_bytes (concat segs)) < 2 ^ 64 \<Longrightarrow>
   bucket_total (map rate_log.bucket_of segs) = sum_list (map event_bytes (concat segs))"
  by (induction segs) (auto simp: bucket_of_bytes)

lemma sum_list_filter_le: "sum_list (map f (filter P xs)) \<le> sum_list (map f xs)" for f :: "'x \<Rightarrow> nat"
  by (induction xs) auto

lemma seg_run_weight:
  fixes f :: "'e timed \<Rightarrow> nat"
  assumes "window_ok window" and "monotone_times xs"
  shows "sum_list (map f (concat (seg_run window live xs))) \<le> sum_list (map f xs)"
proof -
  obtain dropped where "filter (live \<circ> snd) xs = dropped @ concat (seg_run window live xs)"
    using seg_run_grouped [OF assms, of live] by (auto simp: covers_def)
  then have "sum_list (map f (filter (live \<circ> snd) xs)) =
      sum_list (map f dropped) + sum_list (map f (concat (seg_run window live xs)))" by simp
  with sum_list_filter_le [of f "live \<circ> snd" xs] show ?thesis by linarith
qed

lemma seg_expire_weight:
  fixes f :: "'e timed \<Rightarrow> nat"
  shows "sum_list (map f (concat (seg_expire c segs))) \<le> sum_list (map f (concat segs))"
proof -
  have "concat segs = concat (takeWhile (\<lambda>seg. fst (last seg) < c) segs) @ concat (seg_expire c segs)"
    unfolding seg_expire_def by (metis concat_append takeWhile_dropWhile_id)
  then show ?thesis by simp
qed

lemma rate_run_as_ops: "rate_run window xs = fold rate_step (map (\<lambda>(t, b). RateRecord t b) xs) (new_tracker window)"
proof -
  have "fold (\<lambda>(now, bytes). rate_record_at now bytes) xs t =
      fold rate_step (map (\<lambda>(t, b). RateRecord t b) xs) t" for t
    by (induction xs arbitrary: t) auto
  then show ?thesis by (simp add: rate_run_def)
qed

lemma rate_query_sum:
  assumes "window_ok window" and "monotone_times xs" and "0 \<le> now"
    and "sum_list (map event_bytes xs) < 2 ^ 64"
  shows "\<exists>total. fst (rate_bps_at now (rate_run window xs)) = BytesPer total window \<and>
    unat total = sum_list (map event_bytes
      (concat (seg_expire (now - int window) (seg_run window (\<lambda>b. b \<noteq> 0) xs))))"
proof -
  let ?t = "rate_run window xs" and ?segs = "seg_run window (\<lambda>b. b \<noteq> 0) xs"
  let ?e = "seg_expire (now - int window) ?segs"
  have rec: "map (recorded_bytes \<circ> (\<lambda>(t, b). RateRecord t b)) xs = map event_bytes xs"
    by (auto simp: event_bytes_def)
  have "tracker_ok (sum_list (map event_bytes xs)) ?t"
    using tracker_ok_run [OF tracker_ok_new, of "map (\<lambda>(t, b). RateRecord t b) xs" window] assms(4)
    by (simp add: rate_run_as_ops rec)
  then have ok: "tracker_ok (sum_list (map event_bytes xs)) (expire_rate_buckets now ?t)"
    by (rule tracker_ok_expire)
  have ne: "\<forall>seg \<in> set ?segs. seg \<noteq> []"
    using seg_run_grouped [OF assms(1,2), of "\<lambda>b. b \<noteq> 0"] by (auto simp: grouped_def)
  have nee: "\<forall>seg \<in> set ?e. seg \<noteq> []"
    using ne by (auto simp: seg_expire_def dest: set_dropWhileD)
  have "rt_buckets (expire_rate_buckets now ?t) = map rate_log.bucket_of ?e"
    using rate_log.expire_bucket_of [OF ne]
    by (simp add: expire_rate_buckets_fields rate_run_window rate_run_buckets [OF assms(1,2)]
        window_cutoff_eq [OF assms(1,3)])
  moreover have "sum_list (map event_bytes (concat ?e)) < 2 ^ 64"
    using seg_expire_weight [of event_bytes "now - int window" ?segs]
      seg_run_weight [OF assms(1,2), of event_bytes "\<lambda>b. b \<noteq> 0"] assms(4) by linarith
  ultimately have "unat (rt_sum (expire_rate_buckets now ?t)) = sum_list (map event_bytes (concat ?e))"
    using ok bucket_total_of [OF nee] by (simp add: tracker_ok_def)
  moreover have "0 < window" using assms(1) by (simp add: window_ok_def)
  ultimately show ?thesis
    by (simp add: rate_bps_at_def rate_run_window Let_def expire_rate_buckets_fields)
qed

text \<open>(C13) The rolling rate is accurate to one bucket: when records come in clock order and
  total fewer than \<open>2 ^ 64\<close> bytes, a query at any later time divides, by the window, a byte
  count that includes every event of the last window and none older than the window plus one
  bucket width (a sixty-third of the window, rounded up to a nanosecond). In particular the
  64-bucket limit never discards live data.\<close>

theorem rate_window_accurate:
  assumes "0 < window" and "window \<le> 63 * (2 ^ 64 - 1)"
    and "monotone_times xs" and "last_time xs \<le> now" and "0 \<le> now"
    and "sum_list (map event_bytes xs) < 2 ^ 64"
  shows "\<exists>total. fst (rate_bps_at now (rate_run window xs)) = BytesPer total window \<and>
    sum_list (map event_bytes (filter (\<lambda>x. now - int window \<le> fst x) xs)) \<le> unat total \<and>
    unat total \<le> sum_list (map event_bytes
      (filter (\<lambda>x. now - int window - int ((window + 62) div 63) < fst x) xs))"
proof -
  have ok: "window_ok window" using assms(1,2) by (simp add: window_ok_def)
  have width: "bucket_width window = (window + 62) div 63"
    using bucket_width_bounds [OF ok] by linarith
  have zero: "sum_list (map event_bytes (filter P (filter ((\<lambda>b. b \<noteq> 0) \<circ> snd) xs))) =
      sum_list (map event_bytes (filter P xs))" for P
    by (induction xs) (auto simp: event_bytes_def)
  from rate_query_sum [OF ok assms(3,5,6)] obtain total where
    total: "fst (rate_bps_at now (rate_run window xs)) = BytesPer total window"
    "unat total = sum_list (map event_bytes
      (concat (seg_expire (now - int window) (seg_run window (\<lambda>b. b \<noteq> 0) xs))))" by blast
  note bounds = window_bounds [OF ok assms(3,4,5), of event_bytes "\<lambda>b. b \<noteq> 0", unfolded zero width]
  show ?thesis
    by (rule exI [of _ total]) (use total bounds in \<open>simp only: simp_thms\<close>)
qed

lemma rate_window_accurate_witness:
  "\<exists>total. fst (rate_bps_at 1500000000
      (rate_run 1000000000 [(100000000, 7), (900000000, 100), (1200000000, 30)])) = BytesPer total 1000000000 \<and>
    130 \<le> unat total \<and> unat total \<le> 130"
  using rate_window_accurate [of 1000000000 "[(100000000, 7), (900000000, 100), (1200000000, 30)]" 1500000000]
  by (simp add: monotone_times_def last_time_def event_bytes_def)

end
