(* ===== verification/Event_Log.thy ===== *)
theory Event_Log
  imports Rates
begin

section \<open>Per-path activity (ncda/src/rate.rs, EventLog)\<close>

text \<open>
  \<open>EventLog\<close> with its preaggregated window, its prefix index and its interned paths. An
  \<open>Arc<str>\<close> is its text, which is also how it compares and hashes. The two tables the code
  iterates (a bucket's activities, the window's activities) are association lists.
\<close>

type_synonym activity = "string \<times> u32"

record event_bucket =
  eb_started :: int
  eb_latest :: int
  eb_activities :: "(activity \<times> u64) list"

record event_log =
  el_window :: nat
  el_width :: nat
  el_buckets :: "event_bucket list"
  el_activities :: "(activity \<times> u64) list"
  el_prefix_totals :: "string \<rightharpoonup> u64"
  el_interned :: "string \<rightharpoonup> string"
  el_pid_counts :: "string \<rightharpoonup> nat"

definition new_event_log :: "nat \<Rightarrow> event_log" where
  "new_event_log window =
     \<lparr>el_window = window, el_width = bucket_width window, el_buckets = [], el_activities = [],
      el_prefix_totals = Map.empty, el_interned = Map.empty, el_pid_counts = Map.empty\<rparr>"

definition event_log_reset :: "event_log \<Rightarrow> event_log" where
  "event_log_reset s =
     s\<lparr>el_buckets := [], el_activities := [], el_prefix_totals := Map.empty,
       el_interned := Map.empty, el_pid_counts := Map.empty\<rparr>"

text \<open>\<open>for_each_path_prefix\<close>: the prefixes in the order they are visited.\<close>

definition visited_prefixes :: "string \<Rightarrow> string list" where
  "visited_prefixes path =
     (if path = ''/'' then [path]
      else ''/'' # map (\<lambda>i. take i path) (filter (\<lambda>i. path ! i = CHR ''/'') [1 ..< length path]) @ [path])"

definition path_matches_prefix :: "string \<Rightarrow> string \<Rightarrow> bool" where
  "path_matches_prefix path pfx \<longleftrightarrow>
     pfx = ''/'' \<or> path = pfx \<or>
     (case strip_prefix pfx path of Some sfx \<Rightarrow> starts_with ''/'' sfx | None \<Rightarrow> False)"

definition adjust_total :: "u64 \<Rightarrow> bool \<Rightarrow> string \<Rightarrow> (string \<rightharpoonup> u64) \<Rightarrow> (string \<rightharpoonup> u64)" where
  "adjust_total bytes add pfx totals =
     (if add then
        (case totals pfx of
           Some tot \<Rightarrow> totals(pfx \<mapsto> sat_add tot bytes)
         | None \<Rightarrow> totals(pfx \<mapsto> bytes))
      else
        (case totals pfx of
           Some tot \<Rightarrow> (let tot = sat_sub tot bytes
                          in if tot = 0 then totals(pfx := None) else totals(pfx \<mapsto> tot))
         | None \<Rightarrow> totals))"

definition adjust_prefix_totals :: "string \<Rightarrow> u64 \<Rightarrow> bool \<Rightarrow> (string \<rightharpoonup> u64) \<Rightarrow> (string \<rightharpoonup> u64)" where
  "adjust_prefix_totals path bytes add totals = fold (adjust_total bytes add) (visited_prefixes path) totals"

definition remove_activity :: "activity \<times> u64 \<Rightarrow> event_log \<Rightarrow> event_log" where
  "remove_activity kb s =
     (let (key, bytes) = kb; path = fst key;
          s = (case map_of (el_activities s) key of
                 Some v \<Rightarrow>
                   if v > bytes then s\<lparr>el_activities := AList.update key (v - bytes) (el_activities s)\<rparr>
                   else let s = s\<lparr>el_activities := AList.delete key (el_activities s)\<rparr>
                        in (case el_pid_counts s path of
                              Some refs \<Rightarrow>
                                if refs - 1 = 0
                                then s\<lparr>el_pid_counts := (el_pid_counts s)(path := None),
                                       el_interned := (el_interned s)(path := None)\<rparr>
                                else s\<lparr>el_pid_counts := (el_pid_counts s)(path \<mapsto> refs - 1)\<rparr>
                            | None \<Rightarrow> s)
               | None \<Rightarrow> s)
      in s\<lparr>el_prefix_totals := adjust_prefix_totals path bytes False (el_prefix_totals s)\<rparr>)"

definition remove_bucket :: "event_bucket \<Rightarrow> event_log \<Rightarrow> event_log" where
  "remove_bucket b s = fold remove_activity (eb_activities b) s"

text \<open>\<open>pop_front\<close> followed by \<open>remove_bucket\<close>, while the oldest bucket has expired.\<close>

fun expire_events :: "int \<Rightarrow> event_bucket list \<Rightarrow> event_log \<Rightarrow> event_log" where
  "expire_events cutoff [] s = s\<lparr>el_buckets := []\<rparr>"
| "expire_events cutoff (b # bs) s =
     (if eb_latest b < cutoff then expire_events cutoff bs (remove_bucket b (s\<lparr>el_buckets := bs\<rparr>))
      else s\<lparr>el_buckets := b # bs\<rparr>)"

definition expire_event_buckets :: "int \<Rightarrow> event_log \<Rightarrow> event_log" where
  "expire_event_buckets now s = expire_events (window_cutoff now (el_window s)) (el_buckets s) s"

fun trim_events :: "event_bucket list \<Rightarrow> event_log \<Rightarrow> event_log" where
  "trim_events [] s = s\<lparr>el_buckets := []\<rparr>"
| "trim_events (b # bs) s =
     (if length (b # bs) > MAX_TIME_BUCKETS then trim_events bs (remove_bucket b (s\<lparr>el_buckets := bs\<rparr>))
      else s\<lparr>el_buckets := b # bs\<rparr>)"

definition trim_event_buckets :: "event_log \<Rightarrow> event_log" where
  "trim_event_buckets s = trim_events (el_buckets s) s"

definition intern_path :: "string \<Rightarrow> event_log \<Rightarrow> string \<times> event_log" where
  "intern_path path s =
     (case el_interned s path of
        Some p \<Rightarrow> (p, s)
      | None \<Rightarrow> (path, s\<lparr>el_interned := (el_interned s)(path \<mapsto> path)\<rparr>))"

definition add_activity :: "activity \<Rightarrow> u64 \<Rightarrow> event_log \<Rightarrow> event_log" where
  "add_activity key bytes s =
     (let s = (case map_of (el_activities s) key of
                 Some v \<Rightarrow> s\<lparr>el_activities := AList.update key (sat_add v bytes) (el_activities s)\<rparr>
               | None \<Rightarrow>
                   let refs = (case el_pid_counts s (fst key) of None \<Rightarrow> 0 | Some c \<Rightarrow> c)
                   in s\<lparr>el_pid_counts := (el_pid_counts s)(fst key \<mapsto> usize_sat_add refs 1),
                        el_activities := AList.update key bytes (el_activities s)\<rparr>)
      in s\<lparr>el_prefix_totals := adjust_prefix_totals (fst key) bytes True (el_prefix_totals s)\<rparr>)"

definition event_record_at :: "int \<Rightarrow> string \<Rightarrow> u32 \<Rightarrow> u64 \<Rightarrow> event_log \<Rightarrow> event_log" where
  "event_record_at now path pid bytes s =
     (let s = expire_event_buckets now s
      in if el_window s = 0 \<or> bytes = 0 then s
         else let (interned_path, s) = intern_path path s;
                  key = (interned_path, pid);
                  s = add_activity key bytes s;
                  bs = el_buckets s;
                  bs = (if bs \<noteq> [] \<and> joins_bucket (el_width s) now (eb_started (last bs))
                        then butlast bs @ [(last bs)\<lparr>eb_latest := now,
                               eb_activities := alter 0 (\<lambda>tot. sat_add tot bytes) key
                                                  (eb_activities (last bs))\<rparr>]
                        else bs @ [\<lparr>eb_started = now, eb_latest = now, eb_activities = [(key, bytes)]\<rparr>])
              in trim_event_buckets (s\<lparr>el_buckets := bs\<rparr>))"

definition rate_for_prefix_at ::
    "(string \<Rightarrow> string) \<Rightarrow> int \<Rightarrow> string \<Rightarrow> filter_query \<Rightarrow> process_table \<Rightarrow> event_log \<Rightarrow> rate \<times> event_log" where
  "rate_for_prefix_at lower now pfx query procs s =
     (if el_window s = 0 then (ZeroRate, event_log_reset s)
      else let s = expire_event_buckets now s;
               tot = (if query_is_empty query
                        then (case el_prefix_totals s pfx of None \<Rightarrow> 0 | Some t \<Rightarrow> t)
                        else sum_list (map snd (filter (\<lambda>((path, pid), bytes).
                                 path_matches_prefix path pfx \<and>
                                 matches_activity lower query path pid (map_of procs pid)) (el_activities s))))
           in (BytesPer tot (el_window s), s))"

subsection \<open>Prefixes\<close>

text \<open>A path that does not begin with two slashes, as every normalised path.\<close>

definition single_root :: "string \<Rightarrow> bool" where
  "single_root path \<longleftrightarrow> take 2 path \<noteq> ''//''"

lemma visited_iff_matches:
  "p \<noteq> [] \<Longrightarrow> p \<in> set (visited_prefixes path) \<longleftrightarrow> path_matches_prefix path p"
proof -
  assume p: "p \<noteq> []"
  have "(\<exists>i \<in> {1 ..< length path}. path ! i = CHR ''/'' \<and> p = take i path) \<longleftrightarrow>
      (\<exists>r. path = p @ CHR ''/'' # r)"
  proof
    assume "\<exists>i \<in> {1 ..< length path}. path ! i = CHR ''/'' \<and> p = take i path"
    then obtain i where "i < length path" "path ! i = CHR ''/''" "p = take i path" by auto
    then have "path = p @ CHR ''/'' # drop (Suc i) path"
      by (metis id_take_nth_drop)
    then show "\<exists>r. path = p @ CHR ''/'' # r" by blast
  next
    assume "\<exists>r. path = p @ CHR ''/'' # r"
    then obtain r where "path = p @ CHR ''/'' # r" by blast
    with p show "\<exists>i \<in> {1 ..< length path}. path ! i = CHR ''/'' \<and> p = take i path"
      by (intro bexI [of _ "length p"]) (auto simp: Suc_le_eq)
  qed
  moreover have "(case strip_prefix p path of Some sfx \<Rightarrow> starts_with ''/'' sfx | None \<Rightarrow> False) \<longleftrightarrow>
      (\<exists>r. path = p @ CHR ''/'' # r)"
    by (cases "strip_prefix p path") (auto simp: starts_with_iff)
  moreover have "''/'' = p @ CHR ''/'' # r \<longleftrightarrow> False" for r
    using p by (cases p) auto
  ultimately show ?thesis
    by (cases "path = ''/''") (auto simp: visited_prefixes_def path_matches_prefix_def image_iff)
qed

lemma distinct_visited: "single_root path \<Longrightarrow> distinct (visited_prefixes path)"
proof (cases "path = ''/''")
  case False
  assume "single_root path"
  let ?is = "filter (\<lambda>i. path ! i = CHR ''/'') [1 ..< length path]"
  have inj: "inj_on (\<lambda>i. take i path) (set ?is)"
    by (rule inj_on_inverseI [where g = length]) simp
  have len: "length (take i path) = i" "i < length path" if "i \<in> set ?is" for i
    using that by simp_all
  then have "path \<noteq> take i path" if "i \<in> set ?is" for i
    using that by (metis less_irrefl)
  moreover have "''/'' \<noteq> take i path" if "i \<in> set ?is" for i
  proof
    assume "''/'' = take i path"
    with len(1) [OF that] have i: "i = 1" by (metis One_nat_def length_Cons list.size(3))
    with that \<open>''/'' = take i path\<close> have "take 2 path = ''//''"
      by (cases path; cases "tl path") auto
    with \<open>single_root path\<close> show False by (simp add: single_root_def)
  qed
  ultimately show ?thesis
    using False inj by (auto simp: visited_prefixes_def distinct_map)
qed (simp add: visited_prefixes_def)

subsection \<open>The ledger\<close>

text \<open>
  The multiset \<open>M\<close> holds each activity once per byte. \<open>ledger_ok M s\<close> says that the window's
  tables are exactly what \<open>M\<close> determines: bytes per activity, active processes per path, interned
  paths, and the totals of the prefix index.
\<close>

definition positive :: "nat \<Rightarrow> nat option" where
  "positive n = (if n = 0 then None else Some n)"

definition under :: "string \<Rightarrow> activity multiset \<Rightarrow> activity multiset" where
  "under q M = filter_mset (\<lambda>k. q \<in> set (visited_prefixes (fst k))) M"

definition pids_on :: "string \<Rightarrow> activity multiset \<Rightarrow> u32 set" where
  "pids_on p M = {pid. (p, pid) \<in># M}"

definition ledger_ok :: "activity multiset \<Rightarrow> event_log \<Rightarrow> bool" where
  "ledger_ok M s \<longleftrightarrow> size M < 2 ^ 64 \<and> (\<forall>k \<in># M. single_root (fst k)) \<and> distinct_keys (el_activities s) \<and>
     map_of (el_activities s) = (\<lambda>k. map_option of_nat (positive (count M k))) \<and>
     el_pid_counts s = (\<lambda>p. positive (card (pids_on p M))) \<and>
     el_interned s = (\<lambda>p. if pids_on p M = {} then None else Some p) \<and>
     el_prefix_totals s = (\<lambda>q. map_option of_nat (positive (size (under q M))))"

lemma ledger_okD:
  assumes "ledger_ok M s"
  shows "size M < 2 ^ 64" and "k \<in># M \<Longrightarrow> single_root (fst k)" and "distinct_keys (el_activities s)"
    and "map_of (el_activities s) k = map_option of_nat (positive (count M k))"
    and "el_pid_counts s p = positive (card (pids_on p M))"
    and "el_interned s p = (if pids_on p M = {} then None else Some p)"
    and "el_prefix_totals s q = map_option of_nat (positive (size (under q M)))"
  using assms by (simp_all add: ledger_ok_def)

lemma positive_simps [simp]: "positive 0 = None" "0 < n \<Longrightarrow> positive n = Some n"
  by (simp_all add: positive_def)

lemma unat_small: "a < 2 ^ 64 \<Longrightarrow> unat (of_nat a :: u64) = a"
  by (simp add: unat_of_nat)

lemma unat_small_diff: "b \<le> a \<Longrightarrow> a < 2 ^ 64 \<Longrightarrow> unat (of_nat (a - b) :: u64) = a - b"
  by (rule unat_small) simp

lemma sat_add_of_nat: "a + b < 2 ^ 64 \<Longrightarrow> sat_add (of_nat a :: u64) (of_nat b) = of_nat (a + b)"
  by (subst sat_add_exact) (simp_all add: unat_of_nat)

lemma sat_sub_of_nat: "b \<le> a \<Longrightarrow> a < 2 ^ 64 \<Longrightarrow> sat_sub (of_nat a :: u64) (of_nat b) = of_nat (a - b)"
  by (rule word_unat_eq_iff [THEN iffD2]) (simp only: unat_sat_sub unat_small unat_small_diff le_less_trans)

lemma of_nat_eq_0_u64: "a < 2 ^ 64 \<Longrightarrow> (of_nat a :: u64) = 0 \<longleftrightarrow> a = 0"
  using unat_small [of a] by (auto simp: unat_eq_zero)

lemma adjust_add:
  "distinct ps \<Longrightarrow> fold (adjust_total b True) ps totals q =
     (if q \<in> set ps then Some (case totals q of Some t \<Rightarrow> sat_add t b | None \<Rightarrow> b) else totals q)"
  by (induction ps arbitrary: totals) (auto simp: adjust_total_def split: option.split)

lemma adjust_remove:
  "distinct ps \<Longrightarrow> fold (adjust_total b False) ps totals q =
     (if q \<in> set ps
      then (case totals q of Some t \<Rightarrow> if sat_sub t b = 0 then None else Some (sat_sub t b) | None \<Rightarrow> None)
      else totals q)"
  by (induction ps arbitrary: totals) (auto simp: adjust_total_def Let_def split: option.split)

lemma under_add: "under q (M + N) = under q M + under q N"
  by (simp add: under_def)

lemma under_replicate:
  "under q (replicate_mset n k) = (if q \<in> set (visited_prefixes (fst k)) then replicate_mset n k else {#})"
  by (induction n) (auto simp: under_def)

lemma under_diff: "under q (M - N) = under q M - under q N"
  by (simp add: under_def)

lemma size_under_le: "size (under q M) \<le> size M"
  by (simp add: under_def size_filter_mset_lesseq)

lemma pids_on_add:
  "0 < n \<Longrightarrow> pids_on p (M + replicate_mset n (path, pid)) = (if p = path then insert pid (pids_on p M) else pids_on p M)"
  by (auto simp: pids_on_def)

lemma pids_on_diff:
  "pids_on p (M - replicate_mset n (path, pid)) =
     (if p = path \<and> count M (path, pid) \<le> n then pids_on p M - {pid} else pids_on p M)"
  by (auto simp: pids_on_def count_greater_zero_iff [symmetric] simp del: count_greater_zero_iff)

lemma intern_path_fields:
  assumes "ledger_ok M s"
  shows "fst (intern_path path s) = path"
    and "el_interned (snd (intern_path path s)) = (el_interned s)(path \<mapsto> path)"
    and "el_activities (snd (intern_path path s)) = el_activities s"
    and "el_pid_counts (snd (intern_path path s)) = el_pid_counts s"
    and "el_prefix_totals (snd (intern_path path s)) = el_prefix_totals s"
    and "el_buckets (snd (intern_path path s)) = el_buckets s"
    and "el_window (snd (intern_path path s)) = el_window s"
    and "el_width (snd (intern_path path s)) = el_width s"
  using ledger_okD(6) [OF assms, of path]
  by (auto simp: intern_path_def fun_upd_idem split: option.split if_splits)

lemma card_pids: "card (pids_on p M) \<le> 2 ^ 32"
  using card_mono [of UNIV "pids_on p M"] by (simp add: card_word)

lemma ledger_add:
  assumes ok: "ledger_ok M s" and b: "bytes \<noteq> 0" and size: "size M + unat bytes < 2 ^ 64"
    and root: "single_root path"
  shows "ledger_ok (M + replicate_mset (unat bytes) (path, pid))
    (add_activity (path, pid) bytes (snd (intern_path path s)))" (is "ledger_ok ?M ?s")
proof -
  let ?k = "(path, pid)" and ?n = "unat bytes"
  note D = ledger_okD [OF ok]
  have n: "0 < ?n" "(of_nat ?n :: u64) = bytes" using b by (simp_all add: unat_gt_0)
  have cnt: "count M ?k \<le> size M" by (rule count_le_size)
  have acts: "map_of (el_activities ?s) = (\<lambda>k. map_option of_nat (positive (count ?M k)))"
    using n size cnt sat_add_of_nat [of "count M ?k" ?n]
    by (cases "count M ?k = 0")
      (auto simp: add_activity_def Let_def intern_path_fields [OF ok] D(4) alist_simps fun_eq_iff)
  moreover have "distinct_keys (el_activities ?s)"
    using D(3) by (auto simp: add_activity_def Let_def intern_path_fields [OF ok] split: option.split)
  moreover have "el_interned ?s = (\<lambda>p. if pids_on p ?M = {} then None else Some p)"
    using n by (auto simp: add_activity_def Let_def intern_path_fields [OF ok] D(6) pids_on_add fun_eq_iff
        split: option.split)
  moreover have "el_pid_counts ?s = (\<lambda>p. positive (card (pids_on p ?M)))"
  proof (cases "?k \<in># M")
    case True
    then have "pids_on p ?M = pids_on p M" for p using n by (auto simp: pids_on_add) (simp_all add: pids_on_def)
    with True show ?thesis
      by (auto simp: add_activity_def Let_def intern_path_fields [OF ok] D(4,5) fun_eq_iff
          count_greater_zero_iff [symmetric] simp del: count_greater_zero_iff)
  next
    case False
    then have "pid \<notin> pids_on path M" by (simp add: pids_on_def)
    moreover have "usize_sat_add (case positive (card (pids_on path M)) of None \<Rightarrow> 0 | Some c \<Rightarrow> c) 1 =
        card (pids_on path M) + 1"
      using card_pids [of path M] by (auto simp: positive_def usize_sat_add_def usize_max_def)
    ultimately show ?thesis
      using False n
      by (auto simp: add_activity_def Let_def intern_path_fields [OF ok] D(4,5) fun_eq_iff pids_on_add
          not_in_iff)
  qed
  moreover have "el_prefix_totals ?s = (\<lambda>q. map_option of_nat (positive (size (under q ?M))))"
  proof
    fix q
    have totals: "el_prefix_totals ?s q = fold (adjust_total bytes True) (visited_prefixes path) (el_prefix_totals s) q"
      by (simp add: add_activity_def Let_def intern_path_fields [OF ok] adjust_prefix_totals_def split: option.split)
    have "size (under q M) + ?n < 2 ^ 64" using size size_under_le [of q M] by linarith
    then show "el_prefix_totals ?s q = map_option of_nat (positive (size (under q ?M)))"
      unfolding totals adjust_add [OF distinct_visited [OF root]]
      using n sat_add_of_nat [of "size (under q M)" ?n]
      by (cases "size (under q M) = 0") (auto simp: D(7) under_add under_replicate positive_def)
  qed
  ultimately show ?thesis
    using D(1,2) size root by (auto simp: ledger_ok_def split: if_splits)
qed

lemma ledger_remove:
  assumes ok: "ledger_ok M s" and le: "unat bytes \<le> count M (path, pid)" and b: "bytes \<noteq> 0"
  shows "ledger_ok (M - replicate_mset (unat bytes) (path, pid)) (remove_activity ((path, pid), bytes) s)"
    (is "ledger_ok ?M ?s")
proof -
  let ?k = "(path, pid)" and ?n = "unat bytes" and ?c = "count M (path, pid)"
  note D = ledger_okD [OF ok]
  have n: "0 < ?n" "(of_nat ?n :: u64) = bytes" using b by (simp_all add: unat_gt_0)
  have mem: "?k \<in># M" using n le by (metis count_greater_zero_iff less_le_trans)
  have c: "?c < 2 ^ 64" using D(1) count_le_size [of M ?k] by linarith
  have act: "map_of (el_activities s) ?k = Some (of_nat ?c)" using D(4) n le by (simp add: positive_def)
  have gt: "of_nat ?c > bytes \<longleftrightarrow> ?n < ?c" using unat_small [OF c] by (simp add: word_less_nat_alt)
  have less: "(of_nat ?c :: u64) - bytes = of_nat (?c - ?n)" using le n by (simp add: of_nat_diff)
  have pid: "pid \<in> pids_on path M" using mem by (simp add: pids_on_def)
  then have refs: "el_pid_counts s path = Some (card (pids_on path M))"
    by (auto simp: D(5) positive_def)
  have card: "card (pids_on path M - {pid}) = card (pids_on path M) - 1" using pid by simp
  have left: "pids_on path M - {pid} = {} \<longleftrightarrow> card (pids_on path M) - 1 = 0"
    by (metis card card_0_eq finite)
  have s: "?s = (if ?n < ?c
      then s\<lparr>el_activities := AList.update ?k (of_nat ?c - bytes) (el_activities s),
             el_prefix_totals := adjust_prefix_totals path bytes False (el_prefix_totals s)\<rparr>
      else s\<lparr>el_activities := AList.delete ?k (el_activities s),
             el_pid_counts := (el_pid_counts s)(path := positive (card (pids_on path M - {pid}))),
             el_interned := (if pids_on path M - {pid} = {} then (el_interned s)(path := None) else el_interned s),
             el_prefix_totals := adjust_prefix_totals path bytes False (el_prefix_totals s)\<rparr>)"
  proof (cases "?n < ?c")
    case True
    then show ?thesis by (simp add: remove_activity_def Let_def act gt)
  next
    case False
    have "positive (card (pids_on path M - {pid})) =
        (if card (pids_on path M) - 1 = 0 then None else Some (card (pids_on path M) - 1))"
      by (simp only: card positive_def)
    moreover have "pids_on path M \<subseteq> {pid} \<longleftrightarrow> card (pids_on path M) \<le> Suc 0"
      using left by simp
    ultimately show ?thesis
      using False by (simp add: remove_activity_def Let_def act gt refs)
  qed
  have "distinct_keys (el_activities ?s)" using D(3) unfolding s by auto
  moreover have "map_of (el_activities ?s) = (\<lambda>k. map_option of_nat (positive (count ?M k)))"
    using le unfolding s less by (auto simp: alist_simps D(4) fun_eq_iff positive_def)
  moreover have "el_pid_counts ?s = (\<lambda>p. positive (card (pids_on p ?M)))"
    using le unfolding s by (auto simp: D(5) pids_on_diff fun_eq_iff)
  moreover have "el_interned ?s = (\<lambda>p. if pids_on p ?M = {} then None else Some p)"
    using le pid unfolding s by (auto simp: D(6) pids_on_diff fun_eq_iff)
  moreover have "el_prefix_totals ?s = (\<lambda>q. map_option of_nat (positive (size (under q ?M))))"
  proof
    fix q
    have totals: "el_prefix_totals ?s q = fold (adjust_total bytes False) (visited_prefixes path) (el_prefix_totals s) q"
      unfolding s by (simp add: adjust_prefix_totals_def)
    have sub: "replicate_mset ?n ?k \<subseteq># M" using le by (simp add: count_le_replicate_mset_subset_eq)
    have size: "size (under q M) < 2 ^ 64" using size_under_le [of q M] D(1) by linarith
    show "el_prefix_totals ?s q = map_option of_nat (positive (size (under q ?M)))"
    proof (cases "q \<in> set (visited_prefixes path)")
      case True
      have u: "replicate_mset ?n ?k \<subseteq># under q M"
        using le True by (simp add: under_def flip: count_le_replicate_mset_subset_eq)
      then have le_u: "?n \<le> size (under q M)" using size_mset_mono by force
      have sz: "size (under q ?M) = size (under q M) - ?n"
        using True u by (simp add: under_diff under_replicate size_Diff_submset)
      show ?thesis
        unfolding totals adjust_remove [OF distinct_visited [OF D(2) [OF mem], simplified]]
        using True sat_sub_of_nat [OF le_u size] n le_u of_nat_eq_0_u64 [of "size (under q M) - ?n"] size
        by (auto simp: D(7) sz positive_def)
    next
      case False
      then show ?thesis
        unfolding totals adjust_remove [OF distinct_visited [OF D(2) [OF mem], simplified]]
        by (simp add: D(7) under_diff under_replicate)
    qed
  qed
  moreover have "size ?M < 2 ^ 64" using D(1) size_mset_mono [of ?M M] by (simp add: less_le_trans)
  ultimately show ?thesis
    using D(2) by (auto simp: ledger_ok_def dest: in_diffD)
qed

lemma ledger_remove_zero: "ledger_ok M s \<Longrightarrow> ledger_ok M (remove_activity (k, 0) s)"
proof -
  assume ok: "ledger_ok M s"
  note D = ledger_okD [OF ok]
  have nz: "(of_nat n :: u64) \<noteq> 0" if "0 < n" "n < 2 ^ 64" for n
    using of_nat_eq_0_u64 that by auto
  have cnt: "count M k < 2 ^ 64" using D(1) count_le_size [of M k] by linarith
  have acts: "(case map_of (el_activities s) k of Some v \<Rightarrow> v > 0 | None \<Rightarrow> True)"
    using nz cnt by (auto simp: D(4) positive_def word_gt_0)
  have tot: "fold (adjust_total 0 False) ps (el_prefix_totals s) = el_prefix_totals s" for ps
  proof -
    have "adjust_total 0 False q (el_prefix_totals s) = el_prefix_totals s" for q
    proof -
      have "size (under q M) < 2 ^ 64" using size_under_le [of q M] D(1) by linarith
      then show ?thesis
        using nz by (auto simp: adjust_total_def D(7) positive_def Let_def sat_sub_def intro!: fun_upd_idem)
    qed
    then show ?thesis by (induction ps) auto
  qed
  have "map_of (el_activities (remove_activity (k, 0) s)) = map_of (el_activities s)"
    using acts by (auto simp: remove_activity_def Let_def alist_simps adjust_prefix_totals_def tot fun_upd_idem
        split: option.split)
  moreover have "distinct_keys (el_activities (remove_activity (k, 0) s))"
    using acts D(3) by (auto simp: remove_activity_def Let_def split: option.split)
  moreover have "el_pid_counts (remove_activity (k, 0) s) = el_pid_counts s"
    "el_interned (remove_activity (k, 0) s) = el_interned s"
    "el_prefix_totals (remove_activity (k, 0) s) = el_prefix_totals s"
    using acts by (auto simp: remove_activity_def Let_def adjust_prefix_totals_def tot split: option.split)
  ultimately show ?thesis using ok by (simp add: ledger_ok_def)
qed

subsection \<open>Buckets\<close>

definition bucket_mset :: "(activity \<times> u64) list \<Rightarrow> activity multiset" where
  "bucket_mset al = sum_list (map (\<lambda>(k, v). replicate_mset (unat v) k) al)"

definition logged :: "event_bucket list \<Rightarrow> activity multiset" where
  "logged bs = sum_list (map (bucket_mset \<circ> eb_activities) bs)"

lemma bucket_mset_simps [simp]:
  "bucket_mset [] = {#}" "bucket_mset ((k, v) # al) = replicate_mset (unat v) k + bucket_mset al"
  by (simp_all add: bucket_mset_def)

lemma logged_simps [simp]:
  "logged [] = {#}" "logged (b # bs) = bucket_mset (eb_activities b) + logged bs"
  "logged (as @ bs) = logged as + logged bs"
  by (simp_all add: logged_def)

lemma bucket_mset_alter:
  assumes "distinct_keys al" and "size (bucket_mset al) + unat bytes < 2 ^ 64"
  shows "bucket_mset (alter 0 (\<lambda>t. sat_add t bytes) key al) = bucket_mset al + replicate_mset (unat bytes) key"
proof (cases "map_of al key")
  case None
  then show ?thesis
    using assms by (simp add: alter_def bucket_mset_def sum_list_update delete_absent)
next
  case (Some v)
  let ?g = "\<lambda>(k, v :: u64). replicate_mset (unat v) k"
  have split: "bucket_mset al = replicate_mset (unat v) key + sum_list (map ?g (AList.delete key al))"
    using sum_list_split [OF assms(1) Some, of ?g] by (simp add: bucket_mset_def)
  with assms(2) have "unat v + unat bytes < 2 ^ 64" by simp
  then have "unat (sat_add v bytes) = unat v + unat bytes" by (simp add: unat_sat_add)
  moreover have "replicate_mset (unat v + unat bytes) key = replicate_mset (unat v) key + replicate_mset (unat bytes) key"
    by (rule multiset_eqI) simp
  ultimately show ?thesis
    using Some assms(1) split by (simp add: alter_def bucket_mset_def sum_list_update)
qed

lemma remove_activity_fields [simp]:
  "el_buckets (remove_activity kb s) = el_buckets s" "el_window (remove_activity kb s) = el_window s"
  "el_width (remove_activity kb s) = el_width s"
  by (cases kb; simp add: remove_activity_def Let_def split: option.split)+

lemma remove_bucket_fields [simp]:
  "el_buckets (remove_bucket b s) = el_buckets s" "el_window (remove_bucket b s) = el_window s"
  "el_width (remove_bucket b s) = el_width s"
proof -
  have "el_buckets (fold remove_activity al s) = el_buckets s \<and>
      el_window (fold remove_activity al s) = el_window s \<and> el_width (fold remove_activity al s) = el_width s" for al
    by (induction al arbitrary: s) auto
  then show "el_buckets (remove_bucket b s) = el_buckets s" "el_window (remove_bucket b s) = el_window s"
    "el_width (remove_bucket b s) = el_width s" by (auto simp: remove_bucket_def)
qed

lemma ledger_remove_list:
  "ledger_ok (bucket_mset al + N) s \<Longrightarrow> ledger_ok N (fold remove_activity al s)"
proof (induction al arbitrary: s)
  case (Cons kb al)
  obtain p pid v where kb: "kb = ((p, pid), v)" by (metis prod.collapse)
  have "ledger_ok (bucket_mset al + N) (remove_activity kb s)"
  proof (cases "v = 0")
    case True
    then show ?thesis using ledger_remove_zero [of "bucket_mset al + N"] Cons.prems kb by simp
  next
    case False
    have le: "unat v \<le> count (bucket_mset (kb # al) + N) (p, pid)" by (simp add: kb)
    show ?thesis using ledger_remove [OF Cons.prems le False] by (simp add: kb)
  qed
  with Cons.IH show ?case by simp
qed simp

lemma ledger_remove_bucket:
  "ledger_ok (bucket_mset (eb_activities b) + N) s \<Longrightarrow> ledger_ok N (remove_bucket b s)"
  by (simp add: remove_bucket_def ledger_remove_list)

lemma ledger_ok_buckets [simp]: "ledger_ok M (s\<lparr>el_buckets := bs\<rparr>) = ledger_ok M s"
  by (simp add: ledger_ok_def)

lemma expire_events_ok:
  "el_buckets (expire_events cutoff bs s) = dropWhile (\<lambda>b. eb_latest b < cutoff) bs \<and>
   el_window (expire_events cutoff bs s) = el_window s \<and> el_width (expire_events cutoff bs s) = el_width s \<and>
   (ledger_ok (logged bs) s \<longrightarrow>
    ledger_ok (logged (dropWhile (\<lambda>b. eb_latest b < cutoff) bs)) (expire_events cutoff bs s))"
  by (induction cutoff bs s rule: expire_events.induct) (auto simp: ledger_remove_bucket)

lemma trim_events_ok:
  "el_buckets (trim_events bs s) = drop (length bs - MAX_TIME_BUCKETS) bs \<and>
   el_window (trim_events bs s) = el_window s \<and> el_width (trim_events bs s) = el_width s \<and>
   (ledger_ok (logged bs) s \<longrightarrow> ledger_ok (logged (drop (length bs - MAX_TIME_BUCKETS) bs)) (trim_events bs s))"
  by (induction bs s rule: trim_events.induct) (auto simp: ledger_remove_bucket Suc_diff_le)

interpretation event_windows: bucket_log eb_started eb_latest
  "\<lambda>now e. \<lparr>eb_started = now, eb_latest = now, eb_activities = [e]\<rparr>"
  "\<lambda>now e b. b\<lparr>eb_latest := now,
     eb_activities := alter 0 (\<lambda>tot. sat_add tot (snd e)) (fst e) (eb_activities b)\<rparr>"
  by unfold_locales simp_all

subsection \<open>The log invariant\<close>

definition event_log_ok :: "nat \<Rightarrow> event_log \<Rightarrow> bool" where
  "event_log_ok bound s \<longleftrightarrow> ledger_ok (logged (el_buckets s)) s \<and>
     (\<forall>b \<in> set (el_buckets s). distinct_keys (eb_activities b)) \<and>
     size (logged (el_buckets s)) \<le> bound \<and> length (el_buckets s) \<le> MAX_TIME_BUCKETS"

definition pushed_events :: "int \<Rightarrow> activity \<Rightarrow> u64 \<Rightarrow> event_log \<Rightarrow> event_bucket list" where
  "pushed_events now key bytes s = event_windows.push_bucket (el_width s) now (key, bytes) (el_buckets s)"

lemma pushed_events_eq:
  "pushed_events now key bytes s =
     (let bs = el_buckets s
      in if bs \<noteq> [] \<and> joins_bucket (el_width s) now (eb_started (last bs))
         then butlast bs @ [(last bs)\<lparr>eb_latest := now,
           eb_activities := alter 0 (\<lambda>tot. sat_add tot bytes) key (eb_activities (last bs))\<rparr>]
         else bs @ [\<lparr>eb_started = now, eb_latest = now, eb_activities = [(key, bytes)]\<rparr>])"
  by (simp add: event_windows.push_bucket_def pushed_events_def Let_def)

lemma logged_pushed:
  assumes "\<forall>b \<in> set (el_buckets s). distinct_keys (eb_activities b)"
    and "size (logged (el_buckets s)) + unat bytes < 2 ^ 64"
  shows "logged (pushed_events now key bytes s) = logged (el_buckets s) + replicate_mset (unat bytes) key"
    and "\<forall>b \<in> set (pushed_events now key bytes s). distinct_keys (eb_activities b)"
proof -
  show "logged (pushed_events now key bytes s) = logged (el_buckets s) + replicate_mset (unat bytes) key"
    using assms
    by (cases "el_buckets s" rule: rev_cases) (auto simp: pushed_events_eq Let_def bucket_mset_alter)
  show "\<forall>b \<in> set (pushed_events now key bytes s). distinct_keys (eb_activities b)"
    using assms(1)
    by (cases "el_buckets s" rule: rev_cases)
      (auto simp: pushed_events_eq Let_def distinct_keys_def [of "[x]" for x])
qed

lemma event_record_at_eq:
  "event_record_at now path pid bytes s =
     (let s = expire_event_buckets now s
      in if el_window s = 0 \<or> bytes = 0 then s
         else let a = add_activity (fst (intern_path path s), pid) bytes (snd (intern_path path s))
              in trim_event_buckets (a\<lparr>el_buckets := pushed_events now (fst (intern_path path s), pid) bytes a\<rparr>))"
  by (simp add: event_record_at_def Let_def case_prod_unfold pushed_events_eq)

lemma expire_event_fields:
  "el_buckets (expire_event_buckets now s) =
     dropWhile (\<lambda>b. eb_latest b < window_cutoff now (el_window s)) (el_buckets s)"
  "el_window (expire_event_buckets now s) = el_window s"
  "el_width (expire_event_buckets now s) = el_width s"
  using expire_events_ok by (simp_all add: expire_event_buckets_def)

lemma size_logged_dropWhile: "size (logged (dropWhile P bs)) \<le> size (logged bs)"
  by (induction bs) auto

lemma size_logged_drop: "size (logged (drop n bs)) \<le> size (logged bs)"
  by (induction bs arbitrary: n) (auto simp: drop_Cons' intro: trans_le_add2)

lemma event_log_ok_expire:
  assumes "event_log_ok bound s"
  shows "event_log_ok bound (expire_event_buckets now s)"
proof -
  let ?d = "dropWhile (\<lambda>b. eb_latest b < window_cutoff now (el_window s)) (el_buckets s)"
  have "ledger_ok (logged ?d) (expire_event_buckets now s)"
    using assms expire_events_ok by (simp add: event_log_ok_def expire_event_buckets_def)
  moreover have "size (logged ?d) \<le> bound" "length ?d \<le> MAX_TIME_BUCKETS"
    using assms
      order_trans [OF size_logged_dropWhile, of "el_buckets s" bound "\<lambda>b. eb_latest b < window_cutoff now (el_window s)"]
      order_trans [OF length_dropWhile_le, of "el_buckets s" MAX_TIME_BUCKETS "\<lambda>b. eb_latest b < window_cutoff now (el_window s)"]
    by (simp_all only: event_log_ok_def)
  ultimately show ?thesis
    using assms by (auto simp: event_log_ok_def expire_event_fields dest: set_dropWhileD)
qed

lemma add_activity_fields [simp]:
  "el_buckets (add_activity key bytes s) = el_buckets s" "el_window (add_activity key bytes s) = el_window s"
  "el_width (add_activity key bytes s) = el_width s"
  by (simp_all add: add_activity_def Let_def split: option.split)

lemma intern_path_plain [simp]:
  "el_buckets (snd (intern_path path s)) = el_buckets s" "el_window (snd (intern_path path s)) = el_window s"
  "el_width (snd (intern_path path s)) = el_width s"
  by (simp_all add: intern_path_def split: option.split)

lemma event_log_ok_record:
  assumes "event_log_ok bound s" and "bound + unat bytes < 2 ^ 64" and "single_root path"
  shows "event_log_ok (bound + unat bytes) (event_record_at now path pid bytes s)"
proof (cases "el_window s = 0 \<or> bytes = 0")
  case True
  then show ?thesis
    using event_log_ok_expire [OF assms(1), of now]
    by (auto simp: event_record_at_eq Let_def expire_event_fields event_log_ok_def)
next
  case False
  let ?e = "expire_event_buckets now s"
  have e: "event_log_ok bound ?e" using assms(1) by (rule event_log_ok_expire)
  then have ledger: "ledger_ok (logged (el_buckets ?e)) ?e" and size: "size (logged (el_buckets ?e)) \<le> bound"
    and keys: "\<forall>b \<in> set (el_buckets ?e). distinct_keys (eb_activities b)"
    by (simp_all add: event_log_ok_def)
  have path: "fst (intern_path path ?e) = path" using intern_path_fields(1) [OF ledger] .
  let ?a = "add_activity (path, pid) bytes (snd (intern_path path ?e))"
  let ?bs = "pushed_events now (path, pid) bytes ?a"
  have room: "size (logged (el_buckets ?e)) + unat bytes < 2 ^ 64" using size assms(2) by linarith
  have pushed: "logged ?bs = logged (el_buckets ?e) + replicate_mset (unat bytes) (path, pid)"
      "\<forall>b \<in> set ?bs. distinct_keys (eb_activities b)"
    using logged_pushed [of ?a bytes now "(path, pid)"] keys room by simp_all
  have "ledger_ok (logged ?bs) (?a\<lparr>el_buckets := ?bs\<rparr>)"
    using ledger_add [OF ledger _ room assms(3)] False pushed(1) by simp
  then have t: "ledger_ok (logged (drop (length ?bs - MAX_TIME_BUCKETS) ?bs)) (trim_event_buckets (?a\<lparr>el_buckets := ?bs\<rparr>))"
    "el_buckets (trim_event_buckets (?a\<lparr>el_buckets := ?bs\<rparr>)) = drop (length ?bs - MAX_TIME_BUCKETS) ?bs"
    using trim_events_ok [of ?bs "?a\<lparr>el_buckets := ?bs\<rparr>"] by (simp_all add: trim_event_buckets_def)
  have "size (logged (drop (length ?bs - MAX_TIME_BUCKETS) ?bs)) \<le> bound + unat bytes"
    by (rule order_trans [OF size_logged_drop]) (use pushed(1) size in simp)
  then have "event_log_ok (bound + unat bytes) (trim_event_buckets (?a\<lparr>el_buckets := ?bs\<rparr>))"
    using t pushed(2) by (auto simp: event_log_ok_def dest: in_set_dropD)
  with False show ?thesis
    by (simp add: event_record_at_eq Let_def expire_event_fields path)
qed

datatype event_op =
  EventRecord int string u32 u64
| EventQuery int string filter_query process_table
| EventReset

fun event_step :: "(string \<Rightarrow> string) \<Rightarrow> event_op \<Rightarrow> event_log \<Rightarrow> event_log" where
  "event_step lower (EventRecord now path pid bytes) s = event_record_at now path pid bytes s"
| "event_step lower (EventQuery now pfx query procs) s = snd (rate_for_prefix_at lower now pfx query procs s)"
| "event_step lower EventReset s = event_log_reset s"

fun logged_bytes :: "event_op \<Rightarrow> nat" where
  "logged_bytes (EventRecord now path pid bytes) = unat bytes"
| "logged_bytes _ = 0"

fun op_single_root :: "event_op \<Rightarrow> bool" where
  "op_single_root (EventRecord now path pid bytes) = single_root path"
| "op_single_root _ = True"

lemma ledger_ok_empty:
  "el_activities s = [] \<Longrightarrow> el_prefix_totals s = Map.empty \<Longrightarrow> el_interned s = Map.empty \<Longrightarrow>
   el_pid_counts s = Map.empty \<Longrightarrow> ledger_ok {#} s"
  by (auto simp: ledger_ok_def pids_on_def under_def fun_eq_iff)

lemma event_log_ok_empty: "event_log_ok bound (event_log_reset s)" "event_log_ok bound (new_event_log window)"
  by (simp_all add: event_log_ok_def event_log_reset_def new_event_log_def ledger_ok_empty)

lemma event_log_ok_step:
  assumes "event_log_ok bound s" and "bound + logged_bytes x < 2 ^ 64" and "op_single_root x"
  shows "event_log_ok (bound + logged_bytes x) (event_step lower x s)"
  using assms
  by (cases x) (auto simp: event_log_ok_record rate_for_prefix_at_def Let_def event_log_ok_expire event_log_ok_empty)

lemma event_log_ok_run:
  "event_log_ok bound s \<Longrightarrow> bound + sum_list (map logged_bytes ops) < 2 ^ 64 \<Longrightarrow> list_all op_single_root ops \<Longrightarrow>
   event_log_ok (bound + sum_list (map logged_bytes ops)) (fold (event_step lower) ops s)"
  using event_log_ok_step
  by (induction ops arbitrary: s bound) (fastforce simp: add.assoc [symmetric])+

lemma tables_of_ledger:
  assumes "ledger_ok M s"
  shows "map_of (el_activities s) (path, pid) =
      (if count M (path, pid) = 0 then None else Some (of_nat (count M (path, pid))))"
    and "el_interned s path = (if \<exists>pid. (path, pid) \<in># M then Some path else None)"
    and "el_pid_counts s path =
      (if \<exists>pid. (path, pid) \<in># M then Some (card {pid. (path, pid) \<in># M}) else None)"
proof -
  note D = ledger_okD [OF assms]
  show "map_of (el_activities s) (path, pid) =
      (if count M (path, pid) = 0 then None else Some (of_nat (count M (path, pid))))"
    by (simp add: D(4) positive_def not_in_iff)
  show "el_interned s path = (if \<exists>pid. (path, pid) \<in># M then Some path else None)"
    by (simp add: D(6) pids_on_def)
  show "el_pid_counts s path =
      (if \<exists>pid. (path, pid) \<in># M then Some (card {pid. (path, pid) \<in># M}) else None)"
    by (simp add: D(5) pids_on_def positive_def)
qed

text \<open>The preaggregated tables never drift: after any sequence of records, queries and
  resets at any times, with fewer than \<open>2 ^ 64\<close> bytes recorded on normalised paths, the window's
  activity table is exactly the sum of its buckets' tables, and a path is interned, with its
  count of active processes, if and only if some bucket still holds it.\<close>

theorem event_log_tables_exact:
  assumes "sum_list (map logged_bytes ops) < 2 ^ 64" and "list_all op_single_root ops"
  shows "let s = fold (event_step lower) ops (new_event_log window); M = logged (el_buckets s) in
    map_of (el_activities s) (path, pid) =
      (if count M (path, pid) = 0 then None else Some (of_nat (count M (path, pid)))) \<and>
    el_interned s path = (if \<exists>pid. (path, pid) \<in># M then Some path else None) \<and>
    el_pid_counts s path =
      (if \<exists>pid. (path, pid) \<in># M then Some (card {pid. (path, pid) \<in># M}) else None) \<and>
    length (el_buckets s) \<le> 64"
proof -
  have "event_log_ok (sum_list (map logged_bytes ops)) (fold (event_step lower) ops (new_event_log window))"
    using event_log_ok_run [OF event_log_ok_empty(2), of 0 ops lower window] assms by simp
  then have ok: "ledger_ok (logged (el_buckets (fold (event_step lower) ops (new_event_log window))))
      (fold (event_step lower) ops (new_event_log window))"
    and len: "length (el_buckets (fold (event_step lower) ops (new_event_log window))) \<le> 64"
    by (simp_all add: event_log_ok_def MAX_TIME_BUCKETS_def)
  show ?thesis
    unfolding Let_def by (intro conjI tables_of_ledger [OF ok] len)
qed

lemma event_log_tables_exact_witness:
  "let s = fold (event_step id) [EventRecord 5 ''/a'' 1 10, EventRecord 6 ''/a/b'' 2 20] (new_event_log 1000)
   in el_pid_counts s ''/a/b'' = (if \<exists>pid. (''/a/b'', pid) \<in># logged (el_buckets s)
        then Some (card {pid. (''/a/b'', pid) \<in># logged (el_buckets s)}) else None)"
  using event_log_tables_exact [of "[EventRecord 5 ''/a'' 1 10, EventRecord 6 ''/a/b'' 2 20]" id 1000 "''/a/b''"]
  by (simp add: Let_def single_root_def del: fold_simps fold.simps event_step.simps)

subsection \<open>Queries\<close>

definition selects :: "(string \<Rightarrow> string) \<Rightarrow> string \<Rightarrow> filter_query \<Rightarrow> process_table \<Rightarrow> activity \<Rightarrow> bool" where
  "selects lower pfx query procs k \<longleftrightarrow> path_matches_prefix (fst k) pfx \<and>
     matches_activity lower query (fst k) (snd k) (map_of procs (snd k))"

lemma count_bucket_mset:
  "distinct_keys al \<Longrightarrow> count (bucket_mset al) k = (case map_of al k of None \<Rightarrow> 0 | Some v \<Rightarrow> unat v)"
proof (induction al)
  case (Cons kv al)
  obtain k' v where kv: "kv = (k', v)" by (cases kv)
  with Cons.prems have "map_of al k' = None" "distinct_keys al"
    by (auto simp: distinct_keys_def map_of_eq_None_iff)
  with Cons.IH kv show ?case by (auto split: option.split)
qed simp

lemma ledger_activities: "ledger_ok M s \<Longrightarrow> bucket_mset (el_activities s) = M"
proof -
  assume ok: "ledger_ok M s"
  show ?thesis
  proof (rule multiset_eqI)
    fix k
    have "count M k < 2 ^ 64" using ledger_okD(1) [OF ok] count_le_size [of M k] by linarith
    then show "count (bucket_mset (el_activities s)) k = count M k"
      unfolding count_bucket_mset [OF ledger_okD(3) [OF ok]] ledger_okD(4) [OF ok]
      by (simp add: positive_def unat_small)
  qed
qed

lemma sum_selected:
  "sum_list (map snd (filter (\<lambda>(k, v). P k) al)) = (of_nat (size (filter_mset P (bucket_mset al))) :: u64)"
proof (induction al)
  case (Cons kv al)
  have "filter_mset P (replicate_mset n k) = (if P k then replicate_mset n k else {#})" for n k
    by (induction n) auto
  with Cons show ?case by (cases kv) simp
qed simp

lemma rate_for_prefix_total:
  assumes "event_log_ok bound s" and "bound < 2 ^ 64" and "el_window s \<noteq> 0" and "pfx \<noteq> []"
  shows "\<exists>tot. rate_for_prefix_at lower now pfx query procs s =
      (BytesPer tot (el_window s), expire_event_buckets now s) \<and>
    unat tot = size (filter_mset (selects lower pfx query procs) (logged (el_buckets (expire_event_buckets now s))))"
proof -
  let ?e = "expire_event_buckets now s" and ?M = "logged (el_buckets (expire_event_buckets now s))"
  have ok: "event_log_ok bound ?e" using assms(1) by (rule event_log_ok_expire)
  then have ledger: "ledger_ok ?M ?e" by (simp add: event_log_ok_def)
  note D = ledger_okD [OF ledger]
  have small: "size (filter_mset P ?M) < 2 ^ 64" for P
    using D(1) size_filter_mset_lesseq [of P ?M] by linarith
  have sel: "filter_mset (selects lower pfx query procs) ?M = under pfx ?M" if "query_is_empty query"
    using that visited_iff_matches [OF assms(4)]
    by (simp add: selects_def [abs_def] matches_activity_def under_def)
  have "(\<lambda>((path, pid), bytes). path_matches_prefix path pfx \<and>
      matches_activity lower query path pid (map_of procs pid)) =
      (\<lambda>(k, v :: u64). selects lower pfx query procs k)"
    by (auto simp: selects_def fun_eq_iff)
  then have scan: "sum_list (map snd (filter (\<lambda>((path, pid), bytes). path_matches_prefix path pfx \<and>
      matches_activity lower query path pid (map_of procs pid)) (el_activities ?e))) =
      of_nat (size (filter_mset (selects lower pfx query procs) ?M))"
    by (simp only: sum_selected ledger_activities [OF ledger])
  show ?thesis
  proof (cases "query_is_empty query")
    case True
    then show ?thesis
      using assms(3) small [of "\<lambda>k. pfx \<in> set (visited_prefixes (fst k))"] sel [OF True]
      by (auto simp: rate_for_prefix_at_def Let_def expire_event_fields D(7) positive_def unat_small
          under_def)
  next
    case False
    then show ?thesis
      using assms(3) scan unat_small [OF small [of "selects lower pfx query procs"]]
      by (simp add: rate_for_prefix_at_def Let_def expire_event_fields)
  qed
qed

text \<open>(C34) The prefix index answers as the scan does: in every reachable log, a query for a
  nonempty prefix, filtered or not, divides by the window exactly the bytes that the live
  buckets hold for the activities under that prefix that match the filter, so the constant-time
  lookup for an empty filter and the scan for a nonempty one compute the same sum.\<close>

theorem event_log_query_exact:
  assumes "sum_list (map logged_bytes ops) < 2 ^ 64" and "list_all op_single_root ops"
    and "window \<noteq> 0" and "pfx \<noteq> []"
  shows "let s = fold (event_step lower) ops (new_event_log window)
    in \<exists>tot. rate_for_prefix_at lower now pfx query procs s = (BytesPer tot window, expire_event_buckets now s) \<and>
      unat tot = size (filter_mset (\<lambda>(path, pid). path_matches_prefix path pfx \<and>
          matches_activity lower query path pid (map_of procs pid))
        (logged (el_buckets (expire_event_buckets now s))))"
proof -
  let ?s = "fold (event_step lower) ops (new_event_log window)"
  have step: "el_window (event_step lower x t) = el_window t" for x t
    using trim_events_ok
    by (cases x) (auto simp: event_record_at_eq Let_def expire_event_fields trim_event_buckets_def
        rate_for_prefix_at_def event_log_reset_def)
  have win: "el_window (fold (event_step lower) ops t) = el_window t" for ops t
    by (induction ops arbitrary: t) (simp_all add: step)
  then have "el_window ?s = window" by (simp add: new_event_log_def)
  moreover have "event_log_ok (sum_list (map logged_bytes ops)) ?s"
    using event_log_ok_run [OF event_log_ok_empty(2), of 0 ops lower window] assms by simp
  moreover have "selects lower pfx query procs = (\<lambda>(path, pid). path_matches_prefix path pfx \<and>
      matches_activity lower query path pid (map_of procs pid))"
    by (auto simp: selects_def fun_eq_iff)
  ultimately show ?thesis
    using rate_for_prefix_total [OF _ assms(1), of ?s pfx lower now query procs] assms(3,4)
    by (simp add: Let_def)
qed

lemma event_log_query_exact_witness:
  "let s = fold (event_step id) [EventRecord 5 ''/a'' 1 10, EventRecord 6 ''/a/b'' 2 20] (new_event_log 1000)
   in \<exists>tot. rate_for_prefix_at id 7 ''/a'' empty_query [] s = (BytesPer tot 1000, expire_event_buckets 7 s) \<and>
      unat tot = size (filter_mset (\<lambda>(path, pid). path_matches_prefix path ''/a'' \<and>
          matches_activity id empty_query path pid None) (logged (el_buckets (expire_event_buckets 7 s))))"
  using event_log_query_exact [of "[EventRecord 5 ''/a'' 1 10, EventRecord 6 ''/a/b'' 2 20]" 1000 "''/a''" id 7
      empty_query "[]"]
  by (simp add: Let_def single_root_def del: fold_simps fold.simps event_step.simps)

subsection \<open>Accuracy\<close>

definition event_run :: "nat \<Rightarrow> (activity \<times> u64) timed list \<Rightarrow> event_log" where
  "event_run window xs =
     fold (\<lambda>(now, (path, pid), bytes). event_record_at now path pid bytes) xs (new_event_log window)"

definition event_weight :: "(activity \<Rightarrow> bool) \<Rightarrow> (activity \<times> u64) timed \<Rightarrow> nat" where
  "event_weight P x = (if P (fst (snd x)) then unat (snd (snd x)) else 0)"

definition events_mset :: "(activity \<times> u64) timed list \<Rightarrow> activity multiset" where
  "events_mset ys = sum_list (map (\<lambda>x. replicate_mset (unat (snd (snd x))) (fst (snd x))) ys)"

definition has_bytes :: "activity \<times> u64 \<Rightarrow> bool" where
  "has_bytes e \<longleftrightarrow> snd e \<noteq> 0"

lemma events_mset_simps [simp]:
  "events_mset [] = {#}" "events_mset (x # ys) = replicate_mset (unat (snd (snd x))) (fst (snd x)) + events_mset ys"
  "events_mset (ys @ zs) = events_mset ys + events_mset zs"
  by (simp_all add: events_mset_def)

lemma size_events_mset:
  "size (filter_mset P (events_mset ys)) = sum_list (map (event_weight P) ys)"
proof (induction ys)
  case (Cons x ys)
  have "filter_mset P (replicate_mset n k) = (if P k then replicate_mset n k else {#})" for n k
    by (induction n) auto
  with Cons show ?case by (simp add: event_weight_def)
qed simp

lemma bucket_of_activities:
  "seg \<noteq> [] \<Longrightarrow> size (events_mset seg) < 2 ^ 64 \<Longrightarrow>
   bucket_mset (eb_activities (event_windows.bucket_of seg)) = events_mset seg \<and>
   distinct_keys (eb_activities (event_windows.bucket_of seg))"
proof (induction seg rule: rev_nonempty_induct)
  case (single x)
  then show ?case
    by (cases x) (auto simp: event_windows.bucket_of_single distinct_keys_def)
next
  case (snoc x xs)
  then show ?case
    by (cases x) (auto simp: event_windows.bucket_of_snoc bucket_mset_alter split: prod.split)
qed

lemma logged_bucket_of:
  "\<forall>seg \<in> set segs. seg \<noteq> [] \<Longrightarrow> size (events_mset (concat segs)) < 2 ^ 64 \<Longrightarrow>
   logged (map event_windows.bucket_of segs) = events_mset (concat segs)"
  by (induction segs) (auto simp: bucket_of_activities)

lemma event_run_window: "el_window (event_run window xs) = window" "el_width (event_run window xs) = bucket_width window"
proof -
  have "el_window (event_record_at now path pid bytes s) = el_window s"
      "el_width (event_record_at now path pid bytes s) = el_width s" for now path pid bytes s
    using trim_events_ok
    by (auto simp: event_record_at_eq Let_def expire_event_fields trim_event_buckets_def)
  then show "el_window (event_run window xs) = window" "el_width (event_run window xs) = bucket_width window"
    by (induction xs rule: rev_induct) (auto simp: event_run_def new_event_log_def split: prod.split)
qed

lemma event_run_as_ops: "event_run window xs =
    fold (event_step lower) (map (\<lambda>(now, (path, pid), bytes). EventRecord now path pid bytes) xs) (new_event_log window)"
proof -
  have "fold (\<lambda>(now, (path, pid), bytes). event_record_at now path pid bytes) xs s =
      fold (event_step lower) (map (\<lambda>(now, (path, pid), bytes). EventRecord now path pid bytes) xs) s" for s
    by (induction xs arbitrary: s) auto
  then show ?thesis by (simp add: event_run_def)
qed

lemma event_run_ok:
  assumes "sum_list (map (event_weight (\<lambda>_. True)) xs) < 2 ^ 64"
    and "\<forall>x \<in> set xs. single_root (fst (fst (snd x)))"
  shows "event_log_ok (sum_list (map (event_weight (\<lambda>_. True)) xs)) (event_run window xs)"
proof -
  let ?ops = "map (\<lambda>(now, (path, pid), bytes). EventRecord now path pid bytes) xs"
  have eq: "map logged_bytes ?ops = map (event_weight (\<lambda>_. True)) xs"
    by (auto simp: event_weight_def)
  have w: "sum_list (map logged_bytes ?ops) = sum_list (map (event_weight (\<lambda>_. True)) xs)"
    by (simp only: eq)
  have roots: "list_all op_single_root ?ops" using assms(2) by (auto simp: list_all_iff)
  have "event_log_ok (0 + sum_list (map logged_bytes ?ops)) (fold (event_step id) ?ops (new_event_log window))"
    by (rule event_log_ok_run [OF event_log_ok_empty(2)]) (simp_all only: w add_0 assms(1) roots)
  then show ?thesis by (simp only: w add_0 event_run_as_ops [where lower = id])
qed

lemma event_run_buckets:
  assumes "window_ok window" and "monotone_times xs"
    and "sum_list (map (event_weight (\<lambda>_. True)) xs) < 2 ^ 64"
    and "\<forall>x \<in> set xs. single_root (fst (fst (snd x)))"
  shows "el_buckets (event_run window xs) = map event_windows.bucket_of (seg_run window has_bytes xs)"
  using assms(2,3,4)
proof (induction xs rule: rev_induct)
  case Nil
  then show ?case by (simp add: event_run_def seg_run_def new_event_log_def)
next
  case (snoc x xs)
  obtain now path pid bytes where x: "x = (now, (path, pid), bytes)" by (metis prod.collapse)
  let ?s = "seg_run window has_bytes xs" and ?t = "event_run window xs"
  let ?e = "seg_expire (window_cutoff now window) ?s" and ?l = "expire_event_buckets now (event_run window xs)"
  have pre: "monotone_times xs" "sum_list (map (event_weight (\<lambda>_. True)) xs) < 2 ^ 64"
      "\<forall>x \<in> set xs. single_root (fst (fst (snd x)))"
    using monotone_times_snoc [OF snoc.prems(1)] snoc.prems by auto
  have ne: "\<forall>seg \<in> set ?s. seg \<noteq> []"
    using seg_run_grouped [OF assms(1) pre(1), of has_bytes] by (auto simp: grouped_def)
  then have nee: "\<forall>seg \<in> set ?e. seg \<noteq> []" by (auto simp: seg_expire_def dest: set_dropWhileD)
  have e: "el_buckets ?l = map event_windows.bucket_of ?e"
    using event_windows.expire_bucket_of [OF ne] snoc.IH [OF pre]
    by (simp add: expire_event_fields event_run_window)
  have len: "length (seg_run window has_bytes (xs @ [x])) \<le> MAX_TIME_BUCKETS"
    using seg_run_grouped [OF assms(1) snoc.prems(1)] by blast
  have "ledger_ok (logged (el_buckets ?l)) ?l"
    using event_log_ok_expire [OF event_run_ok [OF pre(2,3)]] by (simp add: event_log_ok_def)
  then have path: "fst (intern_path path ?l) = path" by (rule intern_path_fields(1))
  have run: "event_run window (xs @ [x]) = event_record_at now path pid bytes ?t"
    by (simp add: event_run_def x)
  have seg: "seg_run window has_bytes (xs @ [x]) =
      (if bytes = 0 then ?e else seg_push (bucket_width window) (now, (path, pid), bytes) ?e)"
    by (simp add: seg_run_snoc seg_step_def x Let_def has_bytes_def)
  have "0 < window" using assms(1) by (simp add: window_ok_def)
  then show ?case
    using len event_windows.push_bucket_of [OF nee, of "bucket_width window" now "((path, pid), bytes)"] e
      trim_events_ok
    by (cases "bytes = 0")
      (simp_all add: run seg event_record_at_eq Let_def trim_event_buckets_def pushed_events_def
        expire_event_fields event_run_window path)
qed

text \<open>(C16) Per-path rates are accurate to one bucket: when events come in clock order on
  normalised paths, with fewer than \<open>2 ^ 64\<close> bytes in total, a query at a later time for a
  nonempty prefix and any filter divides by the window a byte count that includes every matching
  event of the last window and none older than the window plus one bucket width.\<close>

theorem event_log_window_accurate:
  assumes "0 < window" and "window \<le> 63 * (2 ^ 64 - 1)"
    and "monotone_times xs" and "last_time xs \<le> now" and "0 \<le> now"
    and "sum_list (map (event_weight (\<lambda>_. True)) xs) < 2 ^ 64"
    and "\<forall>x \<in> set xs. single_root (fst (fst (snd x)))" and "pfx \<noteq> []"
  shows "\<exists>tot. fst (rate_for_prefix_at lower now pfx query procs (event_run window xs)) = BytesPer tot window \<and>
    sum_list (map (event_weight (selects lower pfx query procs))
      (filter (\<lambda>x. now - int window \<le> fst x) xs)) \<le> unat tot \<and>
    unat tot \<le> sum_list (map (event_weight (selects lower pfx query procs))
      (filter (\<lambda>x. now - int window - int ((window + 62) div 63) < fst x) xs))"
proof -
  let ?P = "selects lower pfx query procs" and ?segs = "seg_run window has_bytes xs"
  let ?e = "seg_expire (now - int window) ?segs" and ?t = "event_run window xs"
  have ok: "window_ok window" using assms(1,2) by (simp add: window_ok_def)
  have width: "bucket_width window = (window + 62) div 63"
    using bucket_width_bounds [OF ok] by linarith
  have ne: "\<forall>seg \<in> set ?segs. seg \<noteq> []"
    using seg_run_grouped [OF ok assms(3), of has_bytes] by (auto simp: grouped_def)
  then have nee: "\<forall>seg \<in> set ?e. seg \<noteq> []" by (auto simp: seg_expire_def dest: set_dropWhileD)
  have buckets: "el_buckets (expire_event_buckets now ?t) = map event_windows.bucket_of ?e"
    using event_windows.expire_bucket_of [OF ne]
    by (simp add: expire_event_fields event_run_window event_run_buckets [OF ok assms(3,6,7)]
        window_cutoff_eq [OF ok assms(5)])
  have all: "sum_list (map (event_weight (\<lambda>_. True)) ys) = size (events_mset ys)" for ys
    using size_events_mset [of "\<lambda>_. True" ys] by simp
  have "size (events_mset (concat ?e)) < 2 ^ 64"
    using seg_expire_weight [of "event_weight (\<lambda>_. True)" "now - int window" ?segs]
      seg_run_weight [OF ok assms(3), of "event_weight (\<lambda>_. True)" has_bytes] assms(6)
    unfolding all by linarith
  then have logged: "logged (el_buckets (expire_event_buckets now ?t)) = events_mset (concat ?e)"
    unfolding buckets by (rule logged_bucket_of [OF nee])
  have "el_window ?t \<noteq> 0" using assms(1) by (simp add: event_run_window)
  from rate_for_prefix_total [OF event_run_ok [OF assms(6,7)] assms(6) this assms(8),
      where now = now and lower = lower and query = query and procs = procs]
  obtain tot where tot: "fst (rate_for_prefix_at lower now pfx query procs ?t) = BytesPer tot window"
    "unat tot = sum_list (map (event_weight ?P) (concat ?e))"
    unfolding logged size_events_mset event_run_window by auto
  have zero: "sum_list (map (event_weight ?P) (filter Q (filter (has_bytes \<circ> snd) xs))) =
      sum_list (map (event_weight ?P) (filter Q xs))" for Q
    by (induction xs) (auto simp: event_weight_def has_bytes_def)
  note bounds = window_bounds [OF ok assms(3,4,5), of "event_weight ?P" has_bytes, unfolded zero width]
  show ?thesis
    by (rule exI [of _ tot]) (use tot bounds in \<open>simp only: simp_thms\<close>)
qed

lemma event_log_window_accurate_witness:
  "\<exists>tot. fst (rate_for_prefix_at id 1500000000 ''/a'' empty_query []
      (event_run 1000000000 [(100000000, (''/a'', 1), 7), (900000000, (''/a/b'', 2), 100), (1200000000, (''/c'', 2), 30)]))
      = BytesPer tot 1000000000 \<and> unat tot = 100"
proof -
  let ?xs = "[(100000000, (''/a'', 1), 7), (900000000, (''/a/b'', 2), 100), (1200000000, (''/c'', 2), 30)]"
  have P: "selects id ''/a'' empty_query [] (''/a/b'', 2)" "\<not> selects id ''/a'' empty_query [] (''/c'', 2)"
    by (simp_all add: selects_def path_matches_prefix_def starts_with_def matches_activity_def query_is_empty_def
        empty_query_def)
  show ?thesis
    using event_log_window_accurate [of 1000000000 ?xs 1500000000 "''/a''" id empty_query "[]"] P
    by (auto simp: monotone_times_def last_time_def event_weight_def single_root_def)
qed

end
