(* ===== verification/Paths.thy ===== *)
theory Paths
  imports Common
begin

section \<open>Path text (ncda/src/bpf.rs)\<close>

text \<open>
  Normalising raw pathname bytes and rendering them as text: \<open>normalize_relative_path\<close>,
  \<open>normalize_absolute_path\<close>, \<open>classify_pseudo_path\<close>, \<open>unresolved_path\<close> and \<open>display_path\<close>,
  with the part of \<open>std::str::from_utf8\<close> that \<open>display_path\<close> relies on (where the first invalid
  sequence starts and how long it is).
\<close>

subsection \<open>Normalisation\<close>

fun push_component :: "string \<Rightarrow> string list \<Rightarrow> string list" where
  "push_component component components =
     (if component = [] \<or> component = ''.'' then components
      else if component = ''..'' then butlast components
      else components @ [component])"

definition normal_components :: "string \<Rightarrow> string list" where
  "normal_components path = fold push_component (split_on (CHR ''/'') path) []"

definition normalize_relative_path :: "string \<Rightarrow> string" where
  "normalize_relative_path path = join_with ''/'' (normal_components path)"

definition normalize_absolute_path :: "string \<Rightarrow> string" where
  "normalize_absolute_path path =
     (let normalized = normalize_relative_path path
      in if normalized = [] then ''/'' else CHR ''/'' # normalized)"

definition normal_component :: "string \<Rightarrow> bool" where
  "normal_component c \<longleftrightarrow> is_component c \<and> c \<noteq> ''.'' \<and> c \<noteq> ''..''"

lemma push_component_normal:
  "list_all normal_component cs \<Longrightarrow> CHR ''/'' \<notin> set c \<Longrightarrow> list_all normal_component (push_component c cs)"
  by (auto simp: list_all_iff normal_component_def is_component_def dest: in_set_butlastD)

lemma fold_push_normal:
  "list_all normal_component cs \<Longrightarrow> \<forall>p \<in> set ps. CHR ''/'' \<notin> set p \<Longrightarrow>
   list_all normal_component (fold push_component ps cs)"
proof (induction ps arbitrary: cs)
  case (Cons p ps)
  then have "list_all normal_component (push_component p cs)" by (intro push_component_normal) auto
  with Cons show ?case by (simp del: push_component.simps)
qed simp

lemma normal_components_normal: "list_all normal_component (normal_components path)"
  unfolding normal_components_def by (rule fold_push_normal) (auto dest: split_on_free)

lemma fold_push_all_normal:
  "list_all normal_component ps \<Longrightarrow> fold push_component ps cs = cs @ ps"
  by (induction ps arbitrary: cs) (auto simp: normal_component_def is_component_def)

lemma join_empty_iff: "list_all normal_component cs \<Longrightarrow> join_with ''/'' cs = [] \<longleftrightarrow> cs = []"
  by (cases cs; cases "tl cs") (auto simp: normal_component_def is_component_def)

lemma normal_components_join:
  assumes "list_all normal_component cs"
  shows "normal_components (join_with ''/'' cs) = cs"
proof (cases "cs = []")
  case True
  then show ?thesis by (simp add: normal_components_def)
next
  case False
  with assms have "split_on (CHR ''/'') (join_with ''/'' cs) = cs"
    by (intro split_on_join) (auto simp: list_all_iff normal_component_def is_component_def)
  with assms show ?thesis by (simp add: normal_components_def fold_push_all_normal)
qed

lemma normal_components_slash: "normal_components (CHR ''/'' # p) = normal_components p"
  by (simp add: normal_components_def)

lemma normalize_absolute_eq:
  "normalize_absolute_path path = CHR ''/'' # join_with ''/'' (normal_components path)"
  by (simp add: normalize_absolute_path_def normalize_relative_path_def Let_def)

text \<open>Normal forms: a normalised path has no empty, \<open>.\<close> or \<open>..\<close> component, normalising it
  again changes nothing, and the tree reads from it exactly those components.\<close>

theorem normalize_normal_form:
  "list_all normal_component (normal_components path) \<and>
   normalize_relative_path (normalize_relative_path path) = normalize_relative_path path \<and>
   normalize_absolute_path (normalize_absolute_path path) = normalize_absolute_path path \<and>
   path_components (normalize_absolute_path path) = normal_components path \<and>
   take 2 (normalize_absolute_path path) \<noteq> ''//''"
proof (intro conjI)
  let ?cs = "normal_components path"
  show n: "list_all normal_component ?cs" by (rule normal_components_normal)
  note j = normal_components_join [OF n]
  show "normalize_relative_path (normalize_relative_path path) = normalize_relative_path path"
    by (simp add: normalize_relative_path_def j)
  show "normalize_absolute_path (normalize_absolute_path path) = normalize_absolute_path path"
    by (simp add: normalize_absolute_eq normal_components_slash j)
  show "path_components (normalize_absolute_path path) = ?cs"
    unfolding normalize_absolute_eq
    by (rule path_components_join) (use n in \<open>auto simp: list_all_iff normal_component_def\<close>)
  show "take 2 (normalize_absolute_path path) \<noteq> ''//''"
    using n unfolding normalize_absolute_eq
    by (cases ?cs; cases "tl ?cs") (auto simp: normal_component_def is_component_def neq_Nil_conv)
qed

subsection \<open>UTF-8 validation\<close>

text \<open>
  One step of \<open>from_utf8\<close> at the head of nonempty bytes: a character of so many bytes, an
  invalid sequence of so many bytes (\<open>error_len() = Some n\<close>), or a sequence cut off by the end
  of the input (\<open>error_len() = None\<close>).
\<close>

datatype utf8_step = Whole nat | Invalid nat | Truncated

definition cont_byte :: "char \<Rightarrow> bool" where
  "cont_byte c \<longleftrightarrow> 0x80 \<le> (of_char c :: nat) \<and> (of_char c :: nat) \<le> 0xBF"

definition utf8_width :: "char \<Rightarrow> nat" where
  "utf8_width c =
     (let b = of_char c :: nat
      in if b < 0x80 then 1 else if 0xC2 \<le> b \<and> b \<le> 0xDF then 2
         else if 0xE0 \<le> b \<and> b \<le> 0xEF then 3 else if 0xF0 \<le> b \<and> b \<le> 0xF4 then 4 else 0)"

text \<open>Which second bytes may follow a lead byte of a three or four byte sequence.\<close>

definition second_ok :: "char \<Rightarrow> char \<Rightarrow> bool" where
  "second_ok c d =
     (let b = of_char c :: nat; n = of_char d :: nat
      in if b = 0xE0 then 0xA0 \<le> n \<and> n \<le> 0xBF
         else if b = 0xED then 0x80 \<le> n \<and> n \<le> 0x9F
         else if b = 0xF0 then 0x90 \<le> n \<and> n \<le> 0xBF
         else if b = 0xF4 then 0x80 \<le> n \<and> n \<le> 0x8F
         else 0x80 \<le> n \<and> n \<le> 0xBF)"

fun utf8_head :: "string \<Rightarrow> utf8_step" where
  "utf8_head [] = Truncated"
| "utf8_head (c # s) =
     (let w = utf8_width c
      in if w = 1 then Whole 1
         else if w = 0 then Invalid 1
         else (case s of
                 [] \<Rightarrow> Truncated
               | d # s \<Rightarrow>
                   if w = 2 then (if cont_byte d then Whole 2 else Invalid 1)
                   else if \<not> second_ok c d then Invalid 1
                   else (case s of
                           [] \<Rightarrow> Truncated
                         | e # s \<Rightarrow>
                             if \<not> cont_byte e then Invalid 2
                             else if w = 3 then Whole 3
                             else (case s of
                                     [] \<Rightarrow> Truncated
                                   | f # s \<Rightarrow> if cont_byte f then Whole 4 else Invalid 3))))"

text \<open>
  \<open>from_utf8\<close>: the characters of the longest valid prefix, and \<open>None\<close> when it is everything or
  \<open>Some\<close> of the rest's \<open>error_len\<close>.
\<close>

function from_utf8 :: "string \<Rightarrow> string list \<times> nat option option" where
  "from_utf8 bytes =
     (if bytes = [] then ([], None)
      else (case utf8_head bytes of
              Whole n \<Rightarrow>
                if n = 0 then ([], None)
                else let (chars, e) = from_utf8 (drop n bytes) in (take n bytes # chars, e)
            | Invalid n \<Rightarrow> ([], Some (Some n))
            | Truncated \<Rightarrow> ([], Some None)))"
  by pat_completeness auto
termination by (relation "measure length") auto

declare from_utf8.simps [simp del]

subsection \<open>Display\<close>

definition hex_digit :: "nat \<Rightarrow> char" where
  "hex_digit n = (if n < 10 then char_of (48 + n) else char_of (55 + n))"

text \<open>\<open>format!("\x{byte:02X}")\<close>.\<close>

definition escape_byte :: "char \<Rightarrow> string" where
  "escape_byte c = [CHR 0x5C, CHR ''x'', hex_digit (of_char c div 16), hex_digit (of_char c mod 16)]"

text \<open>\<open>char::is_control\<close>, on the character's UTF-8 bytes.\<close>

definition is_control :: "string \<Rightarrow> bool" where
  "is_control ch =
     (case ch of
        [c] \<Rightarrow> (of_char c :: nat) < 32 \<or> (of_char c :: nat) = 127
      | [c, d] \<Rightarrow> (of_char c :: nat) = 0xC2 \<and> (of_char d :: nat) \<le> 0x9F
      | _ \<Rightarrow> False)"

definition push_display_char :: "string \<Rightarrow> string" where
  "push_display_char ch =
     (if ch = [CHR 0x5C] then [CHR 0x5C, CHR 0x5C]
      else if is_control ch then concat (map escape_byte ch)
      else ch)"

definition push_display_text :: "string list \<Rightarrow> string" where
  "push_display_text chars = concat (map push_display_char chars)"

text \<open>
  The loop of \<open>display_path\<close>: the valid prefix is rendered, then the invalid bytes after it are
  escaped. A cut-off sequence extends to the end of the input.
\<close>

lemma from_utf8_length: "length (concat (fst (from_utf8 bytes))) \<le> length bytes"
proof (induction bytes rule: from_utf8.induct)
  case (1 bytes)
  show ?case
    using 1 by (subst from_utf8.simps) (auto simp: case_prod_unfold Let_def split: utf8_step.split)
qed

lemma utf8_head_bounds:
  "utf8_head s = Whole n \<Longrightarrow> 0 < n \<and> n \<le> length s" "utf8_head s = Invalid n \<Longrightarrow> 0 < n \<and> n \<le> length s"
  by (cases s; auto simp: Let_def split: if_splits list.splits)+

lemma from_utf8_error:
  "snd (from_utf8 bytes) = Some (Some n) \<Longrightarrow>
   0 < n \<and> length (concat (fst (from_utf8 bytes))) + n \<le> length bytes"
proof (induction bytes rule: from_utf8.induct)
  case (1 bytes)
  show ?case
    using 1 utf8_head_bounds [of bytes]
    by (subst from_utf8.simps, subst (asm) (2) from_utf8.simps)
      (auto simp: case_prod_unfold Let_def split: utf8_step.splits if_splits)
qed

lemma from_utf8_cut:
  "snd (from_utf8 bytes) = Some None \<Longrightarrow> length (concat (fst (from_utf8 bytes))) < length bytes"
proof (induction bytes rule: from_utf8.induct)
  case (1 bytes)
  show ?case
    using 1 utf8_head_bounds [of bytes]
    by (subst from_utf8.simps, subst (asm) (2) from_utf8.simps)
      (auto simp: case_prod_unfold Let_def split: utf8_step.splits if_splits)
qed

function display_path :: "string \<Rightarrow> string" where
  "display_path bytes =
     (if bytes = [] then []
      else let (chars, e) = from_utf8 bytes; valid_len = length (concat chars)
           in (case e of
                 None \<Rightarrow> push_display_text chars
               | Some error_len \<Rightarrow>
                   let invalid_len = (case error_len of Some n \<Rightarrow> n | None \<Rightarrow> length bytes - valid_len)
                   in push_display_text chars
                      @ concat (map escape_byte (take invalid_len (drop valid_len bytes)))
                      @ display_path (drop (valid_len + invalid_len) bytes)))"
  by pat_completeness auto

termination display_path
proof (relation "measure length")
  fix bytes :: string and p chars e valid_len error_len invalid_len
  assume "bytes \<noteq> []" "p = from_utf8 bytes" "(chars, e) = p" "valid_len = length (concat chars)"
    "e = Some error_len" "invalid_len = (case error_len of Some n \<Rightarrow> n | None \<Rightarrow> length bytes - valid_len)"
  then have "from_utf8 bytes = (chars, Some error_len)" "bytes \<noteq> []"
    and len: "valid_len = length (concat chars)"
      "invalid_len = (case error_len of Some n \<Rightarrow> n | None \<Rightarrow> length bytes - valid_len)" by simp_all
  then have "0 < valid_len + invalid_len"
    using from_utf8_error [of bytes invalid_len] from_utf8_cut [of bytes]
    by (cases error_len) simp_all
  then show "(drop (valid_len + invalid_len) bytes, bytes) \<in> measure length"
    using \<open>bytes \<noteq> []\<close> by simp
qed simp

declare display_path.simps [simp del]

text \<open>Character by character.\<close>

lemma display_Nil [simp]: "display_path [] = []"
  by (simp add: display_path.simps)

lemma display_whole:
  assumes "utf8_head bytes = Whole n"
  shows "display_path bytes = push_display_char (take n bytes) @ display_path (drop n bytes)"
proof -
  have n: "0 < n" "n \<le> length bytes" using utf8_head_bounds(1) [OF assms] by auto
  obtain chars e where rest: "from_utf8 (drop n bytes) = (chars, e)" by (cases "from_utf8 (drop n bytes)")
  have here: "from_utf8 bytes = (take n bytes # chars, e)"
    using n assms rest by (subst from_utf8.simps) auto
  have ne: "bytes \<noteq> []" using n by auto
  show ?thesis
  proof (cases "drop n bytes = []")
    case True
    then have "chars = []" "e = None" using rest by (simp_all add: from_utf8.simps)
    with ne True here show ?thesis
      by (simp add: display_path.simps [of bytes] push_display_text_def)
  next
    case False
    have len: "min (length bytes) n = n" using n by simp
    show ?thesis
      using False ne len n
      by (subst (1 2) display_path.simps)
        (simp add: here rest push_display_text_def drop_drop add.commute add.left_commute Let_def
          split: option.split)
  qed
qed

lemma display_invalid:
  assumes "utf8_head bytes = Invalid n"
  shows "display_path bytes = concat (map escape_byte (take n bytes)) @ display_path (drop n bytes)"
proof -
  have "bytes \<noteq> []" using utf8_head_bounds(2) [OF assms] by auto
  moreover from this assms have "from_utf8 bytes = ([], Some (Some n))" by (subst from_utf8.simps) simp
  ultimately show ?thesis by (subst display_path.simps) (simp add: push_display_text_def)
qed

lemma display_truncated:
  assumes "utf8_head bytes = Truncated"
  shows "display_path bytes = concat (map escape_byte bytes)"
proof (cases "bytes = []")
  case False
  with assms have "from_utf8 bytes = ([], Some None)" by (subst from_utf8.simps) simp
  with False show ?thesis by (subst display_path.simps) (simp add: push_display_text_def)
qed simp

text \<open>Induction over the sequences of a byte string.\<close>

lemma utf8_induct [case_names whole invalid truncated]:
  assumes "\<And>s n. utf8_head s = Whole n \<Longrightarrow> P (drop n s) \<Longrightarrow> P s"
    and "\<And>s n. utf8_head s = Invalid n \<Longrightarrow> P (drop n s) \<Longrightarrow> P s"
    and "\<And>s. utf8_head s = Truncated \<Longrightarrow> P s"
  shows "P s"
proof (induction s rule: length_induct)
  case (1 s)
  have "P (drop n s)" if "0 < n \<and> n \<le> length s" for n
  proof -
    have "length (drop n s) < length s" using that by auto
    with 1 show ?thesis by blast
  qed
  then show ?case
    using assms utf8_head_bounds by (cases "utf8_head s") blast+
qed

subsection \<open>Display is injective\<close>

definition hex_value :: "char \<Rightarrow> nat" where
  "hex_value c = (let n = of_char c :: nat in if n < 58 then n - 48 else n - 55)"

text \<open>A left inverse of the rendering.\<close>

fun unescape :: "string \<Rightarrow> string" where
  "unescape [] = []"
| "unescape (c # s) =
     (if c \<noteq> CHR 0x5C then c # unescape s
      else (case s of
              [] \<Rightarrow> []
            | d # s1 \<Rightarrow>
                if d = CHR 0x5C then CHR 0x5C # unescape s1
                else (case s1 of h # l # s2 \<Rightarrow> char_of (16 * hex_value h + hex_value l) # unescape s2 | _ \<Rightarrow> [])))"

lemma hex_value_digit: "n < 16 \<Longrightarrow> hex_value (hex_digit n) = n"
  by (simp add: hex_value_def hex_digit_def Let_def)

lemma unescape_escape: "unescape (escape_byte c @ r) = c # unescape r"
proof -
  have "(of_char c :: nat) < 256" by simp
  then have "(of_char c :: nat) div 16 < 16" "(of_char c :: nat) mod 16 < 16"
    by (auto intro: less_mult_imp_div_less)
  then have "hex_value (hex_digit (of_char c div 16)) = of_char c div 16"
      "hex_value (hex_digit (of_char c mod 16)) = of_char c mod 16"
    by (simp_all only: hex_value_digit)
  then show ?thesis
    by (simp add: escape_byte_def)
qed

lemma unescape_escapes: "unescape (concat (map escape_byte s) @ r) = s @ unescape r"
  by (induction s) (simp_all add: unescape_escape)

lemma unescape_plain: "CHR 0x5C \<notin> set s \<Longrightarrow> unescape (s @ r) = s @ unescape r"
  by (induction s) auto

text \<open>A character is a single ASCII byte or bytes from 0x80 up.\<close>

lemma utf8_head_char:
  "utf8_head s = Whole n \<Longrightarrow>
   (n = 1 \<and> (\<exists>c. take n s = [c] \<and> (of_char c :: nat) < 0x80)) \<or>
   (1 < n \<and> (\<forall>c \<in> set (take n s). 0x80 \<le> (of_char c :: nat)))"
  by (cases s)
    (auto simp: Let_def utf8_width_def cont_byte_def second_ok_def split: if_splits list.splits)

lemma unescape_display_char:
  assumes "utf8_head s = Whole n"
  shows "unescape (push_display_char (take n s) @ r) = take n s @ unescape r"
proof -
  have "CHR 0x5C \<notin> set (take n s)" if "take n s \<noteq> [CHR 0x5C]"
    using utf8_head_char [OF assms] that by fastforce
  then show ?thesis
    by (auto simp: push_display_char_def unescape_escapes unescape_plain)
qed

lemma unescape_display_path: "unescape (display_path s) = s"
proof (induction s rule: utf8_induct)
  case (whole s n)
  then show ?case by (simp add: display_whole unescape_display_char)
next
  case (invalid s n)
  then show ?case by (simp add: display_invalid unescape_escapes)
next
  case (truncated s)
  then show ?case using unescape_escapes [of s "[]"] by (simp add: display_truncated)
qed

text \<open>(C26) Rendering is injective: distinct pathname byte strings, valid UTF-8 or not, are never
  displayed as the same text, so activity of two files is never merged.\<close>

theorem display_path_injective: "display_path a = display_path b \<longleftrightarrow> a = b"
  by (metis unescape_display_path)

subsection \<open>Display is clean text\<close>

text \<open>Valid UTF-8 without control characters.\<close>

definition clean_text :: "string \<Rightarrow> bool" where
  "clean_text s \<longleftrightarrow> snd (from_utf8 s) = None \<and> list_all (\<lambda>ch. \<not> is_control ch) (fst (from_utf8 s))"

lemma clean_Nil [simp]: "clean_text []"
  by (simp add: clean_text_def from_utf8.simps)

lemma clean_whole:
  assumes "utf8_head s = Whole n" and "\<not> is_control (take n s)" and "clean_text (drop n s)"
  shows "clean_text s"
proof -
  have "0 < n" "s \<noteq> []" using utf8_head_bounds(1) [OF assms(1)] by auto
  then have "from_utf8 s = (take n s # fst (from_utf8 (drop n s)), snd (from_utf8 (drop n s)))"
    using assms(1) by (subst from_utf8.simps) (simp add: case_prod_unfold Let_def)
  then show ?thesis using assms(2,3) by (simp add: clean_text_def)
qed

lemma utf8_head_ascii: "(of_char c :: nat) < 0x80 \<Longrightarrow> utf8_head (c # s) = Whole 1"
  by (simp add: utf8_width_def Let_def)

lemma clean_ascii:
  "32 \<le> (of_char c :: nat) \<Longrightarrow> (of_char c :: nat) < 127 \<Longrightarrow> clean_text (c # s) = clean_text s"
proof -
  assume c: "32 \<le> (of_char c :: nat)" "(of_char c :: nat) < 127"
  have head: "utf8_head (c # s) = Whole 1" using c by (intro utf8_head_ascii) simp
  then have "from_utf8 (c # s) = ([c] # fst (from_utf8 s), snd (from_utf8 s))"
    by (subst from_utf8.simps) (simp add: case_prod_unfold Let_def)
  then show ?thesis using c by (simp add: clean_text_def is_control_def)
qed

lemma hex_digit_range: "n < 16 \<Longrightarrow> 48 \<le> (of_char (hex_digit n) :: nat) \<and> (of_char (hex_digit n) :: nat) < 71"
  by (simp add: hex_digit_def)

lemma clean_escape: "clean_text (escape_byte c @ r) = clean_text r"
proof -
  have "(of_char c :: nat) div 16 < 16" "(of_char c :: nat) mod 16 < 16"
    by (auto intro: less_mult_imp_div_less)
  from hex_digit_range [OF this(1)] hex_digit_range [OF this(2)]
  show ?thesis by (simp add: escape_byte_def clean_ascii)
qed

lemma clean_escapes: "clean_text (concat (map escape_byte s) @ r) = clean_text r"
  by (induction s) (simp_all add: clean_escape)

text \<open>The head by width, for case distinctions on the shape of the input.\<close>

lemma utf8_width_cases: "utf8_width c \<in> {0, 1, 2, 3, 4}"
  by (simp add: utf8_width_def Let_def)

lemma utf8_head_width:
  "utf8_width c = 0 \<Longrightarrow> utf8_head (c # s) = Invalid 1"
  "utf8_width c = 1 \<Longrightarrow> utf8_head (c # s) = Whole 1"
  "utf8_width c = 2 \<Longrightarrow> utf8_head [c] = Truncated"
  "utf8_width c = 3 \<Longrightarrow> utf8_head [c] = Truncated"
  "utf8_width c = 4 \<Longrightarrow> utf8_head [c] = Truncated"
  "utf8_width c = 2 \<Longrightarrow> utf8_head (c # d # s) = (if cont_byte d then Whole 2 else Invalid 1)"
  "utf8_width c = 3 \<Longrightarrow> utf8_head [c, d] = (if second_ok c d then Truncated else Invalid 1)"
  "utf8_width c = 4 \<Longrightarrow> utf8_head [c, d] = (if second_ok c d then Truncated else Invalid 1)"
  "utf8_width c = 3 \<Longrightarrow> utf8_head (c # d # e # s) =
     (if second_ok c d then if cont_byte e then Whole 3 else Invalid 2 else Invalid 1)"
  "utf8_width c = 4 \<Longrightarrow> utf8_head [c, d, e] =
     (if second_ok c d then if cont_byte e then Truncated else Invalid 2 else Invalid 1)"
  "utf8_width c = 4 \<Longrightarrow> utf8_head (c # d # e # f # s) =
     (if second_ok c d then if cont_byte e then if cont_byte f then Whole 4 else Invalid 3
      else Invalid 2 else Invalid 1)"
  by (simp_all add: Let_def)

declare utf8_head.simps(2) [simp del]

lemma four_cases:
  obtains "s = []" | c where "s = [c]" | c d where "s = [c, d]" | c d e where "s = [c, d, e]"
    | c d e f t where "s = c # d # e # f # t"
  by (metis list.exhaust)

text \<open>Every shape of the head: \<open>P\<close> need only be checked on the equations of \<open>utf8_head_width\<close>.\<close>

lemma utf8_width_elim:
  obtains "utf8_width c = 0" | "utf8_width c = 1" | "utf8_width c = 2" | "utf8_width c = 3" | "utf8_width c = 4"
  using utf8_width_cases [of c] by auto

lemma utf8_head_more_2: "utf8_head [c, d] \<noteq> Truncated \<Longrightarrow> utf8_head (c # d # r) = utf8_head [c, d]"
  by (cases r; cases "tl r"; cases rule: utf8_width_elim [of c])
    (simp_all add: utf8_head_width split: if_splits)

lemma utf8_head_more_3: "utf8_head [c, d, e] \<noteq> Truncated \<Longrightarrow> utf8_head (c # d # e # r) = utf8_head [c, d, e]"
  by (cases r; cases rule: utf8_width_elim [of c])
    (simp_all add: utf8_head_width split: if_splits)

lemma utf8_head_more:
  "utf8_head s \<noteq> Truncated \<Longrightarrow> utf8_head (s @ r) = utf8_head s"
proof (cases s rule: four_cases)
  case (2 c)
  assume "utf8_head s \<noteq> Truncated"
  with 2 show ?thesis
    by (cases rule: utf8_width_elim [of c]) (simp_all add: utf8_head_width)
next
  case (3 c d)
  assume "utf8_head s \<noteq> Truncated"
  with 3 show ?thesis using utf8_head_more_2 [of c d r] by simp
next
  case (4 c d e)
  assume "utf8_head s \<noteq> Truncated"
  with 4 show ?thesis using utf8_head_more_3 [of c d e r] by simp
next
  case (5 c d e f t)
  then show ?thesis
    by (cases rule: utf8_width_elim [of c]) (simp_all add: utf8_head_width)
qed simp

lemma utf8_head_self: "utf8_head s = Whole n \<Longrightarrow> utf8_head (take n s) = Whole n"
proof (cases s rule: four_cases)
  case (5 c d e f t)
  assume "utf8_head s = Whole n"
  with 5 show ?thesis
    by (cases rule: utf8_width_elim [of c])
      (auto simp: utf8_head_width split: if_splits)
next
  case (4 c d e)
  assume "utf8_head s = Whole n"
  with 4 show ?thesis
    by (cases rule: utf8_width_elim [of c])
      (auto simp: utf8_head_width split: if_splits)
next
  case (3 c d)
  assume "utf8_head s = Whole n"
  with 3 show ?thesis
    by (cases rule: utf8_width_elim [of c])
      (auto simp: utf8_head_width split: if_splits)
next
  case (2 c)
  assume "utf8_head s = Whole n"
  with 2 show ?thesis
    by (cases rule: utf8_width_elim [of c]) (auto simp: utf8_head_width)
qed simp

lemma utf8_head_take: "utf8_head s = Whole n \<Longrightarrow> utf8_head (take n s @ r) = Whole n"
  using utf8_head_more [of "take n s" r] utf8_head_self by simp

lemma clean_display_char:
  assumes "utf8_head s = Whole n" and "clean_text r"
  shows "clean_text (push_display_char (take n s) @ r)"
proof (cases "take n s = [CHR 0x5C] \<or> is_control (take n s)")
  case True
  then show ?thesis
    using assms(2) by (auto simp: push_display_char_def clean_escapes clean_ascii)
next
  case False
  have "n \<le> length s" using utf8_head_bounds(1) [OF assms(1)] by simp
  then have "clean_text (take n s @ r)"
    by (intro clean_whole [where n = n and s = "take n s @ r"])
      (use False assms in \<open>simp_all add: utf8_head_take\<close>)
  with False show ?thesis by (simp add: push_display_char_def)
qed

text \<open>Rendered paths are safe to show: whatever bytes a pathname holds, its rendering is valid
  UTF-8 without control characters, so no terminal sequence reaches the screen.\<close>

theorem display_path_clean: "clean_text (display_path s)"
proof (induction s rule: utf8_induct)
  case (whole s n)
  then show ?case by (simp add: display_whole clean_display_char)
next
  case (invalid s n)
  then show ?case by (simp add: display_invalid clean_escapes)
next
  case (truncated s)
  then show ?case using clean_escapes [of s "[]"] by (simp add: display_truncated)
qed

subsection \<open>Display keeps the components\<close>

lemma slash_not_cont: "\<not> cont_byte (CHR ''/'')" "\<not> second_ok c (CHR ''/'')"
  by (auto simp: cont_byte_def second_ok_def Let_def)

lemma utf8_head_append:
  "utf8_head s = Whole n \<Longrightarrow> utf8_head (s @ r) = Whole n"
  "utf8_head s = Invalid n \<Longrightarrow> utf8_head (s @ r) = Invalid n"
  using utf8_head_more [of s r] by auto

lemma utf8_head_cut:
  "utf8_head s = Truncated \<Longrightarrow> s \<noteq> [] \<Longrightarrow> utf8_head (s @ CHR ''/'' # r) = Invalid (length s)"
proof (cases s rule: four_cases)
  case (2 c)
  assume "utf8_head s = Truncated"
  with 2 show ?thesis
    by (cases rule: utf8_width_elim [of c]; cases r; cases "tl r") (auto simp: utf8_head_width slash_not_cont)
next
  case (3 c d)
  assume "utf8_head s = Truncated"
  with 3 show ?thesis
    by (cases rule: utf8_width_elim [of c]; cases r) (auto simp: utf8_head_width slash_not_cont split: if_splits)
next
  case (4 c d e)
  assume "utf8_head s = Truncated"
  with 4 show ?thesis
    by (cases rule: utf8_width_elim [of c]) (auto simp: utf8_head_width slash_not_cont split: if_splits)
next
  case (5 c d e f t)
  assume "utf8_head s = Truncated"
  with 5 show ?thesis
    by (cases rule: utf8_width_elim [of c]) (auto simp: utf8_head_width split: if_splits)
qed simp

lemma display_slash: "display_path (CHR ''/'' # s) = CHR ''/'' # display_path s"
proof -
  have "utf8_head (CHR ''/'' # s) = Whole 1" by (rule utf8_head_ascii) simp
  from display_whole [OF this] show ?thesis
    by (simp add: push_display_char_def is_control_def)
qed

lemma display_split: "display_path (s @ CHR ''/'' # r) = display_path s @ CHR ''/'' # display_path r"
proof (induction s rule: utf8_induct)
  case (whole s n)
  have "n \<le> length s" using utf8_head_bounds(1) [OF whole(1)] by simp
  with whole show ?case
    using display_whole [OF utf8_head_append(1) [OF whole(1)]] by (simp add: display_whole)
next
  case (invalid s n)
  have "n \<le> length s" using utf8_head_bounds(2) [OF invalid(1)] by simp
  with invalid show ?case
    using display_invalid [OF utf8_head_append(2) [OF invalid(1)]] by (simp add: display_invalid)
next
  case (truncated s)
  show ?case
  proof (cases "s = []")
    case False
    then show ?thesis
      using display_invalid [OF utf8_head_cut [OF truncated False]] truncated
      by (simp add: display_truncated display_slash)
  qed (simp add: display_slash)
qed

lemma display_join: "cs \<noteq> [] \<Longrightarrow> display_path (join_with ''/'' cs) = join_with ''/'' (map display_path cs)"
proof (induction cs)
  case (Cons c cs)
  then show ?case
    by (cases cs) (simp_all add: display_split)
qed simp

lemma display_no_slash: "CHR ''/'' \<notin> set s \<Longrightarrow> CHR ''/'' \<notin> set (display_path s)"
proof -
  have esc: "CHR ''/'' \<notin> set (escape_byte c)" for c
  proof -
    have "(of_char c :: nat) div 16 < 16" "(of_char c :: nat) mod 16 < 16"
      by (auto intro: less_mult_imp_div_less)
    from hex_digit_range [OF this(1)] hex_digit_range [OF this(2)]
    have "hex_digit (of_char c div 16) \<noteq> CHR ''/''" "hex_digit (of_char c mod 16) \<noteq> CHR ''/''"
      by fastforce+
    then show ?thesis by (auto simp: escape_byte_def)
  qed
  assume "CHR ''/'' \<notin> set s"
  then show ?thesis
  proof (induction s rule: utf8_induct)
    case (whole s n)
    then show ?case
      using esc by (auto simp: display_whole push_display_char_def dest: in_set_takeD in_set_dropD)
  next
    case (invalid s n)
    then show ?case using esc by (auto simp: display_invalid dest: in_set_dropD)
  next
    case (truncated s)
    then show ?case using esc by (auto simp: display_truncated)
  qed
qed

lemma display_normal: "normal_component c \<Longrightarrow> normal_component (display_path c)"
proof -
  assume c: "normal_component c"
  have "display_path c \<noteq> d" if "c \<noteq> d" "unescape d = d" for d
    using that unescape_display_path [of c] by auto
  with c show ?thesis
    by (auto simp: normal_component_def is_component_def display_no_slash)
qed

text \<open>A displayed path keeps its structure: the components of the text of a normalised path
  are the texts of the path's components, none empty, \<open>.\<close> or \<open>..\<close>, under a single root, so it is
  a path that the tree and the rate index file consistently.\<close>

theorem display_normalized_components:
  "path_components (display_path (normalize_absolute_path p)) = map display_path (normal_components p) \<and>
   list_all normal_component (map display_path (normal_components p)) \<and>
   take 2 (display_path (normalize_absolute_path p)) \<noteq> ''//''"
proof (intro conjI)
  let ?cs = "map display_path (normal_components p)"
  have shown: "display_path (normalize_absolute_path p) = CHR ''/'' # join_with ''/'' ?cs"
    by (cases "normal_components p = []") (simp_all add: normalize_absolute_eq display_slash display_join)
  show n: "list_all normal_component ?cs"
    using normal_components_normal [of p] by (auto simp: list_all_iff display_normal)
  show "path_components (display_path (normalize_absolute_path p)) = ?cs"
    unfolding shown by (rule path_components_join) (use n in \<open>auto simp: list_all_iff normal_component_def\<close>)
  show "take 2 (display_path (normalize_absolute_path p)) \<noteq> ''//''"
    using n unfolding shown
    by (cases ?cs; cases "tl ?cs") (auto simp: normal_component_def is_component_def neq_Nil_conv)
qed

subsection \<open>Pseudo paths\<close>

datatype pseudo_path = Ordinary | Ignore | Memory string

definition trim_deleted_suffix :: "string \<Rightarrow> string" where
  "trim_deleted_suffix path = (case strip_suffix '' (deleted)'' path of Some p \<Rightarrow> p | None \<Rightarrow> path)"

text \<open>\<open>replace('/', "\<dots>")\<close> with U+2215, whose UTF-8 bytes are E2 88 95.\<close>

definition replace_slash :: "string \<Rightarrow> string" where
  "replace_slash s = concat (map (\<lambda>c. if c = CHR ''/'' then [CHR 0xE2, CHR 0x88, CHR 0x95] else [c]) s)"

definition classify_pseudo_path :: "string \<Rightarrow> pseudo_path" where
  "classify_pseudo_path path =
     (let path = trim_deleted_suffix path;
          target = (case strip_prefix ''/'' path of Some t \<Rightarrow> t | None \<Rightarrow> path)
      in if starts_with ''socket:'' target \<or> starts_with ''pipe:'' target \<or> starts_with ''anon_inode:'' target
         then Ignore
         else (case strip_prefix ''memfd:'' target of
                 Some nm \<Rightarrow> Memory (''/[memory]/memfd:'' @ replace_slash (display_path nm))
               | None \<Rightarrow> Ordinary))"

definition unresolved_path :: "u32 \<Rightarrow> u32 \<Rightarrow> string \<Rightarrow> string" where
  "unresolved_path pid fd raw_path =
     (let raw_path = display_path (normalize_relative_path raw_path);
          base = ''/[unresolved]/pid-'' @ show_word pid @ ''/fd-'' @ show_word fd
      in if raw_path = [] then base else base @ ''/'' @ raw_path)"

lemma replace_slash_free: "CHR ''/'' \<notin> set (replace_slash s)"
  by (auto simp: replace_slash_def)

text \<open>A memory file is one component under \<open>/[memory]\<close>, whatever its name holds.\<close>

text \<open>A path that is spelt by its components under a single root: what the trees file.\<close>

definition canonical_path :: "string \<Rightarrow> bool" where
  "canonical_path p \<longleftrightarrow> p = CHR ''/'' # join_with ''/'' (path_components p)"

lemma canonical_join: "\<forall>c \<in> set cs. is_component c \<Longrightarrow> canonical_path (CHR ''/'' # join_with ''/'' cs)"
  by (simp only: canonical_path_def path_components_join)

lemma canonical_normalized: "canonical_path (display_path (normalize_absolute_path p))"
proof -
  let ?cs = "map display_path (normal_components p)"
  have "list_all normal_component ?cs"
    using normal_components_normal [of p] by (auto simp: list_all_iff display_normal)
  then have "canonical_path (CHR ''/'' # join_with ''/'' ?cs)"
    by (intro canonical_join) (auto simp: list_all_iff normal_component_def)
  then show ?thesis
    by (cases "normal_components p = []") (simp_all add: normalize_absolute_eq display_slash display_join)
qed

lemma memory_components:
  assumes "classify_pseudo_path path = Memory p"
  shows "\<exists>c. path_components p = [''[memory]'', c] \<and> is_component c \<and> canonical_path p"
proof -
  obtain nm where p: "p = ''/[memory]/memfd:'' @ replace_slash (display_path nm)"
    using assms by (auto simp: classify_pseudo_path_def Let_def split: if_splits option.splits)
  let ?c = "''memfd:'' @ replace_slash (display_path nm)"
  have c: "is_component ?c" using replace_slash_free by (auto simp: is_component_def)
  have form: "p = CHR ''/'' # join_with ''/'' [''[memory]'', ?c]" by (simp add: p)
  then have "path_components p = [''[memory]'', ?c]"
    using c by (simp only:) (rule path_components_join, auto simp: is_component_def)
  moreover from this form have "canonical_path p" by (simp only: canonical_path_def)
  ultimately show ?thesis using c by blast
qed

text \<open>An unresolved path names its process and descriptor in its first three components.\<close>

lemma show_nat_no_slash: "CHR ''/'' \<notin> set (show_nat n)"
  using show_nat_digits [of "CHR ''/''" n] by (auto simp: digit_value_def)

lemma unresolved_components:
  "path_components (unresolved_path pid fd raw) =
     [''[unresolved]'', ''pid-'' @ show_word pid, ''fd-'' @ show_word fd]
     @ map display_path (normal_components raw)"
  and canonical_unresolved: "canonical_path (unresolved_path pid fd raw)"
proof -
  let ?b = "[''[unresolved]'', ''pid-'' @ show_word pid, ''fd-'' @ show_word fd]"
  let ?cs = "map display_path (normal_components raw)"
  have n: "list_all normal_component ?cs"
    using normal_components_normal [of raw] by (auto simp: list_all_iff display_normal)
  have raw: "display_path (normalize_relative_path raw) = join_with ''/'' ?cs"
    by (cases "normal_components raw = []") (simp_all add: normalize_relative_path_def display_join)
  have empty: "join_with ''/'' ?cs = [] \<longleftrightarrow> ?cs = []" by (rule join_empty_iff [OF n])
  have "unresolved_path pid fd raw = CHR ''/'' # join_with ''/'' (?b @ ?cs)"
  proof (cases "?cs = []")
    case True
    then show ?thesis by (simp add: unresolved_path_def raw Let_def)
  next
    case False
    then have "join_with ''/'' (?b @ ?cs) =
        ''[unresolved]'' @ ''/'' @ (''pid-'' @ show_word pid) @ ''/'' @ (''fd-'' @ show_word fd) @ ''/'' @ join_with ''/'' ?cs"
      by (simp add: join_with_Cons)
    with False empty show ?thesis by (simp add: unresolved_path_def raw Let_def)
  qed
  moreover have "\<forall>c \<in> set (?b @ ?cs). is_component c"
    using n show_nat_no_slash by (auto simp: is_component_def show_word_def list_all_iff normal_component_def)
  ultimately show "path_components (unresolved_path pid fd raw) = ?b @ ?cs"
    "canonical_path (unresolved_path pid fd raw)" by (simp_all only: path_components_join canonical_join)
qed

end
