(* ===== verification/Fd_Cache.thy ===== *)
theory Fd_Cache
  imports Paths
begin

section \<open>The descriptor cache (ncda/src/bpf.rs, FdPathCache)\<close>

text \<open>
  \<open>FdPathCache\<close> and \<open>PathResolution\<close>. \<open>std::fs::read_link\<close> is the parameter \<open>read_link\<close>, from
  the text of a \<open>/proc\<close> link to its target bytes, or \<open>None\<close> when it cannot be read.
\<close>

record fd_cache =
  fc_map :: "((u32 \<times> u32) \<times> string) list"
  fc_roots :: "u32 \<rightharpoonup> string option"

datatype path_resolution = Resolved string | Unresolved string | Ignored

definition AT_FDCWD :: i32 where
  "AT_FDCWD = - 100"

definition new_fd_cache :: fd_cache where
  "new_fd_cache = \<lparr>fc_map = [], fc_roots = Map.empty\<rparr>"

text \<open>\<open>format!("{n}")\<close> of a signed integer.\<close>

definition show_signed :: "i32 \<Rightarrow> string" where
  "show_signed d = (if sint d < 0 then CHR ''-'' # show_nat (nat (- sint d)) else show_nat (nat (sint d)))"

definition proc_fd_link :: "u32 \<Rightarrow> string \<Rightarrow> string" where
  "proc_fd_link pid fd = ''/proc/'' @ show_word pid @ ''/fd/'' @ fd"

definition strip_root :: "string option \<Rightarrow> string \<Rightarrow> string" where
  "strip_root root host_path =
     (case root of
        None \<Rightarrow> host_path
      | Some r \<Rightarrow>
          if host_path = r then ''/''
          else if starts_with r host_path \<and> length r < length host_path \<and> host_path ! length r = CHR ''/''
               then drop (length r) host_path
               else host_path)"

definition strip_container_root ::
    "(string \<Rightarrow> string option) \<Rightarrow> u32 \<Rightarrow> string \<Rightarrow> fd_cache \<Rightarrow> string \<times> fd_cache" where
  "strip_container_root read_link pid host_path c =
     (let root = (case fc_roots c pid of
                    Some r \<Rightarrow> r
                  | None \<Rightarrow> (case read_link (''/proc/'' @ show_word pid @ ''/root'') of
                              None \<Rightarrow> None
                            | Some r \<Rightarrow> if r \<noteq> ''/'' then Some r else None))
      in (strip_root root host_path, c\<lparr>fc_roots := (fc_roots c)(pid \<mapsto> root)\<rparr>))"

definition resolve_proc_target ::
    "(string \<Rightarrow> string option) \<Rightarrow> u32 \<Rightarrow> u32 \<Rightarrow> fd_cache \<Rightarrow> path_resolution option \<times> fd_cache" where
  "resolve_proc_target read_link pid fd c =
     (case read_link (proc_fd_link pid (show_word fd)) of
        None \<Rightarrow> (None, c)
      | Some resolved \<Rightarrow>
          let path = trim_deleted_suffix resolved
          in (case classify_pseudo_path path of
                Ignore \<Rightarrow> (Some Ignored, c)
              | Memory p \<Rightarrow> (Some (Resolved p), c)
              | Ordinary \<Rightarrow>
                  if starts_with ''/'' path
                  then let (path, c) = strip_container_root read_link pid path c
                       in (Some (Resolved (display_path (normalize_absolute_path path))), c)
                  else (None, c)))"

definition resolve ::
    "(string \<Rightarrow> string option) \<Rightarrow> u32 \<Rightarrow> u32 \<Rightarrow> i32 \<Rightarrow> string \<Rightarrow> u16 \<Rightarrow> fd_cache \<Rightarrow> path_resolution \<times> fd_cache" where
  "resolve read_link pid fd dirfd raw_path path_flags c =
     (if path_flags \<noteq> 0 then (Unresolved (unresolved_path pid fd raw_path), c)
      else (case classify_pseudo_path raw_path of
              Ignore \<Rightarrow> (Ignored, c)
            | Memory p \<Rightarrow> (Resolved p, c)
            | Ordinary \<Rightarrow>
                if starts_with ''/'' raw_path
                then let (target, c) = resolve_proc_target read_link pid fd c
                     in if target = Some Ignored then (Ignored, c)
                        else (Resolved (display_path (normalize_absolute_path raw_path)), c)
                else (case read_link (if dirfd = AT_FDCWD then ''/proc/'' @ show_word pid @ ''/cwd''
                                      else proc_fd_link pid (show_signed dirfd)) of
                        None \<Rightarrow> (Unresolved (unresolved_path pid fd raw_path), c)
                      | Some base \<Rightarrow>
                          let (candidate, c) = strip_container_root read_link pid (base @ ''/'' @ raw_path) c;
                              expected = display_path (normalize_absolute_path candidate);
                              (target, c) = resolve_proc_target read_link pid fd c
                          in (case target of
                                Some (Resolved actual) \<Rightarrow>
                                  if actual = expected then (Resolved expected, c)
                                  else if starts_with ''/[memory]/'' actual then (Resolved actual, c)
                                  else (Unresolved (unresolved_path pid fd raw_path), c)
                              | Some Ignored \<Rightarrow> (Ignored, c)
                              | _ \<Rightarrow> (Unresolved (unresolved_path pid fd raw_path), c)))))"

definition resolve_existing ::
    "(string \<Rightarrow> string option) \<Rightarrow> u32 \<Rightarrow> u32 \<Rightarrow> fd_cache \<Rightarrow> path_resolution \<times> fd_cache" where
  "resolve_existing read_link pid fd c =
     (let (target, c) = resolve_proc_target read_link pid fd c
      in (case target of
            Some r \<Rightarrow> (r, c)
          | None \<Rightarrow> (Unresolved (''/[unresolved]/pid-'' @ show_word pid @ ''/fd-'' @ show_word fd), c)))"

definition fd_store :: "u32 \<Rightarrow> u32 \<Rightarrow> string \<Rightarrow> fd_cache \<Rightarrow> fd_cache" where
  "fd_store pid fd path c = c\<lparr>fc_map := AList.update (pid, fd) path (fc_map c)\<rparr>"

definition on_close :: "u32 \<Rightarrow> u32 \<Rightarrow> fd_cache \<Rightarrow> fd_cache" where
  "on_close pid fd c = c\<lparr>fc_map := AList.delete (pid, fd) (fc_map c)\<rparr>"

definition on_close_range :: "u32 \<Rightarrow> u32 \<Rightarrow> u32 \<Rightarrow> u32 \<Rightarrow> fd_cache \<Rightarrow> fd_cache" where
  "on_close_range pid first_fd last_fd flags c =
     (if flags AND CLOSE_RANGE_CLOEXEC \<noteq> 0 then c
      else c\<lparr>fc_map := filter (\<lambda>((entry_pid, fd), _). entry_pid \<noteq> pid \<or> fd < first_fd \<or> fd > last_fd) (fc_map c)\<rparr>)"

definition on_process_reset :: "u32 \<Rightarrow> fd_cache \<Rightarrow> fd_cache" where
  "on_process_reset pid c =
     c\<lparr>fc_map := filter (\<lambda>((entry_pid, _), _). entry_pid \<noteq> pid) (fc_map c),
       fc_roots := (fc_roots c)(pid := None)\<rparr>"

definition invalidate_all :: "fd_cache \<Rightarrow> fd_cache" where
  "invalidate_all c = c\<lparr>fc_map := [], fc_roots := Map.empty\<rparr>"

definition fd_lookup :: "u32 \<Rightarrow> u32 \<Rightarrow> fd_cache \<Rightarrow> string option" where
  "fd_lookup pid fd c = map_of (fc_map c) (pid, fd)"

definition fd_cache_len :: "fd_cache \<Rightarrow> nat" where
  "fd_cache_len c = length (fc_map c)"

definition fd_cache_is_empty :: "fd_cache \<Rightarrow> bool" where
  "fd_cache_is_empty c \<longleftrightarrow> fc_map c = []"

subsection \<open>The descriptor table contract\<close>

text \<open>
  What the event pipeline needs of a descriptor table: a lookup after a store, after a close and
  after a process reset. Its clients only compose these laws.
\<close>

locale descriptor_table =
  fixes lookup :: "'p \<Rightarrow> 'f::linorder \<Rightarrow> 's \<Rightarrow> 'v option"
    and store :: "'p \<Rightarrow> 'f \<Rightarrow> 'v \<Rightarrow> 's \<Rightarrow> 's"
    and close :: "'p \<Rightarrow> 'f \<Rightarrow> 's \<Rightarrow> 's"
    and close_range :: "'p \<Rightarrow> 'f \<Rightarrow> 'f \<Rightarrow> 's \<Rightarrow> 's"
    and forget :: "'p \<Rightarrow> 's \<Rightarrow> 's"
  assumes lookup_store: "lookup p f (store q g v s) = (if p = q \<and> f = g then Some v else lookup p f s)"
    and lookup_close: "lookup p f (close q g s) = (if p = q \<and> f = g then None else lookup p f s)"
    and lookup_close_range: "lookup p f (close_range q a b s) =
      (if p = q \<and> a \<le> f \<and> f \<le> b then None else lookup p f s)"
    and lookup_forget: "lookup p f (forget q s) = (if p = q then None else lookup p f s)"
begin

lemma close_as_range: "lookup p f (close q g s) = lookup p f (close_range q g g s)"
  by (auto simp: lookup_close lookup_close_range)

lemma store_then_range: "a \<le> g \<Longrightarrow> g \<le> b \<Longrightarrow>
    lookup p f (close_range q a b (store q g v s)) = lookup p f (close_range q a b s)"
  by (auto simp: lookup_store lookup_close_range)

lemma forget_store: "lookup p f (forget q (store q g v s)) = lookup p f (forget q s)"
  by (simp add: lookup_store lookup_forget)

text \<open>A range is the closes of its descriptors, in any order.\<close>

lemma lookup_closes: "lookup p f (fold (close q) gs s) = (if p = q \<and> f \<in> set gs then None else lookup p f s)"
  by (induction gs arbitrary: s) (auto simp: lookup_close)

lemma range_as_closes:
  "(\<And>g. g \<in> set gs \<longleftrightarrow> a \<le> g \<and> g \<le> b) \<Longrightarrow> lookup p f (close_range q a b s) = lookup p f (fold (close q) gs s)"
  by (simp add: lookup_closes lookup_close_range)

end

lemma map_of_filter_key: "map_of (filter (\<lambda>e. P (fst e)) al) k = (if P k then map_of al k else None)"
  by (induction al) auto

lemma fd_lookup_range:
  "fd_lookup p f (on_close_range q a b flags c) =
     (if flags AND CLOSE_RANGE_CLOEXEC = 0 \<and> p = q \<and> a \<le> f \<and> f \<le> b then None else fd_lookup p f c)"
proof -
  have "(\<lambda>((entry_pid, fd), _). entry_pid \<noteq> q \<or> fd < a \<or> fd > b) =
      (\<lambda>e :: (u32 \<times> u32) \<times> string. fst (fst e) \<noteq> q \<or> snd (fst e) < a \<or> snd (fst e) > b)"
    by auto
  then show ?thesis
    using map_of_filter_key [of "\<lambda>k. fst k \<noteq> q \<or> snd k < a \<or> snd k > b" "fc_map c" "(p, f)"]
    by (auto simp: fd_lookup_def on_close_range_def)
qed

interpretation fd_table: descriptor_table fd_lookup fd_store on_close
  "\<lambda>pid a b. on_close_range pid a b 0" on_process_reset
proof
  fix p f q g a b :: u32 and v and s
  show "fd_lookup p f (fd_store q g v s) = (if p = q \<and> f = g then Some v else fd_lookup p f s)"
    by (simp add: fd_lookup_def fd_store_def alist_simps)
  show "fd_lookup p f (on_close q g s) = (if p = q \<and> f = g then None else fd_lookup p f s)"
    by (simp add: fd_lookup_def on_close_def alist_simps)
  show "fd_lookup p f (on_close_range q a b 0 s) = (if p = q \<and> a \<le> f \<and> f \<le> b then None else fd_lookup p f s)"
    by (simp add: fd_lookup_range)
  have "(\<lambda>((entry_pid, _), _). entry_pid \<noteq> q) = (\<lambda>e :: (u32 \<times> u32) \<times> string. fst (fst e) \<noteq> q)" by auto
  then show "fd_lookup p f (on_process_reset q s) = (if p = q then None else fd_lookup p f s)"
    using map_of_filter_key [of "\<lambda>k. fst k \<noteq> q" "fc_map s" "(p, f)"]
    by (simp add: fd_lookup_def on_process_reset_def)
qed

subsection \<open>Descriptors over time\<close>

text \<open>The operations of the cache, and what each does to the map from descriptors to paths.\<close>

datatype fd_op =
  FdStore u32 u32 string
| FdClose u32 u32
| FdCloseRange u32 u32 u32 u32
| FdReset u32
| FdInvalidate
| FdResolve u32 u32 i32 string u16
| FdResolveExisting u32 u32

fun fd_step :: "(string \<Rightarrow> string option) \<Rightarrow> fd_op \<Rightarrow> fd_cache \<Rightarrow> fd_cache" where
  "fd_step rl (FdStore pid fd path) c = fd_store pid fd path c"
| "fd_step rl (FdClose pid fd) c = on_close pid fd c"
| "fd_step rl (FdCloseRange pid a b flags) c = on_close_range pid a b flags c"
| "fd_step rl (FdReset pid) c = on_process_reset pid c"
| "fd_step rl FdInvalidate c = invalidate_all c"
| "fd_step rl (FdResolve pid fd dirfd raw flags) c = snd (resolve rl pid fd dirfd raw flags c)"
| "fd_step rl (FdResolveExisting pid fd) c = snd (resolve_existing rl pid fd c)"

fun fd_spec :: "fd_op \<Rightarrow> (u32 \<times> u32 \<rightharpoonup> string) \<Rightarrow> (u32 \<times> u32 \<rightharpoonup> string)" where
  "fd_spec (FdStore pid fd path) m = m((pid, fd) \<mapsto> path)"
| "fd_spec (FdClose pid fd) m = m((pid, fd) := None)"
| "fd_spec (FdCloseRange pid a b flags) m =
     (if flags AND 4 \<noteq> 0 then m
      else (\<lambda>(p, f). if p = pid \<and> a \<le> f \<and> f \<le> b then None else m (p, f)))"
| "fd_spec (FdReset pid) m = (\<lambda>(p, f). if p = pid then None else m (p, f))"
| "fd_spec FdInvalidate m = Map.empty"
| "fd_spec _ m = m"

lemma strip_container_root_map [simp]: "fc_map (snd (strip_container_root rl pid h c)) = fc_map c"
  by (simp add: strip_container_root_def Let_def)

lemma resolve_proc_target_map [simp]: "fc_map (snd (resolve_proc_target rl pid fd c)) = fc_map c"
  by (simp add: resolve_proc_target_def Let_def case_prod_unfold split: option.split pseudo_path.split)

lemma resolve_map [simp]:
  "fc_map (snd (resolve rl pid fd dirfd raw flags c)) = fc_map c"
  "fc_map (snd (resolve_existing rl pid fd c)) = fc_map c"
  by (simp_all add: resolve_def resolve_existing_def Let_def case_prod_unfold
      split: option.split pseudo_path.split path_resolution.split)

lemma fd_step_spec: "(\<lambda>(p, f). fd_lookup p f (fd_step rl x c)) = fd_spec x (\<lambda>(p, f). fd_lookup p f c)"
  by (cases x)
    (auto simp: fun_eq_iff fd_table.lookup_store fd_table.lookup_close fd_table.lookup_forget fd_lookup_range
      CLOSE_RANGE_CLOEXEC_def invalidate_all_def, auto simp: fd_lookup_def)

text \<open>(C37) The cache is a descriptor table: after any sequence of opens, closes, range closes (with
  or without the close-on-exec flag), process resets, invalidations and path resolutions, looking
  up a descriptor returns what the abstract table of the same operations holds.\<close>

theorem fd_cache_refines_table:
  "fd_lookup pid fd (fold (fd_step rl) ops new_fd_cache) = fold fd_spec ops Map.empty (pid, fd)"
proof -
  have "(\<lambda>(p, f). fd_lookup p f (fold (fd_step rl) ops c)) = fold fd_spec ops (\<lambda>(p, f). fd_lookup p f c)" for c
    by (induction ops arbitrary: c) (simp_all add: fd_step_spec)
  moreover have "(\<lambda>(p, f). fd_lookup p f new_fd_cache) = Map.empty"
    by (auto simp: new_fd_cache_def fd_lookup_def)
  ultimately have "(\<lambda>(p, f). fd_lookup p f (fold (fd_step rl) ops new_fd_cache)) = fold fd_spec ops Map.empty"
    by metis
  from fun_cong [OF this, of "(pid, fd)"] show ?thesis by simp
qed

subsection \<open>Container roots\<close>

lemma join_prefix_boundary:
  assumes "\<forall>c \<in> set rs. is_component c" "\<forall>c \<in> set hs. is_component c" "rs \<noteq> []"
  shows "(hs = rs \<longleftrightarrow> join_with ''/'' hs = join_with ''/'' rs) \<and>
    ((\<exists>x. join_with ''/'' hs = join_with ''/'' rs @ ''/'' @ x) \<longleftrightarrow> (\<exists>ts. ts \<noteq> [] \<and> hs = rs @ ts))"
proof (intro conjI)
  have pc: "path_components (CHR ''/'' # join_with ''/'' hs) = hs" "path_components (CHR ''/'' # join_with ''/'' rs) = rs"
    using assms path_components_join by blast+
  then show "hs = rs \<longleftrightarrow> join_with ''/'' hs = join_with ''/'' rs" by metis
  show "(\<exists>x. join_with ''/'' hs = join_with ''/'' rs @ ''/'' @ x) \<longleftrightarrow> (\<exists>ts. ts \<noteq> [] \<and> hs = rs @ ts)"
  proof
    assume "\<exists>x. join_with ''/'' hs = join_with ''/'' rs @ ''/'' @ x"
    then obtain x where x: "join_with ''/'' hs = join_with ''/'' rs @ CHR ''/'' # x" by auto
    have ne: "hs \<noteq> []" using x by auto
    have "split_on (CHR ''/'') (join_with ''/'' hs) = split_on (CHR ''/'') (join_with ''/'' rs) @ split_on (CHR ''/'') x"
      unfolding x by (rule split_on_append)
    then have "hs = rs @ split_on (CHR ''/'') x"
      using assms ne by (simp add: split_on_join is_component_def)
    then show "\<exists>ts. ts \<noteq> [] \<and> hs = rs @ ts" by auto
  next
    assume "\<exists>ts. ts \<noteq> [] \<and> hs = rs @ ts"
    then obtain ts where ts: "ts \<noteq> []" "hs = rs @ ts" by blast
    have "join_with ''/'' (rs @ ts) = join_with ''/'' rs @ ''/'' @ join_with ''/'' ts"
      using assms(3) ts(1) by (rule join_with_append)
    with ts show "\<exists>x. join_with ''/'' hs = join_with ''/'' rs @ ''/'' @ x" by blast
  qed
qed

text \<open>A container's root is stripped at component boundaries only: a host path below the
  root becomes the path as the container sees it, and any other path, a sibling whose name merely
  extends the root's included, is unchanged.\<close>

theorem strip_root_components:
  assumes "\<forall>c \<in> set rs. is_component c" and "\<forall>c \<in> set hs. is_component c" and "rs \<noteq> []"
  shows "strip_root (Some (CHR ''/'' # join_with ''/'' rs)) (CHR ''/'' # join_with ''/'' hs) =
    CHR ''/'' # join_with ''/'' (if take (length rs) hs = rs then drop (length rs) hs else hs)"
proof -
  let ?r = "join_with ''/'' rs" and ?h = "join_with ''/'' hs"
  note b = join_prefix_boundary [OF assms]
  consider "hs = rs" | ts where "ts \<noteq> []" "hs = rs @ ts" | "\<not> prefix rs hs"
    by (auto simp: prefix_def)
  then show ?thesis
  proof cases
    case 1
    then show ?thesis by (simp add: strip_root_def)
  next
    case 2
    have "?h = ?r @ ''/'' @ join_with ''/'' ts"
      unfolding 2(2) using assms(3) 2(1) by (rule join_with_append)
    with 2 show ?thesis by (auto simp: strip_root_def nth_append starts_with_iff)
  next
    case 3
    then have "?h \<noteq> ?r" using b by auto
    moreover have "\<not> (\<exists>x. ?h = ?r @ ''/'' @ x)" using b 3 by auto
    then have "\<not> (starts_with (CHR ''/'' # ?r) (CHR ''/'' # ?h) \<and> length ?r < length ?h \<and> ?h ! length ?r = CHR ''/'')"
      by (auto simp: starts_with_iff) (metis append_Cons append_Nil neq_Nil_conv length_append less_add_same_cancel1
          length_greater_0_conv nth_append_length)
    moreover have "take (length rs) hs \<noteq> rs" using 3 by (metis take_is_prefix)
    ultimately show ?thesis by (auto simp: strip_root_def)
  qed
qed

lemma strip_root_components_witness:
  "strip_root (Some (CHR ''/'' # join_with ''/'' [''run'', ''rootfs''])) (CHR ''/'' # join_with ''/'' [''run'', ''rootfs'', ''etc'']) = ''/etc'' \<and>
   strip_root (Some ''/run/rootfs'') ''/run/rootfs2/etc'' = ''/run/rootfs2/etc''"
  using strip_root_components [of "[''run'', ''rootfs'']" "[''run'', ''rootfs'', ''etc'']"]
    strip_root_components [of "[''run'', ''rootfs'']" "[''run'', ''rootfs2'', ''etc'']"]
  by (simp add: is_component_def)

subsection \<open>What a resolution means\<close>

lemma strip_container_root_twice:
  "fst (resolve_proc_target rl pid fd (snd (strip_container_root rl pid h c))) = fst (resolve_proc_target rl pid fd c)"
  by (simp add: resolve_proc_target_def strip_container_root_def Let_def case_prod_unfold
      split: option.split pseudo_path.split)

definition absolute_path :: "string \<Rightarrow> bool" where
  "absolute_path path \<longleftrightarrow> starts_with ''/'' path"

text \<open>The text of a normalised absolute path, or of a memory file.\<close>

definition displayed_path :: "string \<Rightarrow> bool" where
  "displayed_path p \<longleftrightarrow> (\<exists>raw. p = display_path (normalize_absolute_path raw)) \<or>
     (\<exists>c. is_component c \<and> path_components p = [''[memory]'', c])"

lemma proc_target_displayed:
  "fst (resolve_proc_target rl pid fd c) = Some (Resolved p) \<Longrightarrow> displayed_path p"
  using memory_components
  by (fastforce simp: resolve_proc_target_def Let_def case_prod_unfold displayed_path_def
      split: option.splits pseudo_path.splits if_splits)

text \<open>(C22) A resolution is trustworthy. An incomplete capture (any flag set) is never resolved. A
  resolved path is the normalised raw path when that is absolute, a memory file, or, for a
  relative path, exactly the path procfs shows for the descriptor. A descriptor is ignored only
  if its raw path or its procfs target is a socket, pipe or anonymous inode. Everything else is
  filed under a path that names its process and descriptor.\<close>

theorem resolve_trustworthy:
  "case fst (resolve rl pid fd dirfd raw flags c) of
     Resolved p \<Rightarrow> flags = 0 \<and> displayed_path p \<and>
       (case classify_pseudo_path raw of
          Memory q \<Rightarrow> p = q
        | Ignore \<Rightarrow> False
        | Ordinary \<Rightarrow> if absolute_path raw then p = display_path (normalize_absolute_path raw)
                     else fst (resolve_proc_target rl pid fd c) = Some (Resolved p))
   | Ignored \<Rightarrow> flags = 0 \<and> (classify_pseudo_path raw = Ignore \<or>
       fst (resolve_proc_target rl pid fd c) = Some Ignored)
   | Unresolved p \<Rightarrow> path_components p =
       [''[unresolved]'', ''pid-'' @ show_word pid, ''fd-'' @ show_word fd] @ map display_path (normal_components raw)"
proof (cases "flags = 0")
  case False
  then show ?thesis by (simp add: resolve_def unresolved_components)
next
  case flags: True
  show ?thesis
  proof (cases "classify_pseudo_path raw")
    case Ignore
    with flags show ?thesis by (simp add: resolve_def)
  next
    case (Memory q)
    with flags memory_components [OF Memory] show ?thesis by (auto simp: resolve_def displayed_path_def)
  next
    case ord: Ordinary
    show ?thesis
    proof (cases "absolute_path raw")
      case True
      with flags ord show ?thesis
        by (auto simp: resolve_def absolute_path_def case_prod_unfold displayed_path_def Let_def)
    next
      case False
      let ?t = "fst (resolve_proc_target rl pid fd c)"
      from False flags ord show ?thesis
        using proc_target_displayed [of rl pid fd c]
        by (auto simp: resolve_def absolute_path_def case_prod_unfold Let_def strip_container_root_twice
            unresolved_components split: option.split path_resolution.split)
    qed
  qed
qed

text \<open>The raw pathname alone decides: a regular file that happens to be named like a pipe, opened by
  a relative path, is ignored whatever procfs says its descriptor is.\<close>

lemma regular_file_named_pipe_is_ignored:
  "resolve rl pid fd dirfd ''pipe:log'' 0 c = (Ignored, c)"
proof -
  have "trim_deleted_suffix ''pipe:log'' = ''pipe:log''"
    by (simp add: trim_deleted_suffix_def strip_suffix_def)
  then have "classify_pseudo_path ''pipe:log'' = Ignore"
    by (simp add: classify_pseudo_path_def starts_with_def)
  then show ?thesis by (simp add: resolve_def)
qed

end
