(* ===== verification/Wire.thy ===== *)
theory Wire
  imports Common
begin

section \<open>The ring-buffer wire format (ncda/src/bpf.rs parse_event; ncda-common layouts)\<close>

text \<open>
  The userspace parser and, for each \<open>repr(C)\<close> struct, the bytes the kernel side submits. Both
  sides run on one machine; its byte order is little endian on the two supported architectures.
  The theorems show that the parser accepts exactly the encodings of valid structs.
\<close>

fun le_bytes :: "nat \<Rightarrow> nat \<Rightarrow> string" where
  "le_bytes 0 v = []"
| "le_bytes (Suc n) v = char_of (v mod 256) # le_bytes n (v div 256)"

fun le_value :: "string \<Rightarrow> nat" where
  "le_value [] = 0"
| "le_value (c # cs) = of_char c + 256 * le_value cs"

definition put_word :: "nat \<Rightarrow> 'a::len word \<Rightarrow> string" where
  "put_word n w = le_bytes n (unat w)"

text \<open>\<open>from_ne_bytes(data[off..off + n])\<close>, for a slice inside the data.\<close>

definition get_word :: "nat \<Rightarrow> nat \<Rightarrow> string \<Rightarrow> 'a::len word" where
  "get_word n off data = of_nat (le_value (take n (drop off data)))"

subsection \<open>Struct layouts\<close>

definition encode_open :: "open_event \<Rightarrow> string" where
  "encode_open e = put_word 4 (oe_kind e) @ put_word 4 (oe_pid e) @ put_word 4 (oe_tid e) @ put_word 4 (oe_fd e)
     @ put_word 2 (oe_fname_len e) @ put_word 2 (oe_fname_flags e) @ put_word 4 (oe_dirfd e)
     @ put_word 8 (oe_emitted_ns e) @ oe_fname e"

definition encode_io :: "io_event \<Rightarrow> string" where
  "encode_io e = put_word 4 (ie_kind e) @ put_word 4 (ie_pid e) @ put_word 4 (ie_tid e) @ put_word 4 (ie_fd e)
     @ put_word 8 (ie_result e) @ put_word 8 (ie_latency_ns e) @ put_word 8 (ie_emitted_ns e)"

definition encode_fd :: "fd_event \<Rightarrow> string" where
  "encode_fd e = put_word 4 (fe_kind e) @ put_word 4 (fe_pid e) @ put_word 4 (fe_tid e) @ put_word 4 (fe_old_fd e)
     @ put_word 4 (fe_new_fd e) @ put_word 4 (fe_pad e) @ put_word 8 (fe_emitted_ns e)"

definition encode_range :: "range_event \<Rightarrow> string" where
  "encode_range e = put_word 4 (re_kind e) @ put_word 4 (re_pid e) @ put_word 4 (re_tid e) @ put_word 4 (re_first_fd e)
     @ put_word 4 (re_last_fd e) @ put_word 4 (re_flags e) @ put_word 8 (re_emitted_ns e)"

definition encode_process :: "process_event \<Rightarrow> string" where
  "encode_process e = put_word 4 (pe_kind e) @ put_word 4 (pe_pid e) @ put_word 8 (pe_emitted_ns e)"

subsection \<open>Parsed events\<close>

datatype bpf_event =
  OpenEv u32 u32 u32 i32 string u16 u64
| ReadEv u32 u32 u32 u64 i64 u64 u64
| WriteEv u32 u32 u32 u64 i64 u64 u64
| CloseEv u32 u32 u32 u64
| DupEv u32 u32 u32 u32 u64
| CloseRangeEv u32 u32 u32 u32 u32 u64
| ProcessExecEv u32 u64
| ProcessExitEv u32 u64

definition parse_open_event :: "string \<Rightarrow> bpf_event option" where
  "parse_open_event data =
     (if length data < 288 then None
      else let pid = get_word 4 4 data; tid = get_word 4 8 data; fd = get_word 4 12 data;
               fname_len = unat (get_word 2 16 data :: u16);
               path_flags = (get_word 2 18 data :: u16);
               dirfd = get_word 4 20 data
           in if fname_len > MAX_FNAME_LEN \<or> path_flags AND NOT PATH_KNOWN_FLAGS \<noteq> 0 then None
              else if path_flags AND PATH_READ_FAILED \<noteq> 0 \<and> fname_len \<noteq> 0 then None
              else let emitted_ns = get_word 8 24 data;
                       path = take fname_len (drop 32 data);
                       tail = take (MAX_FNAME_LEN - fname_len) (drop (32 + fname_len) data)
                   in if CHR 0x00 \<in> set path \<or> \<not> list_all (\<lambda>b. b = CHR 0x00) tail then None
                      else Some (OpenEv pid tid fd dirfd path path_flags emitted_ns))"

definition clamp_result :: "i64 \<Rightarrow> u64" where
  "clamp_result result = (if sint result < 0 then 0 else result)"

definition parse_io_event :: "string \<Rightarrow> u32 \<Rightarrow> bpf_event option" where
  "parse_io_event data kind =
     (if length data < 40 then None
      else let pid = get_word 4 4 data; tid = get_word 4 8 data; fd = get_word 4 12 data;
               result = get_word 8 16 data; bytes = clamp_result result;
               latency_ns = get_word 8 24 data; emitted_ns = get_word 8 32 data
           in if kind = EVENT_READ then Some (ReadEv pid tid fd bytes result latency_ns emitted_ns)
              else if kind = EVENT_WRITE then Some (WriteEv pid tid fd bytes result latency_ns emitted_ns)
              else if kind = EVENT_CLOSE then Some (CloseEv pid tid fd emitted_ns)
              else None)"

definition parse_fd_event :: "string \<Rightarrow> bpf_event option" where
  "parse_fd_event data =
     (if length data < 32 then None
      else Some (DupEv (get_word 4 4 data) (get_word 4 8 data) (get_word 4 12 data) (get_word 4 16 data)
                  (get_word 8 24 data)))"

definition parse_range_event :: "string \<Rightarrow> bpf_event option" where
  "parse_range_event data =
     (if length data < 32 then None
      else Some (CloseRangeEv (get_word 4 4 data) (get_word 4 8 data) (get_word 4 12 data) (get_word 4 16 data)
                  (get_word 4 20 data) (get_word 8 24 data)))"

definition parse_process_event :: "string \<Rightarrow> u32 \<Rightarrow> bpf_event option" where
  "parse_process_event data kind =
     (if length data < 16 then None
      else let pid = get_word 4 4 data; emitted_ns = get_word 8 8 data
           in if kind = EVENT_PROCESS_EXEC then Some (ProcessExecEv pid emitted_ns)
              else if kind = EVENT_PROCESS_EXIT then Some (ProcessExitEv pid emitted_ns)
              else None)"

definition dispatch_event :: "u32 \<Rightarrow> string \<Rightarrow> bpf_event option" where
  "dispatch_event kind data =
     (if kind = EVENT_OPEN then parse_open_event data
      else if kind = EVENT_READ then parse_io_event data EVENT_READ
      else if kind = EVENT_WRITE then parse_io_event data EVENT_WRITE
      else if kind = EVENT_CLOSE then parse_io_event data EVENT_CLOSE
      else if kind = EVENT_DUP then parse_fd_event data
      else if kind = EVENT_CLOSE_RANGE then parse_range_event data
      else if kind = EVENT_PROCESS_EXEC \<or> kind = EVENT_PROCESS_EXIT then parse_process_event data kind
      else None)"

definition parse_event :: "string \<Rightarrow> bpf_event option" where
  "parse_event data = (if length data < 4 then None else dispatch_event (get_word 4 0 data) data)"

subsection \<open>Words and bytes\<close>

lemma length_le_bytes [simp]: "length (le_bytes n v) = n"
  by (induction n v rule: le_bytes.induct) simp_all

lemma length_put_word [simp]: "length (put_word n w) = n"
  by (simp add: put_word_def)

lemma le_value_bytes: "le_value (le_bytes n v) = v mod 256 ^ n"
proof (induction n v rule: le_bytes.induct)
  case (2 n v)
  then show ?case by (simp add: mod_mult2_eq)
qed simp

lemma le_bytes_value: "le_bytes (length s) (le_value s) = s"
  by (induction s) (simp_all add: char_of_def [symmetric])

lemma le_value_less: "le_value s < 256 ^ length s"
proof (induction s)
  case (Cons c s)
  have "(of_char c :: nat) + 256 * le_value s < 256 * (le_value s + 1)"
    using nat_of_char_less_256 [of c] by (simp only: distrib_left mult_1_right add.commute nat_add_left_cancel_less)
  also have "\<dots> \<le> 256 * 256 ^ length s"
    using Cons by (intro mult_le_mono2) simp
  finally show ?case by simp
qed simp

lemma get_put:
  assumes "LENGTH('a) = 8 * n"
  shows "get_word n 0 (put_word n (w :: 'a::len word) @ r) = w"
proof -
  have "unat w < 256 ^ n" using unat_bound [of w] assms by (simp add: power_mult)
  then show ?thesis
    by (simp add: get_word_def put_word_def le_value_bytes)
qed

lemma get_skip: "length p \<le> off \<Longrightarrow> get_word n off (p @ r) = get_word n (off - length p) r"
  by (simp add: get_word_def)

lemma put_get:
  assumes "LENGTH('a) = 8 * n" and "off + n \<le> length data"
  shows "put_word n (get_word n off data :: 'a::len word) = take n (drop off data)"
proof -
  let ?s = "take n (drop off data)"
  have len: "length ?s = n" using assms(2) by simp
  have "le_value ?s < 2 ^ LENGTH('a)"
    using le_value_less [of ?s] len assms(1) by (simp add: power_mult)
  then have "unat (of_nat (le_value ?s) :: 'a word) = le_value ?s"
    by (simp add: unat_of_nat)
  then show ?thesis
    using le_bytes_value [of ?s] len by (simp add: put_word_def get_word_def)
qed

lemma slices: "take n (drop off data) @ take m (drop (off + n) data) = take (n + m) (drop off data)"
  by (metis add.commute drop_drop take_add)

subsection \<open>The record contract\<close>

text \<open>
  What the parser needs of each struct: a fixed size, and its kind in the first four bytes. The
  five structs provide it below; the layout sizes are those the ABI asserts at compile time.
\<close>

locale wire_struct =
  fixes encode :: "'e \<Rightarrow> string" and kind :: "'e \<Rightarrow> u32" and wf :: "'e \<Rightarrow> bool" and size :: nat
  assumes size_encode: "wf e \<Longrightarrow> length (encode e) = size"
    and kind_first: "\<exists>r. encode e = put_word 4 (kind e) @ r"
    and kind_fits: "4 \<le> size"
begin

lemma parse_dispatches: "wf e \<Longrightarrow> parse_event (encode e @ extra) = dispatch_event (kind e) (encode e @ extra)"
proof -
  assume "wf e"
  obtain r where r: "encode e = put_word 4 (kind e) @ r" using kind_first by blast
  have "get_word 4 0 (encode e @ extra) = kind e"
    using get_put [of 4 "kind e" "r @ extra"] by (simp add: r)
  moreover have "4 \<le> length (encode e @ extra)"
    using size_encode [OF \<open>wf e\<close>] kind_fits by simp
  ultimately show ?thesis by (simp add: parse_event_def)
qed

end

interpretation open_wire: wire_struct encode_open oe_kind "\<lambda>e. length (oe_fname e) = MAX_FNAME_LEN" 288
  by unfold_locales (auto simp: encode_open_def MAX_FNAME_LEN_def)

interpretation io_wire: wire_struct encode_io ie_kind "\<lambda>e. True" 40
  by unfold_locales (auto simp: encode_io_def)

interpretation fd_wire: wire_struct encode_fd fe_kind "\<lambda>e. True" 32
  by unfold_locales (auto simp: encode_fd_def)

interpretation range_wire: wire_struct encode_range re_kind "\<lambda>e. True" 32
  by unfold_locales (auto simp: encode_range_def)

interpretation process_wire: wire_struct encode_process pe_kind "\<lambda>e. True" 16
  by unfold_locales (auto simp: encode_process_def)

subsection \<open>The parser accepts exactly the encodings\<close>

datatype wire_record =
  WireOpen open_event | WireIo io_event | WireFd fd_event | WireRange range_event | WireProcess process_event

fun encode_record :: "wire_record \<Rightarrow> string" where
  "encode_record (WireOpen e) = encode_open e"
| "encode_record (WireIo e) = encode_io e"
| "encode_record (WireFd e) = encode_fd e"
| "encode_record (WireRange e) = encode_range e"
| "encode_record (WireProcess e) = encode_process e"

text \<open>The structs the kernel side may send.\<close>

definition valid_open :: "open_event \<Rightarrow> bool" where
  "valid_open e \<longleftrightarrow> oe_kind e = EVENT_OPEN \<and> length (oe_fname e) = MAX_FNAME_LEN \<and>
     unat (oe_fname_len e) \<le> MAX_FNAME_LEN \<and> oe_fname_flags e AND NOT PATH_KNOWN_FLAGS = 0 \<and>
     (oe_fname_flags e AND PATH_READ_FAILED \<noteq> 0 \<longrightarrow> oe_fname_len e = 0) \<and>
     CHR 0x00 \<notin> set (take (unat (oe_fname_len e)) (oe_fname e)) \<and>
     list_all (\<lambda>b. b = CHR 0x00) (drop (unat (oe_fname_len e)) (oe_fname e))"

fun valid_record :: "wire_record \<Rightarrow> bool" where
  "valid_record (WireOpen e) = valid_open e"
| "valid_record (WireIo e) = (ie_kind e \<in> {EVENT_READ, EVENT_WRITE, EVENT_CLOSE})"
| "valid_record (WireFd e) = (fe_kind e = EVENT_DUP)"
| "valid_record (WireRange e) = (re_kind e = EVENT_CLOSE_RANGE)"
| "valid_record (WireProcess e) = (pe_kind e \<in> {EVENT_PROCESS_EXEC, EVENT_PROCESS_EXIT})"

text \<open>What a struct means.\<close>

fun event_of :: "wire_record \<Rightarrow> bpf_event" where
  "event_of (WireOpen e) = OpenEv (oe_pid e) (oe_tid e) (oe_fd e) (oe_dirfd e)
     (take (unat (oe_fname_len e)) (oe_fname e)) (oe_fname_flags e) (oe_emitted_ns e)"
| "event_of (WireIo e) =
     (if ie_kind e = EVENT_READ then ReadEv (ie_pid e) (ie_tid e) (ie_fd e) (clamp_result (ie_result e))
        (ie_result e) (ie_latency_ns e) (ie_emitted_ns e)
      else if ie_kind e = EVENT_WRITE then WriteEv (ie_pid e) (ie_tid e) (ie_fd e) (clamp_result (ie_result e))
        (ie_result e) (ie_latency_ns e) (ie_emitted_ns e)
      else CloseEv (ie_pid e) (ie_tid e) (ie_fd e) (ie_emitted_ns e))"
| "event_of (WireFd e) = DupEv (fe_pid e) (fe_tid e) (fe_old_fd e) (fe_new_fd e) (fe_emitted_ns e)"
| "event_of (WireRange e) = CloseRangeEv (re_pid e) (re_tid e) (re_first_fd e) (re_last_fd e) (re_flags e)
     (re_emitted_ns e)"
| "event_of (WireProcess e) =
     (if pe_kind e = EVENT_PROCESS_EXEC then ProcessExecEv (pe_pid e) (pe_emitted_ns e)
      else ProcessExitEv (pe_pid e) (pe_emitted_ns e))"

lemmas wire_gets = get_skip get_put

lemma kind_neqs [simp]:
  "EVENT_OPEN \<noteq> EVENT_READ" "EVENT_OPEN \<noteq> EVENT_WRITE" "EVENT_READ \<noteq> EVENT_OPEN" "EVENT_READ \<noteq> EVENT_WRITE"
  "EVENT_WRITE \<noteq> EVENT_OPEN" "EVENT_WRITE \<noteq> EVENT_READ" "EVENT_CLOSE \<noteq> EVENT_OPEN" "EVENT_CLOSE \<noteq> EVENT_READ"
  "EVENT_CLOSE \<noteq> EVENT_WRITE" "EVENT_DUP \<noteq> EVENT_OPEN" "EVENT_DUP \<noteq> EVENT_READ" "EVENT_DUP \<noteq> EVENT_WRITE"
  "EVENT_DUP \<noteq> EVENT_CLOSE" "EVENT_PROCESS_EXIT \<noteq> EVENT_PROCESS_EXEC" "EVENT_PROCESS_EXEC \<noteq> EVENT_PROCESS_EXIT"
  by (simp_all add: event_kinds)

lemma dispatch_kinds:
  "dispatch_event EVENT_OPEN data = parse_open_event data"
  "dispatch_event EVENT_READ data = parse_io_event data EVENT_READ"
  "dispatch_event EVENT_WRITE data = parse_io_event data EVENT_WRITE"
  "dispatch_event EVENT_CLOSE data = parse_io_event data EVENT_CLOSE"
  "dispatch_event EVENT_DUP data = parse_fd_event data"
  "dispatch_event EVENT_CLOSE_RANGE data = parse_range_event data"
  "dispatch_event EVENT_PROCESS_EXEC data = parse_process_event data EVENT_PROCESS_EXEC"
  "dispatch_event EVENT_PROCESS_EXIT data = parse_process_event data EVENT_PROCESS_EXIT"
  by (simp_all add: dispatch_event_def event_kinds)

lemma parse_open_encoded:
  assumes "valid_open e"
  shows "parse_open_event (encode_open e @ extra) = Some (event_of (WireOpen e))"
proof -
  let ?d = "encode_open e @ extra" and ?n = "unat (oe_fname_len e)"
  have len: "length (oe_fname e) = 256" "?n \<le> 256" using assms by (auto simp: valid_open_def MAX_FNAME_LEN_def)
  then have "length ?d \<ge> 288" by (simp add: encode_open_def)
  moreover have gets: "get_word 4 4 ?d = oe_pid e" "get_word 4 8 ?d = oe_tid e" "get_word 4 12 ?d = oe_fd e"
      "get_word 2 16 ?d = oe_fname_len e" "get_word 2 18 ?d = oe_fname_flags e" "get_word 4 20 ?d = oe_dirfd e"
      "get_word 8 24 ?d = oe_emitted_ns e"
    by (simp_all add: encode_open_def wire_gets)
  moreover have d32: "drop 32 ?d = oe_fname e @ extra" by (simp add: encode_open_def)
  have "drop (32 + ?n) ?d = drop ?n (drop 32 ?d)" by (simp only: drop_drop add.commute)
  then have "take ?n (drop 32 ?d) = take ?n (oe_fname e)"
      "take (256 - ?n) (drop (32 + ?n) ?d) = drop ?n (oe_fname e)"
    unfolding d32 using len by simp_all
  ultimately show ?thesis
    using assms len by (auto simp: parse_open_event_def Let_def valid_open_def MAX_FNAME_LEN_def unat_eq_zero)
qed

lemma parse_io_encoded:
  assumes "ie_kind e \<in> {EVENT_READ, EVENT_WRITE, EVENT_CLOSE}"
  shows "parse_io_event (encode_io e @ extra) (ie_kind e) = Some (event_of (WireIo e))"
proof -
  let ?d = "encode_io e @ extra"
  have "get_word 4 4 ?d = ie_pid e" "get_word 4 8 ?d = ie_tid e" "get_word 4 12 ?d = ie_fd e"
      "get_word 8 16 ?d = ie_result e" "get_word 8 24 ?d = ie_latency_ns e" "get_word 8 32 ?d = ie_emitted_ns e"
    by (simp_all add: encode_io_def wire_gets)
  moreover have "\<not> length ?d < 40" by (simp add: encode_io_def)
  ultimately have "parse_io_event ?d k =
      (if k = EVENT_READ then Some (ReadEv (ie_pid e) (ie_tid e) (ie_fd e) (clamp_result (ie_result e))
         (ie_result e) (ie_latency_ns e) (ie_emitted_ns e))
       else if k = EVENT_WRITE then Some (WriteEv (ie_pid e) (ie_tid e) (ie_fd e) (clamp_result (ie_result e))
         (ie_result e) (ie_latency_ns e) (ie_emitted_ns e))
       else if k = EVENT_CLOSE then Some (CloseEv (ie_pid e) (ie_tid e) (ie_fd e) (ie_emitted_ns e))
       else None)" for k
    unfolding parse_io_event_def Let_def by (simp only: if_False)
  then show ?thesis using assms by (elim insertE emptyE) simp_all
qed

lemma parse_fd_encoded: "parse_fd_event (encode_fd e @ extra) = Some (event_of (WireFd e))"
proof -
  let ?d = "encode_fd e @ extra"
  have "get_word 4 4 ?d = fe_pid e" "get_word 4 8 ?d = fe_tid e" "get_word 4 12 ?d = fe_old_fd e"
      "get_word 4 16 ?d = fe_new_fd e" "get_word 8 24 ?d = fe_emitted_ns e"
    by (simp_all add: encode_fd_def wire_gets)
  moreover have "\<not> length ?d < 32" by (simp add: encode_fd_def)
  ultimately show ?thesis unfolding parse_fd_event_def by (simp only: if_False event_of.simps)
qed

lemma parse_range_encoded: "parse_range_event (encode_range e @ extra) = Some (event_of (WireRange e))"
proof -
  let ?d = "encode_range e @ extra"
  have "get_word 4 4 ?d = re_pid e" "get_word 4 8 ?d = re_tid e" "get_word 4 12 ?d = re_first_fd e"
      "get_word 4 16 ?d = re_last_fd e" "get_word 4 20 ?d = re_flags e" "get_word 8 24 ?d = re_emitted_ns e"
    by (simp_all add: encode_range_def wire_gets)
  moreover have "\<not> length ?d < 32" by (simp add: encode_range_def)
  ultimately show ?thesis unfolding parse_range_event_def by (simp only: if_False event_of.simps)
qed

lemma parse_process_encoded:
  assumes "pe_kind e \<in> {EVENT_PROCESS_EXEC, EVENT_PROCESS_EXIT}"
  shows "parse_process_event (encode_process e @ extra) (pe_kind e) = Some (event_of (WireProcess e))"
proof -
  let ?d = "encode_process e @ extra"
  have "get_word 4 4 ?d = pe_pid e" "get_word 8 8 ?d = pe_emitted_ns e"
    by (simp_all add: encode_process_def wire_gets)
  moreover have "\<not> length ?d < 16" by (simp add: encode_process_def)
  ultimately have "parse_process_event ?d k =
      (if k = EVENT_PROCESS_EXEC then Some (ProcessExecEv (pe_pid e) (pe_emitted_ns e))
       else if k = EVENT_PROCESS_EXIT then Some (ProcessExitEv (pe_pid e) (pe_emitted_ns e)) else None)" for k
    unfolding parse_process_event_def Let_def by (simp only: if_False)
  then show ?thesis using assms by (elim insertE emptyE) simp_all
qed

lemma parse_encoded:
  assumes "valid_record w"
  shows "parse_event (encode_record w @ extra) = Some (event_of w)"
proof (cases w)
  case (WireOpen e)
  with assms have v: "valid_open e" by simp
  then have "length (oe_fname e) = MAX_FNAME_LEN" "oe_kind e = EVENT_OPEN" by (simp_all add: valid_open_def)
  with WireOpen show ?thesis
    using open_wire.parse_dispatches [of e extra] parse_open_encoded [OF v]
    by (simp only: encode_record.simps dispatch_kinds)
next
  case (WireIo e)
  with assms have k: "ie_kind e \<in> {EVENT_READ, EVENT_WRITE, EVENT_CLOSE}" by simp
  then have "dispatch_event (ie_kind e) d = parse_io_event d (ie_kind e)" for d
    by (elim insertE emptyE) (simp_all only: dispatch_kinds)
  with WireIo show ?thesis
    using io_wire.parse_dispatches [of e extra] parse_io_encoded [OF k] by (simp only: encode_record.simps)
next
  case (WireFd e)
  with assms have "fe_kind e = EVENT_DUP" by simp
  with WireFd show ?thesis
    using fd_wire.parse_dispatches [of e extra] by (simp only: encode_record.simps dispatch_kinds parse_fd_encoded)
next
  case (WireRange e)
  with assms have "re_kind e = EVENT_CLOSE_RANGE" by simp
  with WireRange show ?thesis
    using range_wire.parse_dispatches [of e extra]
    by (simp only: encode_record.simps dispatch_kinds parse_range_encoded)
next
  case (WireProcess e)
  with assms have k: "pe_kind e \<in> {EVENT_PROCESS_EXEC, EVENT_PROCESS_EXIT}" by simp
  then have "dispatch_event (pe_kind e) d = parse_process_event d (pe_kind e)" for d
    by (elim insertE emptyE) (simp_all only: dispatch_kinds)
  with WireProcess show ?thesis
    using process_wire.parse_dispatches [of e extra] parse_process_encoded [OF k]
    by (simp only: encode_record.simps)
qed

text \<open>Reading a struct back from the data.\<close>

definition open_of :: "string \<Rightarrow> open_event" where
  "open_of data = \<lparr>oe_kind = get_word 4 0 data, oe_pid = get_word 4 4 data, oe_tid = get_word 4 8 data,
     oe_fd = get_word 4 12 data, oe_fname_len = get_word 2 16 data, oe_fname_flags = get_word 2 18 data,
     oe_dirfd = get_word 4 20 data, oe_emitted_ns = get_word 8 24 data, oe_fname = take 256 (drop 32 data)\<rparr>"

definition io_of :: "string \<Rightarrow> io_event" where
  "io_of data = \<lparr>ie_kind = get_word 4 0 data, ie_pid = get_word 4 4 data, ie_tid = get_word 4 8 data,
     ie_fd = get_word 4 12 data, ie_result = get_word 8 16 data, ie_latency_ns = get_word 8 24 data,
     ie_emitted_ns = get_word 8 32 data\<rparr>"

definition fd_of :: "string \<Rightarrow> fd_event" where
  "fd_of data = \<lparr>fe_kind = get_word 4 0 data, fe_pid = get_word 4 4 data, fe_tid = get_word 4 8 data,
     fe_old_fd = get_word 4 12 data, fe_new_fd = get_word 4 16 data, fe_pad = get_word 4 20 data,
     fe_emitted_ns = get_word 8 24 data\<rparr>"

definition range_of :: "string \<Rightarrow> range_event" where
  "range_of data = \<lparr>re_kind = get_word 4 0 data, re_pid = get_word 4 4 data, re_tid = get_word 4 8 data,
     re_first_fd = get_word 4 12 data, re_last_fd = get_word 4 16 data, re_flags = get_word 4 20 data,
     re_emitted_ns = get_word 8 24 data\<rparr>"

definition process_of :: "string \<Rightarrow> process_event" where
  "process_of data = \<lparr>pe_kind = get_word 4 0 data, pe_pid = get_word 4 4 data, pe_emitted_ns = get_word 8 8 data\<rparr>"

lemma slice_step: "take n data @ take m (drop n data) = take (n + m) data"
  by (simp add: take_add)

lemma put_get_at:
  "LENGTH('a) = 8 * n \<Longrightarrow> off + n \<le> length data \<Longrightarrow>
   take off data @ put_word n (get_word n off data :: 'a::len word) = take (off + n) data"
  by (simp add: put_get slice_step)

lemma encode_io_of: "40 \<le> length data \<Longrightarrow> encode_io (io_of data) = take 40 data"
  using put_get_at [of 4 0 data, where 'a = 32] put_get_at [of 4 4 data, where 'a = 32] put_get_at [of 4 8 data, where 'a = 32]
    put_get_at [of 4 12 data, where 'a = 32] put_get_at [of 8 16 data, where 'a = 64] put_get_at [of 8 24 data, where 'a = 64]
    put_get_at [of 8 32 data, where 'a = 64]
  by (simp add: encode_io_def io_of_def) (metis append.assoc)

lemma encode_fd_of: "32 \<le> length data \<Longrightarrow> encode_fd (fd_of data) = take 32 data"
  using put_get_at [of 4 0 data, where 'a = 32] put_get_at [of 4 4 data, where 'a = 32] put_get_at [of 4 8 data, where 'a = 32]
    put_get_at [of 4 12 data, where 'a = 32] put_get_at [of 4 16 data, where 'a = 32] put_get_at [of 4 20 data, where 'a = 32]
    put_get_at [of 8 24 data, where 'a = 64]
  by (simp add: encode_fd_def fd_of_def) (metis append.assoc)

lemma encode_range_of: "32 \<le> length data \<Longrightarrow> encode_range (range_of data) = take 32 data"
  using put_get_at [of 4 0 data, where 'a = 32] put_get_at [of 4 4 data, where 'a = 32] put_get_at [of 4 8 data, where 'a = 32]
    put_get_at [of 4 12 data, where 'a = 32] put_get_at [of 4 16 data, where 'a = 32] put_get_at [of 4 20 data, where 'a = 32]
    put_get_at [of 8 24 data, where 'a = 64]
  by (simp add: encode_range_def range_of_def) (metis append.assoc)

lemma encode_process_of: "16 \<le> length data \<Longrightarrow> encode_process (process_of data) = take 16 data"
  using put_get_at [of 4 0 data, where 'a = 32] put_get_at [of 4 4 data, where 'a = 32] put_get_at [of 8 8 data, where 'a = 64]
  by (simp add: encode_process_def process_of_def) (metis append.assoc)

lemma encode_open_of: "288 \<le> length data \<Longrightarrow> encode_open (open_of data) = take 288 data"
  using put_get_at [of 4 0 data, where 'a = 32] put_get_at [of 4 4 data, where 'a = 32] put_get_at [of 4 8 data, where 'a = 32]
    put_get_at [of 4 12 data, where 'a = 32] put_get_at [of 2 16 data, where 'a = 16] put_get_at [of 2 18 data, where 'a = 16]
    put_get_at [of 4 20 data, where 'a = 32] put_get_at [of 8 24 data, where 'a = 64] slice_step [of 32 data 256]
  by (simp add: encode_open_def open_of_def) (metis append.assoc)

lemma parse_open_accepts:
  assumes "parse_open_event data = Some ev" and "get_word 4 0 data = EVENT_OPEN"
  shows "288 \<le> length data \<and> valid_open (open_of data) \<and> event_of (WireOpen (open_of data)) = ev"
proof -
  let ?n = "unat (get_word 2 16 data :: u16)"
  have len: "288 \<le> length data" using assms(1) by (auto simp: parse_open_event_def split: if_splits)
  have n: "?n \<le> 256" using assms(1) by (auto simp: parse_open_event_def Let_def MAX_FNAME_LEN_def split: if_splits)
  have name: "take ?n (take 256 (drop 32 data)) = take ?n (drop 32 data)"
    "drop ?n (take 256 (drop 32 data)) = take (256 - ?n) (drop (32 + ?n) data)"
    using n by (simp_all add: drop_take add.commute)
  show ?thesis
    using assms len n name
    by (auto simp: parse_open_event_def Let_def MAX_FNAME_LEN_def valid_open_def open_of_def unat_eq_zero
        split: if_splits)
qed

lemma parse_kind_accepts:
  assumes "parse_event data = Some ev"
  shows "\<exists>w n. valid_record w \<and> encode_record w = take n data \<and> event_of w = ev"
proof -
  let ?k = "get_word 4 0 data :: u32"
  have d: "dispatch_event ?k data = Some ev"
    using assms by (auto simp: parse_event_def split: if_splits)
  then consider "?k = EVENT_OPEN" "parse_open_event data = Some ev"
    | "?k \<in> {EVENT_READ, EVENT_WRITE, EVENT_CLOSE}" "parse_io_event data ?k = Some ev"
    | "?k = EVENT_DUP" "parse_fd_event data = Some ev"
    | "?k = EVENT_CLOSE_RANGE" "parse_range_event data = Some ev"
    | "?k \<in> {EVENT_PROCESS_EXEC, EVENT_PROCESS_EXIT}" "parse_process_event data ?k = Some ev"
    unfolding dispatch_event_def by (auto split: if_splits)
  then show ?thesis
  proof cases
    case 1
    with parse_open_accepts [OF 1(2,1)] show ?thesis
      by (intro exI [of _ "WireOpen (open_of data)"] exI [of _ 288]) (simp add: encode_open_of)
  next
    case 2
    then have "40 \<le> length data" by (auto simp: parse_io_event_def split: if_splits)
    moreover have "event_of (WireIo (io_of data)) = ev"
      using 2 by (auto simp: parse_io_event_def Let_def io_of_def split: if_splits)
    ultimately show ?thesis
      using 2 by (intro exI [of _ "WireIo (io_of data)"] exI [of _ 40])
        (simp add: encode_io_of, simp add: io_of_def)
  next
    case 3
    then show ?thesis
      by (intro exI [of _ "WireFd (fd_of data)"] exI [of _ 32])
        (auto simp: parse_fd_event_def encode_fd_of split: if_splits, auto simp: fd_of_def)
  next
    case 4
    then show ?thesis
      by (intro exI [of _ "WireRange (range_of data)"] exI [of _ 32])
        (auto simp: parse_range_event_def encode_range_of split: if_splits, auto simp: range_of_def)
  next
    case 5
    then have "16 \<le> length data" by (auto simp: parse_process_event_def split: if_splits)
    moreover have "event_of (WireProcess (process_of data)) = ev"
      using 5 by (auto simp: parse_process_event_def Let_def process_of_def split: if_splits)
    ultimately show ?thesis
      using 5 by (intro exI [of _ "WireProcess (process_of data)"] exI [of _ 16])
        (simp add: encode_process_of, simp add: process_of_def)
  qed
qed

text \<open>(C6) The parser accepts exactly the encodings of valid structs: data parses to an event if
  and only if it begins with the \<open>repr(C)\<close> bytes of a struct the kernel side may send (path
  lengths, flags, NUL bytes and padding included) that means that event. Everything else, short,
  oversized or inconsistent, is rejected.\<close>

theorem parse_event_exact:
  "parse_event data = Some ev \<longleftrightarrow>
     (\<exists>w extra. valid_record w \<and> data = encode_record w @ extra \<and> event_of w = ev)"
proof
  assume "parse_event data = Some ev"
  then obtain w n where "valid_record w" "encode_record w = take n data" "event_of w = ev"
    using parse_kind_accepts by blast
  then show "\<exists>w extra. valid_record w \<and> data = encode_record w @ extra \<and> event_of w = ev"
    by (intro exI [of _ w] exI [of _ "drop n data"]) simp
next
  assume "\<exists>w extra. valid_record w \<and> data = encode_record w @ extra \<and> event_of w = ev"
  then show "parse_event data = Some ev" using parse_encoded by auto
qed

end
