(* ===== verification/Capture.thy ===== *)
theory Capture
  imports Wire
begin

section \<open>The kernel side (ncda-ebpf/src/main.rs)\<close>

text \<open>
  The eBPF programs, one step of the machine per invocation. What the kernel's helpers return
  (the current thread, the clock, probe reads, whether a map insertion or a ring submission
  succeeds) is the input \<open>kctx\<close> of the step. The stashes are maps from \<open>pid_tgid\<close>, the ring is
  the list of the records submitted, and the counters are per CPU. The per-CPU scratch buffers
  hold nothing between invocations that a later one reads: each field is written before it is
  used, so they are local to a step.
\<close>

datatype arch_name = X86_64 | Aarch64

record arch =
  arch_of :: arch_name
  nr_read :: i64
  nr_write :: i64
  nr_close :: i64
  nr_pread64 :: i64
  nr_pwrite64 :: i64
  nr_readv :: i64
  nr_writev :: i64
  nr_dup :: i64
  nr_dup2 :: i64
  nr_dup3 :: i64
  nr_fcntl :: i64
  nr_close_range :: i64
  nr_preadv :: i64
  nr_pwritev :: i64
  nr_preadv2 :: i64
  nr_pwritev2 :: i64
  nr_openat :: i64
  nr_openat2 :: i64
  arg_registers :: "nat list"

definition x86_64 :: arch where
  "x86_64 =
     \<lparr>arch_of = X86_64, nr_read = 0, nr_write = 1, nr_close = 3, nr_pread64 = 17, nr_pwrite64 = 18,
      nr_readv = 19, nr_writev = 20, nr_dup = 32, nr_dup2 = 33, nr_dup3 = 292, nr_fcntl = 72,
      nr_close_range = 436, nr_preadv = 295, nr_pwritev = 296, nr_preadv2 = 327, nr_pwritev2 = 328,
      nr_openat = 257, nr_openat2 = 437, arg_registers = [14, 13, 12]\<rparr>"

definition aarch64 :: arch where
  "aarch64 =
     \<lparr>arch_of = Aarch64, nr_read = 63, nr_write = 64, nr_close = 57, nr_pread64 = 67, nr_pwrite64 = 68,
      nr_readv = 65, nr_writev = 66, nr_dup = 23, nr_dup2 = - 1, nr_dup3 = 24, nr_fcntl = 25,
      nr_close_range = 436, nr_preadv = 69, nr_pwritev = 70, nr_preadv2 = 286, nr_pwritev2 = 287,
      nr_openat = 56, nr_openat2 = 437, arg_registers = [0, 1, 2]\<rparr>"

definition X32_SYSCALL_BIT :: i64 where
  "X32_SYSCALL_BIT = 0x40000000"

definition TS_COMPAT :: u32 where
  "TS_COMPAT = 2"

definition PSR_MODE32_BIT :: u64 where
  "PSR_MODE32_BIT = 0x10"

text \<open>
  What one invocation is given: a register's probe read by index, the saved syscall number (a
  64-bit read on x86_64, a 32-bit one on aarch64), the words the ABI check reads, and the
  pathname buffer after \<open>bpf_probe_read_user_str_bytes\<close> with the length it returned.
\<close>

record kctx =
  k_cpu :: nat
  k_pid_tgid :: u64
  k_ktime :: u64
  k_register :: "nat \<Rightarrow> u64 option"
  k_sysno64 :: "u64 option"
  k_sysno32 :: "i32 option"
  k_task_status :: "u32 option"
  k_pstate :: "u64 option"
  k_filename :: "nat option"
  k_buffer :: string
  k_scratch :: bool
  k_event_buf :: bool
  k_stats :: bool
  k_insert :: bool
  k_output :: bool

record kstate =
  ks_open :: "u64 \<rightharpoonup> open_args"
  ks_io :: "u64 \<rightharpoonup> rw_args"
  ks_close :: "u64 \<rightharpoonup> fd_args"
  ks_dup :: "u64 \<rightharpoonup> fd_args"
  ks_range :: "u64 \<rightharpoonup> range_args"
  ks_ring :: "string list"
  ks_stats :: "nat \<Rightarrow> capture_stats"

definition init_kstate :: kstate where
  "init_kstate =
     \<lparr>ks_open = Map.empty, ks_io = Map.empty, ks_close = Map.empty, ks_dup = Map.empty,
      ks_range = Map.empty, ks_ring = [], ks_stats = (\<lambda>_. default_capture_stats)\<rparr>"

subsection \<open>Counters\<close>

definition update_stats :: "kctx \<Rightarrow> (capture_stats \<Rightarrow> capture_stats) \<Rightarrow> kstate \<Rightarrow> kstate" where
  "update_stats c f s =
     (if k_stats c then s\<lparr>ks_stats := (ks_stats s)(k_cpu c := f (ks_stats s (k_cpu c)))\<rparr> else s)"

definition record_ring_drop :: "kctx \<Rightarrow> kstate \<Rightarrow> kstate" where
  "record_ring_drop c = update_stats c (\<lambda>st. st\<lparr>ring_output_drops := sat_add (ring_output_drops st) 1\<rparr>)"

definition record_stash_failure :: "kctx \<Rightarrow> kstate \<Rightarrow> kstate" where
  "record_stash_failure c = update_stats c (\<lambda>st. st\<lparr>stash_update_failures := sat_add (stash_update_failures st) 1\<rparr>)"

definition record_scratch_failure :: "kctx \<Rightarrow> kstate \<Rightarrow> kstate" where
  "record_scratch_failure c = update_stats c (\<lambda>st. st\<lparr>scratch_failures := sat_add (scratch_failures st) 1\<rparr>)"

definition record_compat_syscall :: "kctx \<Rightarrow> kstate \<Rightarrow> kstate" where
  "record_compat_syscall c =
     update_stats c (\<lambda>st. st\<lparr>compat_syscalls_ignored := sat_add (compat_syscalls_ignored st) 1\<rparr>)"

definition record_io_entry :: "kctx \<Rightarrow> u32 \<Rightarrow> kstate \<Rightarrow> kstate" where
  "record_io_entry c kind =
     update_stats c (\<lambda>st. if kind = EVENT_READ then st\<lparr>read_entries := sat_add (read_entries st) 1\<rparr>
                          else st\<lparr>write_entries := sat_add (write_entries st) 1\<rparr>)"

definition record_io_exit :: "kctx \<Rightarrow> u32 \<Rightarrow> kstate \<Rightarrow> kstate" where
  "record_io_exit c kind =
     update_stats c (\<lambda>st. if kind = EVENT_READ then st\<lparr>read_exits := sat_add (read_exits st) 1\<rparr>
                          else st\<lparr>write_exits := sat_add (write_exits st) 1\<rparr>)"

text \<open>\<open>EVENTS.output\<close>: the record joins the ring, or its loss is counted.\<close>

definition submit :: "kctx \<Rightarrow> string \<Rightarrow> kstate \<Rightarrow> kstate" where
  "submit c record s = (if k_output c then s\<lparr>ks_ring := ks_ring s @ [record]\<rparr> else record_ring_drop c s)"

subsection \<open>Reading the syscall\<close>

definition syscall_arg :: "arch \<Rightarrow> kctx \<Rightarrow> nat \<Rightarrow> u64" where
  "syscall_arg a c argument =
     (case k_register c (arg_registers a ! argument) of Some v \<Rightarrow> v | None \<Rightarrow> 0)"

definition syscall_number :: "arch \<Rightarrow> kctx \<Rightarrow> i64" where
  "syscall_number a c =
     (case arch_of a of
        X86_64 \<Rightarrow> (case k_sysno64 c of Some n \<Rightarrow> n | None \<Rightarrow> - 1)
      | Aarch64 \<Rightarrow> (case k_sysno32 c of Some n \<Rightarrow> scast n | None \<Rightarrow> - 1))"

definition native_syscall_abi :: "arch \<Rightarrow> kctx \<Rightarrow> i64 \<Rightarrow> bool" where
  "native_syscall_abi a c syscall =
     (case arch_of a of
        X86_64 \<Rightarrow>
          if syscall AND X32_SYSCALL_BIT \<noteq> 0 then False
          else let status = (case k_task_status c of Some v \<Rightarrow> v | None \<Rightarrow> TS_COMPAT)
               in status AND TS_COMPAT = 0
      | Aarch64 \<Rightarrow>
          let pstate = (case k_pstate c of Some v \<Rightarrow> v | None \<Rightarrow> PSR_MODE32_BIT)
          in pstate AND PSR_MODE32_BIT = 0)"

definition io_kind :: "arch \<Rightarrow> i64 \<Rightarrow> u32 option" where
  "io_kind a syscall =
     (if syscall \<in> {nr_read a, nr_pread64 a, nr_readv a, nr_preadv a, nr_preadv2 a} then Some EVENT_READ
      else if syscall \<in> {nr_write a, nr_pwrite64 a, nr_writev a, nr_pwritev a, nr_pwritev2 a} then Some EVENT_WRITE
      else None)"

subsection \<open>Entry\<close>

definition enter_open :: "arch \<Rightarrow> kctx \<Rightarrow> kstate \<Rightarrow> kstate" where
  "enter_open a c s =
     (if \<not> k_scratch c then record_scratch_failure c s
      else let args =
             (case k_filename c of
                Some n \<Rightarrow> \<lparr>oa_fname = k_buffer c, oa_fname_len = of_nat (min n MAX_FNAME_LEN),
                           oa_fname_flags = (if n > MAX_FNAME_LEN then 0 OR PATH_TRUNCATED else 0),
                           oa_dirfd = ucast (syscall_arg a c 0)\<rparr>
              | None \<Rightarrow> \<lparr>oa_fname = k_buffer c, oa_fname_len = 0, oa_fname_flags = 0 OR PATH_READ_FAILED,
                         oa_dirfd = ucast (syscall_arg a c 0)\<rparr>)
           in if k_insert c then s\<lparr>ks_open := (ks_open s)(k_pid_tgid c \<mapsto> args)\<rparr>
              else record_stash_failure c s)"

definition enter_io :: "arch \<Rightarrow> kctx \<Rightarrow> u32 \<Rightarrow> kstate \<Rightarrow> kstate" where
  "enter_io a c kind s =
     (let s = record_io_entry c kind s;
          args = \<lparr>ra_ts = k_ktime c, ra_fd = ucast (syscall_arg a c 0), ra_kind = kind\<rparr>
      in if k_insert c then s\<lparr>ks_io := (ks_io s)(k_pid_tgid c \<mapsto> args)\<rparr> else record_stash_failure c s)"

definition enter_fd :: "arch \<Rightarrow> kctx \<Rightarrow> fd_args" where
  "enter_fd a c = \<lparr>fa_fd = ucast (syscall_arg a c 0), fa_pad = 0\<rparr>"

definition enter_close :: "arch \<Rightarrow> kctx \<Rightarrow> kstate \<Rightarrow> kstate" where
  "enter_close a c s =
     (if k_insert c then s\<lparr>ks_close := (ks_close s)(k_pid_tgid c \<mapsto> enter_fd a c)\<rparr> else record_stash_failure c s)"

definition enter_dup :: "arch \<Rightarrow> kctx \<Rightarrow> kstate \<Rightarrow> kstate" where
  "enter_dup a c s =
     (if k_insert c then s\<lparr>ks_dup := (ks_dup s)(k_pid_tgid c \<mapsto> enter_fd a c)\<rparr> else record_stash_failure c s)"

definition enter_fcntl :: "arch \<Rightarrow> kctx \<Rightarrow> kstate \<Rightarrow> kstate" where
  "enter_fcntl a c s =
     (let command = syscall_arg a c 1 in if command = 0 \<or> command = 1030 then enter_dup a c s else s)"

definition enter_close_range :: "arch \<Rightarrow> kctx \<Rightarrow> kstate \<Rightarrow> kstate" where
  "enter_close_range a c s =
     (let args = \<lparr>ga_first_fd = ucast (syscall_arg a c 0), ga_last_fd = ucast (syscall_arg a c 1),
                  ga_flags = ucast (syscall_arg a c 2), ga_pad = 0\<rparr>
      in if k_insert c then s\<lparr>ks_range := (ks_range s)(k_pid_tgid c \<mapsto> args)\<rparr> else record_stash_failure c s)"

definition sys_enter :: "arch \<Rightarrow> i64 \<Rightarrow> kctx \<Rightarrow> kstate \<Rightarrow> kstate" where
  "sys_enter a syscall c s =
     (if \<not> native_syscall_abi a c syscall then record_compat_syscall c s
      else if syscall = nr_openat a \<or> syscall = nr_openat2 a then enter_open a c s
      else (case io_kind a syscall of
              Some kind \<Rightarrow> enter_io a c kind s
            | None \<Rightarrow>
                if syscall = nr_close a then enter_close a c s
                else if syscall = nr_dup a \<or> syscall = nr_dup2 a \<or> syscall = nr_dup3 a then enter_dup a c s
                else if syscall = nr_fcntl a then enter_fcntl a c s
                else if syscall = nr_close_range a then enter_close_range a c s
                else s))"

subsection \<open>Exit\<close>

definition pid_of :: "u64 \<Rightarrow> u32" where
  "pid_of pid_tgid = ucast (drop_bit 32 pid_tgid)"

definition tid_of :: "u64 \<Rightarrow> u32" where
  "tid_of pid_tgid = ucast pid_tgid"

definition open_record :: "kctx \<Rightarrow> i64 \<Rightarrow> open_args \<Rightarrow> open_event" where
  "open_record c result args =
     \<lparr>oe_kind = EVENT_OPEN, oe_pid = pid_of (k_pid_tgid c), oe_tid = tid_of (k_pid_tgid c),
      oe_fd = ucast result, oe_fname_len = oa_fname_len args, oe_fname_flags = oa_fname_flags args,
      oe_dirfd = oa_dirfd args, oe_emitted_ns = k_ktime c,
      oe_fname = map (\<lambda>i. if i < unat (oa_fname_len args) then oa_fname args ! i else CHR 0x00)
                   [0..<MAX_FNAME_LEN]\<rparr>"

definition exit_open :: "kctx \<Rightarrow> i64 \<Rightarrow> open_args \<Rightarrow> kstate \<Rightarrow> kstate" where
  "exit_open c result args s =
     (if sint result < 0 then s
      else if \<not> k_event_buf c then record_scratch_failure c s
      else submit c (encode_open (open_record c result args)) s)"

definition io_record :: "kctx \<Rightarrow> i64 \<Rightarrow> rw_args \<Rightarrow> io_event" where
  "io_record c result args =
     \<lparr>ie_kind = ra_kind args, ie_pid = pid_of (k_pid_tgid c), ie_tid = tid_of (k_pid_tgid c),
      ie_fd = ra_fd args, ie_result = result, ie_latency_ns = k_ktime c - ra_ts args,
      ie_emitted_ns = k_ktime c\<rparr>"

definition exit_io :: "kctx \<Rightarrow> i64 \<Rightarrow> rw_args \<Rightarrow> kstate \<Rightarrow> kstate" where
  "exit_io c result args s =
     submit c (encode_io (io_record c result args)) (record_io_exit c (ra_kind args) s)"

definition close_record :: "kctx \<Rightarrow> i64 \<Rightarrow> u32 \<Rightarrow> io_event" where
  "close_record c result fd =
     \<lparr>ie_kind = EVENT_CLOSE, ie_pid = pid_of (k_pid_tgid c), ie_tid = tid_of (k_pid_tgid c),
      ie_fd = fd, ie_result = result, ie_latency_ns = 0, ie_emitted_ns = k_ktime c\<rparr>"

definition exit_close :: "kctx \<Rightarrow> i64 \<Rightarrow> u32 \<Rightarrow> kstate \<Rightarrow> kstate" where
  "exit_close c result fd s =
     (if \<not> close_releases_fd result then s else submit c (encode_io (close_record c result fd)) s)"

definition dup_record :: "kctx \<Rightarrow> i64 \<Rightarrow> u32 \<Rightarrow> fd_event" where
  "dup_record c result old_fd =
     \<lparr>fe_kind = EVENT_DUP, fe_pid = pid_of (k_pid_tgid c), fe_tid = tid_of (k_pid_tgid c),
      fe_old_fd = old_fd, fe_new_fd = ucast result, fe_pad = 0, fe_emitted_ns = k_ktime c\<rparr>"

definition exit_dup :: "kctx \<Rightarrow> i64 \<Rightarrow> u32 \<Rightarrow> kstate \<Rightarrow> kstate" where
  "exit_dup c result old_fd s =
     (if sint result < 0 then s else submit c (encode_fd (dup_record c result old_fd)) s)"

definition range_record :: "kctx \<Rightarrow> range_args \<Rightarrow> range_event" where
  "range_record c args =
     \<lparr>re_kind = EVENT_CLOSE_RANGE, re_pid = pid_of (k_pid_tgid c), re_tid = tid_of (k_pid_tgid c),
      re_first_fd = ga_first_fd args, re_last_fd = ga_last_fd args, re_flags = ga_flags args,
      re_emitted_ns = k_ktime c\<rparr>"

definition exit_close_range :: "kctx \<Rightarrow> i64 \<Rightarrow> range_args \<Rightarrow> kstate \<Rightarrow> kstate" where
  "exit_close_range c result args s =
     (if result \<noteq> 0 then s else submit c (encode_range (range_record c args)) s)"

definition sys_exit :: "arch \<Rightarrow> i64 \<Rightarrow> kctx \<Rightarrow> kstate \<Rightarrow> kstate" where
  "sys_exit a result c s =
     (let t = k_pid_tgid c; syscall = syscall_number a c
      in if \<not> native_syscall_abi a c syscall then s
         else if syscall = nr_openat a \<or> syscall = nr_openat2 a then
           (case ks_open s t of None \<Rightarrow> s
            | Some args \<Rightarrow> let s = exit_open c result args s in s\<lparr>ks_open := (ks_open s)(t := None)\<rparr>)
         else if io_kind a syscall \<noteq> None then
           (case ks_io s t of None \<Rightarrow> s
            | Some args \<Rightarrow> exit_io c result args (s\<lparr>ks_io := (ks_io s)(t := None)\<rparr>))
         else if syscall = nr_close a then
           (case ks_close s t of None \<Rightarrow> s
            | Some args \<Rightarrow> exit_close c result (fa_fd args) (s\<lparr>ks_close := (ks_close s)(t := None)\<rparr>))
         else if syscall = nr_dup a \<or> syscall = nr_dup2 a \<or> syscall = nr_dup3 a \<or> syscall = nr_fcntl a then
           (case ks_dup s t of None \<Rightarrow> s
            | Some args \<Rightarrow> exit_dup c result (fa_fd args) (s\<lparr>ks_dup := (ks_dup s)(t := None)\<rparr>))
         else if syscall = nr_close_range a then
           (case ks_range s t of None \<Rightarrow> s
            | Some args \<Rightarrow> exit_close_range c result args (s\<lparr>ks_range := (ks_range s)(t := None)\<rparr>))
         else s)"

subsection \<open>Process lifecycle\<close>

definition clear_stashes :: "u64 \<Rightarrow> kstate \<Rightarrow> kstate" where
  "clear_stashes t s =
     s\<lparr>ks_open := (ks_open s)(t := None), ks_io := (ks_io s)(t := None), ks_close := (ks_close s)(t := None),
       ks_dup := (ks_dup s)(t := None), ks_range := (ks_range s)(t := None)\<rparr>"

definition emit_process_event :: "u32 \<Rightarrow> kctx \<Rightarrow> kstate \<Rightarrow> kstate" where
  "emit_process_event kind c s =
     submit c (encode_process \<lparr>pe_kind = kind, pe_pid = pid_of (k_pid_tgid c), pe_emitted_ns = k_ktime c\<rparr>) s"

definition emit_leader_process_event :: "u32 \<Rightarrow> kctx \<Rightarrow> kstate \<Rightarrow> kstate" where
  "emit_leader_process_event kind c s =
     (let pid = pid_of (k_pid_tgid c); tid = tid_of (k_pid_tgid c)
      in if pid \<noteq> tid then s
         else submit c (encode_process \<lparr>pe_kind = kind, pe_pid = pid, pe_emitted_ns = k_ktime c\<rparr>) s)"

definition sched_process_exec :: "kctx \<Rightarrow> kstate \<Rightarrow> kstate" where
  "sched_process_exec c s = emit_leader_process_event EVENT_PROCESS_EXEC c s"

definition sched_process_exit_legacy :: "kctx \<Rightarrow> kstate \<Rightarrow> kstate" where
  "sched_process_exit_legacy c s = clear_stashes (k_pid_tgid c) s"

definition sched_process_exit_group :: "u64 \<Rightarrow> kctx \<Rightarrow> kstate \<Rightarrow> kstate" where
  "sched_process_exit_group group_dead c s =
     (let s = clear_stashes (k_pid_tgid c) s
      in if group_dead \<noteq> 0 then emit_process_event EVENT_PROCESS_EXIT c s else s)"

definition taskstats_process_exit :: "i32 option \<Rightarrow> kctx \<Rightarrow> kstate \<Rightarrow> kstate" where
  "taskstats_process_exit group_dead c s =
     (if (case group_dead of Some v \<Rightarrow> v | None \<Rightarrow> 0) \<noteq> 0 then emit_process_event EVENT_PROCESS_EXIT c s else s)"

subsection \<open>Runs\<close>

text \<open>One invocation of one of the programs; the kernel runs them in any order on any CPU.\<close>

datatype kprog =
  Sys_Enter i64 | Sys_Exit i64 | Process_Exec | Process_Exit_Legacy | Process_Exit_Group u64
| Taskstats_Exit "i32 option"

fun kstep :: "arch \<Rightarrow> kprog \<Rightarrow> kctx \<Rightarrow> kstate \<Rightarrow> kstate" where
  "kstep a (Sys_Enter syscall) c s = sys_enter a syscall c s"
| "kstep a (Sys_Exit result) c s = sys_exit a result c s"
| "kstep a Process_Exec c s = sched_process_exec c s"
| "kstep a Process_Exit_Legacy c s = sched_process_exit_legacy c s"
| "kstep a (Process_Exit_Group g) c s = sched_process_exit_group g c s"
| "kstep a (Taskstats_Exit g) c s = taskstats_process_exit g c s"

definition krun :: "arch \<Rightarrow> (kprog \<times> kctx) list \<Rightarrow> kstate \<Rightarrow> kstate" where
  "krun a = fold (\<lambda>(p, c). kstep a p c)"

text \<open>
  What \<open>bpf_probe_read_user_str_bytes\<close> promises of a successful read: at most one byte less than
  the buffer, before the first NUL.
\<close>

definition probe_ok :: "kctx \<Rightarrow> bool" where
  "probe_ok c \<longleftrightarrow> length (k_buffer c) = PROBE_FNAME_LEN \<and>
     (case k_filename c of None \<Rightarrow> True
      | Some n \<Rightarrow> n < PROBE_FNAME_LEN \<and> CHR 0x00 \<notin> set (take n (k_buffer c)))"

inductive captured :: "arch \<Rightarrow> kstate \<Rightarrow> bool" for a where
  captured_init: "captured a init_kstate"
| captured_step: "captured a s \<Longrightarrow> probe_ok c \<Longrightarrow> captured a (kstep a p c s)"

inductive_cases captured_stepE: "captured a (kstep a p c s)"

lemma captured_krun:
  "captured a s \<Longrightarrow> list_all (\<lambda>(p, c). probe_ok c) steps \<Longrightarrow> captured a (krun a steps s)"
proof (induction steps arbitrary: s)
  case (Cons pc steps)
  obtain p c where pc: "pc = (p, c)" by (cases pc)
  with Cons.prems have "captured a (kstep a p c s)" by (auto intro: captured_step)
  with Cons.IH [of "kstep a p c s"] Cons.prems(2) pc show ?case by (simp add: krun_def)
qed (simp add: krun_def)

subsection \<open>Frame facts of the helpers\<close>

lemma update_stats_frame [simp]:
  "ks_open (update_stats c f s) = ks_open s" "ks_io (update_stats c f s) = ks_io s"
  "ks_close (update_stats c f s) = ks_close s" "ks_dup (update_stats c f s) = ks_dup s"
  "ks_range (update_stats c f s) = ks_range s" "ks_ring (update_stats c f s) = ks_ring s"
  by (simp_all add: update_stats_def)

lemmas counter_defs = record_ring_drop_def record_stash_failure_def record_scratch_failure_def
  record_compat_syscall_def record_io_entry_def record_io_exit_def

lemma submit_frame [simp]:
  "ks_open (submit c r s) = ks_open s" "ks_io (submit c r s) = ks_io s"
  "ks_close (submit c r s) = ks_close s" "ks_dup (submit c r s) = ks_dup s"
  "ks_range (submit c r s) = ks_range s"
  "ks_ring (submit c r s) = ks_ring s @ (if k_output c then [r] else [])"
  by (simp_all add: submit_def record_ring_drop_def)

lemmas enter_defs = sys_enter_def enter_open_def enter_io_def enter_close_def enter_dup_def enter_fcntl_def
  enter_close_range_def

lemmas exit_defs = exit_open_def exit_io_def exit_close_def exit_dup_def exit_close_range_def

lemmas lifecycle_defs = clear_stashes_def emit_process_event_def emit_leader_process_event_def
  sched_process_exec_def sched_process_exit_legacy_def sched_process_exit_group_def taskstats_process_exit_def

subsection \<open>Every record in the ring parses\<close>

text \<open>The stash invariant: a stashed pathname is what the parser will accept.\<close>

definition open_args_ok :: "open_args \<Rightarrow> bool" where
  "open_args_ok args \<longleftrightarrow> unat (oa_fname_len args) \<le> MAX_FNAME_LEN \<and>
     unat (oa_fname_len args) \<le> length (oa_fname args) \<and>
     CHR 0x00 \<notin> set (take (unat (oa_fname_len args)) (oa_fname args)) \<and>
     oa_fname_flags args \<in> {0, PATH_TRUNCATED, PATH_READ_FAILED} \<and>
     (oa_fname_flags args = PATH_READ_FAILED \<longrightarrow> oa_fname_len args = 0)"

definition kstate_ok :: "kstate \<Rightarrow> bool" where
  "kstate_ok s \<longleftrightarrow> (\<forall>t args. ks_open s t = Some args \<longrightarrow> open_args_ok args) \<and>
     (\<forall>t args. ks_io s t = Some args \<longrightarrow> ra_kind args \<in> {EVENT_READ, EVENT_WRITE}) \<and>
     (\<forall>r \<in> set (ks_ring s). \<exists>w. valid_record w \<and> r = encode_record w)"

lemma kstate_ok_update_stats [simp]: "kstate_ok (update_stats c f s) = kstate_ok s"
  by (simp add: kstate_ok_def)

lemma kstate_ok_counters [simp]:
  "kstate_ok (record_ring_drop c s) = kstate_ok s" "kstate_ok (record_stash_failure c s) = kstate_ok s"
  "kstate_ok (record_scratch_failure c s) = kstate_ok s" "kstate_ok (record_compat_syscall c s) = kstate_ok s"
  "kstate_ok (record_io_entry c k s) = kstate_ok s" "kstate_ok (record_io_exit c k s) = kstate_ok s"
  by (simp_all add: counter_defs)

lemma kstate_ok_submit:
  "kstate_ok s \<Longrightarrow> valid_record w \<Longrightarrow> kstate_ok (submit c (encode_record w) s)"
  by (auto simp: kstate_ok_def)

lemma kstate_ok_stash:
  "kstate_ok s \<Longrightarrow> open_args_ok args \<Longrightarrow> kstate_ok (s\<lparr>ks_open := (ks_open s)(t \<mapsto> args)\<rparr>)"
  "kstate_ok s \<Longrightarrow> ra_kind rw \<in> {EVENT_READ, EVENT_WRITE} \<Longrightarrow> kstate_ok (s\<lparr>ks_io := (ks_io s)(t \<mapsto> rw)\<rparr>)"
  "kstate_ok s \<Longrightarrow> kstate_ok (s\<lparr>ks_close := m\<rparr>)"
  "kstate_ok s \<Longrightarrow> kstate_ok (s\<lparr>ks_dup := m\<rparr>)"
  "kstate_ok s \<Longrightarrow> kstate_ok (s\<lparr>ks_range := r\<rparr>)"
  "kstate_ok s \<Longrightarrow> kstate_ok (s\<lparr>ks_open := (ks_open s)(t := None)\<rparr>)"
  "kstate_ok s \<Longrightarrow> kstate_ok (s\<lparr>ks_io := (ks_io s)(t := None)\<rparr>)"
  by (auto simp: kstate_ok_def)

lemma kstate_ok_stash':
  "kstate_ok s \<Longrightarrow> ks_open s t = Some args \<Longrightarrow> open_args_ok args"
  "kstate_ok s \<Longrightarrow> ks_io s t = Some rw \<Longrightarrow> ra_kind rw \<in> {EVENT_READ, EVENT_WRITE}"
  by (auto simp: kstate_ok_def)

lemma io_kind_range: "io_kind a n = Some k \<Longrightarrow> k \<in> {EVENT_READ, EVENT_WRITE}"
  by (auto simp: io_kind_def split: if_splits)

lemma enter_open_ok:
  assumes "kstate_ok s" and "probe_ok c"
  shows "kstate_ok (enter_open a c s)"
proof -
  let ?d = "ucast (syscall_arg a c 0) :: i32"
  have failed: "open_args_ok \<lparr>oa_fname = k_buffer c, oa_fname_len = 0, oa_fname_flags = 0 OR PATH_READ_FAILED,
      oa_dirfd = ?d\<rparr>"
    by (simp add: open_args_ok_def)
  have read: "open_args_ok \<lparr>oa_fname = k_buffer c, oa_fname_len = of_nat (min n MAX_FNAME_LEN),
      oa_fname_flags = (if n > MAX_FNAME_LEN then 0 OR PATH_TRUNCATED else 0), oa_dirfd = ?d\<rparr>"
    if "k_filename c = Some n" for n
  proof -
    let ?n = "min n MAX_FNAME_LEN"
    have "unat (of_nat ?n :: u16) = ?n" by (simp add: unat_of_nat MAX_FNAME_LEN_def min_def)
    moreover have "CHR 0x00 \<notin> set (take ?n (k_buffer c))" "?n \<le> length (k_buffer c)"
      using assms(2) that set_take_subset_set_take [of ?n n "k_buffer c"]
      by (auto simp: probe_ok_def PROBE_FNAME_LEN_def)
    ultimately show ?thesis by (auto simp: open_args_ok_def path_flag_defs)
  qed
  show ?thesis
    unfolding enter_open_def Let_def
    using assms(1) failed read by (auto split: option.split intro: kstate_ok_stash)
qed

lemma enter_io_ok: "kstate_ok s \<Longrightarrow> k \<in> {EVENT_READ, EVENT_WRITE} \<Longrightarrow> kstate_ok (enter_io a c k s)"
  by (simp only: enter_io_def Let_def kstate_ok_counters split: if_split) (simp add: kstate_ok_stash)

lemma enter_fds_ok:
  "kstate_ok s \<Longrightarrow> kstate_ok (enter_close a c s)" "kstate_ok s \<Longrightarrow> kstate_ok (enter_dup a c s)"
  "kstate_ok s \<Longrightarrow> kstate_ok (enter_fcntl a c s)" "kstate_ok s \<Longrightarrow> kstate_ok (enter_close_range a c s)"
  by (simp_all add: enter_close_def enter_dup_def enter_fcntl_def enter_close_range_def Let_def kstate_ok_stash)

lemma sys_enter_ok:
  assumes "kstate_ok s" and "probe_ok c"
  shows "kstate_ok (sys_enter a n c s)"
proof (cases "io_kind a n")
  case None
  then show ?thesis using assms by (simp add: sys_enter_def enter_open_ok enter_fds_ok)
next
  case (Some k)
  then show ?thesis
    using assms enter_io_ok [OF assms(1) io_kind_range [OF Some]] by (simp add: sys_enter_def enter_open_ok)
qed

lemma valid_open_record: "open_args_ok args \<Longrightarrow> valid_open (open_record c result args)"
  by (auto simp: open_args_ok_def valid_open_def open_record_def path_flag_defs list_all_iff in_set_conv_nth)

lemma exit_open_ok: "kstate_ok s \<Longrightarrow> open_args_ok args \<Longrightarrow> kstate_ok (exit_open c result args s)"
  using kstate_ok_submit [of s "WireOpen (open_record c result args)" c] valid_open_record
  by (simp add: exit_open_def)

lemma exit_io_ok: "kstate_ok s \<Longrightarrow> ra_kind args \<in> {EVENT_READ, EVENT_WRITE} \<Longrightarrow> kstate_ok (exit_io c result args s)"
  using kstate_ok_submit [of "record_io_exit c (ra_kind args) s" "WireIo (io_record c result args)" c]
  by (auto simp: exit_io_def io_record_def)

lemma exit_fd_ok:
  "kstate_ok s \<Longrightarrow> kstate_ok (exit_close c result fd s)"
  "kstate_ok s \<Longrightarrow> kstate_ok (exit_dup c result fd s)"
  "kstate_ok s \<Longrightarrow> kstate_ok (exit_close_range c result args s)"
  using kstate_ok_submit [of s "WireIo (close_record c result fd)" c]
    kstate_ok_submit [of s "WireFd (dup_record c result fd)" c]
    kstate_ok_submit [of s "WireRange (range_record c args)" c]
  by (simp_all add: exit_close_def exit_dup_def exit_close_range_def close_record_def dup_record_def range_record_def)

text \<open>The exit handlers, one per class of call, with the stash entry consumed.\<close>

lemma sys_exit_cases:
  obtains "sys_exit a result c s = s"
  | args where "ks_open s (k_pid_tgid c) = Some args"
      "sys_exit a result c s = exit_open c result args s\<lparr>ks_open := (ks_open s)(k_pid_tgid c := None)\<rparr>"
  | args where "ks_io s (k_pid_tgid c) = Some args"
      "sys_exit a result c s = exit_io c result args (s\<lparr>ks_io := (ks_io s)(k_pid_tgid c := None)\<rparr>)"
  | args where "ks_close s (k_pid_tgid c) = Some args"
      "sys_exit a result c s = exit_close c result (fa_fd args) (s\<lparr>ks_close := (ks_close s)(k_pid_tgid c := None)\<rparr>)"
  | args where "ks_dup s (k_pid_tgid c) = Some args"
      "sys_exit a result c s = exit_dup c result (fa_fd args) (s\<lparr>ks_dup := (ks_dup s)(k_pid_tgid c := None)\<rparr>)"
  | args where "ks_range s (k_pid_tgid c) = Some args"
      "sys_exit a result c s = exit_close_range c result args (s\<lparr>ks_range := (ks_range s)(k_pid_tgid c := None)\<rparr>)"
proof -
  let ?n = "syscall_number a c"
  have open_frame: "ks_open (exit_open c result args s) = ks_open s" for args
    by (simp add: exit_open_def record_scratch_failure_def)
  consider (foreign) "\<not> native_syscall_abi a c ?n"
    | (opens) "native_syscall_abi a c ?n" "?n = nr_openat a \<or> ?n = nr_openat2 a"
    | (io) "native_syscall_abi a c ?n" "\<not> (?n = nr_openat a \<or> ?n = nr_openat2 a)" "io_kind a ?n \<noteq> None"
    | (other) "native_syscall_abi a c ?n" "\<not> (?n = nr_openat a \<or> ?n = nr_openat2 a)" "io_kind a ?n = None"
    by blast
  then show ?thesis
  proof cases
    case foreign
    then show ?thesis using that(1) by (simp add: sys_exit_def Let_def)
  next
    case opens
    then show ?thesis using that(1,2) open_frame
      by (cases "ks_open s (k_pid_tgid c)") (simp_all add: sys_exit_def Let_def)
  next
    case io
    then show ?thesis using that(1,3)
      by (cases "ks_io s (k_pid_tgid c)") (simp_all add: sys_exit_def Let_def)
  next
    case other
    then have eq: "sys_exit a result c s =
        (if ?n = nr_close a then
           (case ks_close s (k_pid_tgid c) of None \<Rightarrow> s
            | Some args \<Rightarrow> exit_close c result (fa_fd args) (s\<lparr>ks_close := (ks_close s)(k_pid_tgid c := None)\<rparr>))
         else if ?n = nr_dup a \<or> ?n = nr_dup2 a \<or> ?n = nr_dup3 a \<or> ?n = nr_fcntl a then
           (case ks_dup s (k_pid_tgid c) of None \<Rightarrow> s
            | Some args \<Rightarrow> exit_dup c result (fa_fd args) (s\<lparr>ks_dup := (ks_dup s)(k_pid_tgid c := None)\<rparr>))
         else if ?n = nr_close_range a then
           (case ks_range s (k_pid_tgid c) of None \<Rightarrow> s
            | Some args \<Rightarrow> exit_close_range c result args (s\<lparr>ks_range := (ks_range s)(k_pid_tgid c := None)\<rparr>))
         else s)"
      by (simp only: sys_exit_def Let_def if_False not_True_eq_False simp_thms)
    show ?thesis
    proof (cases "?n = nr_close a")
      case True
      then show ?thesis using eq that(1,4) by (cases "ks_close s (k_pid_tgid c)") simp_all
    next
      case close: False
      show ?thesis
      proof (cases "?n = nr_dup a \<or> ?n = nr_dup2 a \<or> ?n = nr_dup3 a \<or> ?n = nr_fcntl a")
        case True
        with close show ?thesis using eq that(1,5) by (cases "ks_dup s (k_pid_tgid c)") simp_all
      next
        case False
        with close show ?thesis using eq that(1,6)
          by (cases "?n = nr_close_range a"; cases "ks_range s (k_pid_tgid c)") simp_all
      qed
    qed
  qed
qed

lemma sys_exit_ok:
  assumes "kstate_ok s"
  shows "kstate_ok (sys_exit a result c s)"
proof (cases rule: sys_exit_cases [of a result c s])
  case (2 args)
  then have "kstate_ok (exit_open c result args s)"
    using exit_open_ok [OF assms] kstate_ok_stash' [OF assms] by blast
  then have "kstate_ok (exit_open c result args s\<lparr>ks_open := (ks_open (exit_open c result args s))(k_pid_tgid c := None)\<rparr>)"
    by (rule kstate_ok_stash)
  moreover have "ks_open (exit_open c result args s) = ks_open s"
    by (simp add: exit_open_def record_scratch_failure_def)
  ultimately show ?thesis using 2 by simp
next
  case (3 args)
  then show ?thesis
    using exit_io_ok [OF kstate_ok_stash(7) [OF assms] kstate_ok_stash'(2) [OF assms 3(1)]] by simp
qed (use assms in \<open>simp_all add: exit_fd_ok kstate_ok_stash\<close>)

lemma emit_ok: "kstate_ok s \<Longrightarrow> k \<in> {EVENT_PROCESS_EXEC, EVENT_PROCESS_EXIT} \<Longrightarrow>
    kstate_ok (emit_process_event k c s) \<and> kstate_ok (emit_leader_process_event k c s)"
  using kstate_ok_submit [of s "WireProcess \<lparr>pe_kind = k, pe_pid = p, pe_emitted_ns = k_ktime c\<rparr>" c for p]
  by (simp add: emit_process_event_def emit_leader_process_event_def Let_def)

lemma clear_stashes_ok: "kstate_ok s \<Longrightarrow> kstate_ok (clear_stashes t s)"
  by (auto simp: kstate_ok_def clear_stashes_def)

lemma kstep_ok: "kstate_ok s \<Longrightarrow> probe_ok c \<Longrightarrow> kstate_ok (kstep a p c s)"
  by (cases p) (simp_all add: sys_enter_ok sys_exit_ok sched_process_exec_def sched_process_exit_legacy_def
      sched_process_exit_group_def taskstats_process_exit_def emit_ok clear_stashes_ok Let_def)

lemma captured_ok: "captured a s \<Longrightarrow> kstate_ok s"
  by (induction rule: captured.induct) (simp_all add: kstep_ok, simp add: kstate_ok_def init_kstate_def)

lemma captured_record_parses:
  assumes "captured a s" and "r \<in> set (ks_ring s)"
  shows "\<exists>ev. parse_event r = Some ev"
proof -
  from captured_ok [OF assms(1)] assms(2) obtain w where "valid_record w" "r = encode_record w"
    by (auto simp: kstate_ok_def)
  then show ?thesis using parse_encoded [of w "[]"] by simp
qed

text \<open>(C8) Whatever the processes of the machine do, whatever the memory probes return and whichever
  helpers fail, every record that reaches the ring buffer is one the userspace parser accepts.\<close>

theorem captured_records_parse:
  assumes "captured a s" and "r \<in> set (ks_ring s)"
  shows "\<exists>ev. parse_event r = Some ev"
  by (rule captured_record_parses [OF assms])

subsection \<open>What the stashes of a thread depend on\<close>

text \<open>The five stash entries of one thread, the only memory a call's exit has of its entry.\<close>

type_synonym stashes =
  "open_args option \<times> rw_args option \<times> fd_args option \<times> fd_args option \<times> range_args option"

definition stashes_of :: "u64 \<Rightarrow> kstate \<Rightarrow> stashes" where
  "stashes_of t s = (ks_open s t, ks_io s t, ks_close s t, ks_dup s t, ks_range s t)"

lemma stashes_of_frame [simp]:
  "stashes_of t (update_stats c f s) = stashes_of t s" "stashes_of t (submit c r s) = stashes_of t s"
  by (simp_all add: stashes_of_def)

lemma stashes_of_counters [simp]:
  "stashes_of t (record_ring_drop c s) = stashes_of t s" "stashes_of t (record_stash_failure c s) = stashes_of t s"
  "stashes_of t (record_scratch_failure c s) = stashes_of t s" "stashes_of t (record_compat_syscall c s) = stashes_of t s"
  "stashes_of t (record_io_entry c k s) = stashes_of t s" "stashes_of t (record_io_exit c k s) = stashes_of t s"
  by (simp_all add: counter_defs)

lemma stashes_of_exits [simp]:
  "stashes_of t (exit_open c result oargs s) = stashes_of t s" "stashes_of t (exit_io c result rw s) = stashes_of t s"
  "stashes_of t (exit_close c result fd s) = stashes_of t s" "stashes_of t (exit_dup c result fd s) = stashes_of t s"
  "stashes_of t (exit_close_range c result rg s) = stashes_of t s"
  by (simp_all add: exit_defs)

lemma stashes_of_emit [simp]:
  "stashes_of t (emit_process_event k c s) = stashes_of t s"
  "stashes_of t (emit_leader_process_event k c s) = stashes_of t s"
  by (simp_all add: emit_process_event_def emit_leader_process_event_def Let_def)

lemma stashes_of_update [simp]:
  "t \<noteq> t' \<Longrightarrow> stashes_of t (s\<lparr>ks_open := (ks_open s')(t' := x)\<rparr>) = (ks_open s' t, snd (stashes_of t s))"
  "t \<noteq> t' \<Longrightarrow> stashes_of t (s\<lparr>ks_io := (ks_io s)(t' := rw)\<rparr>) = stashes_of t s"
  "t \<noteq> t' \<Longrightarrow> stashes_of t (s\<lparr>ks_close := (ks_close s)(t' := fd)\<rparr>) = stashes_of t s"
  "t \<noteq> t' \<Longrightarrow> stashes_of t (s\<lparr>ks_dup := (ks_dup s)(t' := fd)\<rparr>) = stashes_of t s"
  "t \<noteq> t' \<Longrightarrow> stashes_of t (s\<lparr>ks_range := (ks_range s)(t' := rg)\<rparr>) = stashes_of t s"
  by (simp_all add: stashes_of_def)

lemma stashes_of_eq_open: "(ks_open s t, snd (stashes_of t s)) = stashes_of t s"
  by (simp add: stashes_of_def)

lemma stashes_of_clear:
  "stashes_of t (clear_stashes t' s) = (if t = t' then (None, None, None, None, None) else stashes_of t s)"
  by (simp add: stashes_of_def clear_stashes_def)

lemma sys_enter_other: "t \<noteq> k_pid_tgid c \<Longrightarrow> stashes_of t (sys_enter a n c s) = stashes_of t s"
proof -
  assume t: "t \<noteq> k_pid_tgid c"
  then have "stashes_of t (enter_open a c s) = stashes_of t s"
    "stashes_of t (enter_close a c s) = stashes_of t s" "stashes_of t (enter_dup a c s) = stashes_of t s"
    "stashes_of t (enter_close_range a c s) = stashes_of t s"
    by (simp_all add: enter_open_def enter_close_def enter_dup_def enter_close_range_def Let_def stashes_of_eq_open)
  moreover from t have "stashes_of t (enter_io a c k s) = stashes_of t s" for k
    by (simp only: enter_io_def Let_def split: if_split) simp
  ultimately show ?thesis
    by (simp add: sys_enter_def enter_fcntl_def Let_def split: option.split)
qed

lemma sys_exit_other: "t \<noteq> k_pid_tgid c \<Longrightarrow> stashes_of t (sys_exit a result c s) = stashes_of t s"
proof -
  assume t: "t \<noteq> k_pid_tgid c"
  then have "stashes_of t (exit_open c result args s\<lparr>ks_open := (ks_open s)(k_pid_tgid c := None)\<rparr>) = stashes_of t s" for args
    using stashes_of_exits(1) [of t c result args s] by (simp add: stashes_of_def)
  with t show ?thesis
    by (cases rule: sys_exit_cases [of a result c s]) simp_all
qed

text \<open>A call whose entry was not seen is not reported at its exit.\<close>

lemma sys_exit_unseen:
  assumes "stashes_of (k_pid_tgid c) s = (None, None, None, None, None)"
  shows "sys_exit a result c s = s"
  using assms by (cases rule: sys_exit_cases [of a result c s]) (simp_all add: stashes_of_def)

lemma kstep_other: "t \<noteq> k_pid_tgid c \<Longrightarrow> stashes_of t (kstep a p c s) = stashes_of t s"
  by (cases p) (simp_all add: sys_enter_other sys_exit_other sched_process_exec_def sched_process_exit_legacy_def
      sched_process_exit_group_def taskstats_process_exit_def stashes_of_clear Let_def)

lemma kstep_unseen:
  assumes "stashes_of t s = (None, None, None, None, None)" and "\<And>n. p = Sys_Enter n \<Longrightarrow> k_pid_tgid c \<noteq> t"
  shows "stashes_of t (kstep a p c s) = (None, None, None, None, None)"
proof (cases "k_pid_tgid c = t")
  case True
  with assms show ?thesis
    by (cases p) (simp_all add: sys_exit_unseen sched_process_exec_def sched_process_exit_legacy_def
        sched_process_exit_group_def taskstats_process_exit_def stashes_of_clear Let_def)
qed (use assms(1) kstep_other [of t c a p s] in simp)

lemma krun_other:
  "list_all (\<lambda>(p, c). k_pid_tgid c \<noteq> t) steps \<Longrightarrow> stashes_of t (krun a steps s) = stashes_of t s"
  unfolding krun_def by (induction steps arbitrary: s) (auto simp: kstep_other)

lemma krun_unseen:
  "list_all (\<lambda>(p, c). (\<exists>n. p = Sys_Enter n) \<longrightarrow> k_pid_tgid c \<noteq> t) steps \<Longrightarrow>
   stashes_of t s = (None, None, None, None, None) \<Longrightarrow> stashes_of t (krun a steps s) = (None, None, None, None, None)"
proof (induction steps arbitrary: s)
  case (Cons pc steps)
  obtain p c where pc: "pc = (p, c)" by (cases pc)
  with Cons.prems have "stashes_of t (kstep a p c s) = (None, None, None, None, None)"
    by (intro kstep_unseen) auto
  with Cons.IH [of "kstep a p c s"] Cons.prems(1) pc show ?case by (simp add: krun_def)
qed (simp add: krun_def)

subsection \<open>Properties of a captured call\<close>

lemma io_kind_not_open:
  "a \<in> {x86_64, aarch64} \<Longrightarrow> io_kind a n = Some k \<Longrightarrow> n \<noteq> nr_openat a \<and> n \<noteq> nr_openat2 a"
  by (auto simp: io_kind_def x86_64_def aarch64_def split: if_splits)

text \<open>The events of the two I/O kinds.\<close>

definition io_call_event :: "u32 \<Rightarrow> u32 \<Rightarrow> u32 \<Rightarrow> u32 \<Rightarrow> i64 \<Rightarrow> u64 \<Rightarrow> u64 \<Rightarrow> bpf_event" where
  "io_call_event kind pid tid fd result latency_ns emitted_ns =
     (if kind = EVENT_READ then ReadEv pid tid fd (clamp_result result) result latency_ns emitted_ns
      else WriteEv pid tid fd (clamp_result result) result latency_ns emitted_ns)"

text \<open>(C10) A read or write call is captured whole: when its entry is stashed, then whatever other threads
  do meanwhile, its exit appends exactly one record, which parses to the event with the thread of
  the call, its descriptor at entry, its result and the time between entry and exit; and the exit
  leaves the thread without a pending I/O call.\<close>

theorem io_call_captured:
  assumes "a \<in> {x86_64, aarch64}"
    and "native_syscall_abi a enter n" and "io_kind a n = Some kind" and "k_insert enter"
    and "list_all (\<lambda>(p, c). k_pid_tgid c \<noteq> k_pid_tgid enter) meanwhile"
    and "k_pid_tgid leave = k_pid_tgid enter" and "syscall_number a leave = n"
    and "native_syscall_abi a leave n" and "k_output leave"
  shows "let s' = krun a ((Sys_Enter n, enter) # meanwhile) s; s'' = kstep a (Sys_Exit result) leave s'
         in \<exists>r. ks_ring s'' = ks_ring s' @ [r] \<and> ks_io s'' (k_pid_tgid enter) = None \<and>
            parse_event r = Some (io_call_event kind (pid_of (k_pid_tgid enter)) (tid_of (k_pid_tgid enter))
              (ucast (syscall_arg a enter 0)) result (k_ktime leave - k_ktime enter) (k_ktime leave))"
proof -
  let ?t = "k_pid_tgid enter"
  let ?args = "\<lparr>ra_ts = k_ktime enter, ra_fd = ucast (syscall_arg a enter 0), ra_kind = kind\<rparr>"
  let ?s1 = "sys_enter a n enter s" and ?s' = "krun a meanwhile (sys_enter a n enter s)"
  have nopen: "n \<noteq> nr_openat a" "n \<noteq> nr_openat2 a" using io_kind_not_open [OF assms(1,3)] by simp_all
  have "ks_io ?s1 ?t = Some ?args"
    using assms(2-4) nopen by (simp add: sys_enter_def enter_io_def Let_def)
  then have stash: "ks_io ?s' ?t = Some ?args"
    using krun_other [OF assms(5), of a ?s1] by (simp add: stashes_of_def)
  let ?w = "WireIo (io_record leave result ?args)"
  have "sys_exit a result leave ?s' = exit_io leave result ?args (?s'\<lparr>ks_io := (ks_io ?s')(?t := None)\<rparr>)"
    using assms(3,6-8) nopen stash by (simp add: sys_exit_def Let_def)
  moreover have kinds: "kind \<in> {EVENT_READ, EVENT_WRITE}" using io_kind_range [OF assms(3)] .
  then have "parse_event (encode_record ?w) = Some (event_of ?w)"
    using parse_encoded [of ?w "[]"] by (auto simp: io_record_def)
  ultimately show ?thesis
    using assms(6,9) kinds
    by (auto simp: Let_def krun_def exit_io_def record_io_exit_def io_call_event_def io_record_def)
qed

text \<open>An exited thread is forgotten: after its exit hook no argument of an earlier call is kept
  for its identifier, and until it enters a new call no syscall exit under that identifier, which
  the kernel may have given to another thread, emits a record or changes anything.\<close>

theorem exited_thread_forgotten:
  assumes "hook \<in> {Process_Exit_Legacy, Process_Exit_Group g}" and "k_pid_tgid c = t"
    and "list_all (\<lambda>(p, c). (\<exists>n. p = Sys_Enter n) \<longrightarrow> k_pid_tgid c \<noteq> t) steps"
  shows "let s' = krun a ((hook, c) # steps) s
         in t \<notin> dom (ks_open s') \<union> dom (ks_io s') \<union> dom (ks_close s') \<union> dom (ks_dup s') \<union> dom (ks_range s') \<and>
            (k_pid_tgid leave = t \<longrightarrow> kstep a (Sys_Exit result) leave s' = s')"
proof -
  have "stashes_of t (kstep a hook c s) = (None, None, None, None, None)"
    using assms(1,2) by (auto simp: sched_process_exit_legacy_def sched_process_exit_group_def Let_def stashes_of_clear)
  then have "stashes_of t (krun a ((hook, c) # steps) s) = (None, None, None, None, None)"
    using krun_unseen [OF assms(3), of "kstep a hook c s" a] by (simp add: krun_def)
  then show ?thesis
    by (auto simp: Let_def stashes_of_def sys_exit_unseen)
qed

subsection \<open>A full ring\<close>

definition with_output :: "bool \<Rightarrow> kctx \<Rightarrow> kctx" where
  "with_output b c = c\<lparr>k_output := b\<rparr>"

text \<open>What a step that may submit looks like, whether or not there is room.\<close>

definition full_ring_step :: "kctx \<Rightarrow> kstate \<Rightarrow> kstate \<Rightarrow> kstate \<Rightarrow> bool" where
  "full_ring_step c s roomy full \<longleftrightarrow>
     roomy = full \<and> ks_ring roomy = ks_ring s \<or>
     (\<exists>r. ks_ring roomy = ks_ring s @ [r]) \<and> full = record_ring_drop c (roomy\<lparr>ks_ring := ks_ring s\<rparr>)"

lemma with_output_simps [simp]:
  "k_pid_tgid (with_output b c) = k_pid_tgid c" "k_ktime (with_output b c) = k_ktime c"
  "k_register (with_output b c) = k_register c" "k_sysno64 (with_output b c) = k_sysno64 c"
  "k_sysno32 (with_output b c) = k_sysno32 c" "k_task_status (with_output b c) = k_task_status c"
  "k_pstate (with_output b c) = k_pstate c" "k_filename (with_output b c) = k_filename c"
  "k_buffer (with_output b c) = k_buffer c" "k_scratch (with_output b c) = k_scratch c"
  "k_event_buf (with_output b c) = k_event_buf c" "k_insert (with_output b c) = k_insert c"
  "k_output (with_output b c) = b" "update_stats (with_output b c) f s = update_stats c f s"
  by (simp_all add: with_output_def update_stats_def)

lemma with_output_counters [simp]:
  "record_ring_drop (with_output b c) s = record_ring_drop c s"
  "record_stash_failure (with_output b c) s = record_stash_failure c s"
  "record_scratch_failure (with_output b c) s = record_scratch_failure c s"
  "record_compat_syscall (with_output b c) s = record_compat_syscall c s"
  "record_io_entry (with_output b c) k s = record_io_entry c k s"
  "record_io_exit (with_output b c) k s = record_io_exit c k s"
  by (simp_all add: counter_defs)

lemma with_output_reads [simp]:
  "syscall_arg a (with_output b c) i = syscall_arg a c i" "syscall_number a (with_output b c) = syscall_number a c"
  "native_syscall_abi a (with_output b c) n = native_syscall_abi a c n" "enter_fd a (with_output b c) = enter_fd a c"
  by (simp_all add: syscall_arg_def syscall_number_def native_syscall_abi_def enter_fd_def split: arch_name.split)

lemma with_output_records [simp]:
  "open_record (with_output b c) result oargs = open_record c result oargs"
  "io_record (with_output b c) result rw = io_record c result rw"
  "close_record (with_output b c) result fd = close_record c result fd"
  "dup_record (with_output b c) result fd = dup_record c result fd"
  "range_record (with_output b c) rg = range_record c rg"
  by (simp_all add: open_record_def io_record_def close_record_def dup_record_def range_record_def)

lemma full_ring_same: "ks_ring s' = ks_ring s \<Longrightarrow> full_ring_step c s s' s'"
  by (simp add: full_ring_step_def)

lemma full_ring_submit:
  assumes "ks_ring s' = ks_ring s"
  shows "full_ring_step c s (submit (with_output True c) r s') (submit (with_output False c) r s')"
proof -
  have "s'\<lparr>ks_ring := ks_ring s\<rparr> = s'" using assms by (cases s') simp
  then have "record_ring_drop c (s'\<lparr>ks_ring := ks_ring s\<rparr>) = record_ring_drop c s'" by (rule arg_cong)
  then show ?thesis using assms by (simp add: full_ring_step_def submit_def)
qed

lemma full_ring_exits:
  assumes "ks_ring s' = ks_ring s"
  shows "full_ring_step c s (exit_open (with_output True c) result oargs s') (exit_open (with_output False c) result oargs s')"
    and "full_ring_step c s (exit_io (with_output True c) result rw s') (exit_io (with_output False c) result rw s')"
    and "full_ring_step c s (exit_close (with_output True c) result fd s') (exit_close (with_output False c) result fd s')"
    and "full_ring_step c s (exit_dup (with_output True c) result fd s') (exit_dup (with_output False c) result fd s')"
    and "full_ring_step c s (exit_close_range (with_output True c) result rg s')
           (exit_close_range (with_output False c) result rg s')"
  using assms by (simp_all add: exit_defs full_ring_same full_ring_submit record_scratch_failure_def record_io_exit_def)

lemma full_ring_emit:
  assumes "ks_ring s' = ks_ring s"
  shows "full_ring_step c s (emit_process_event k (with_output True c) s') (emit_process_event k (with_output False c) s')"
    and "full_ring_step c s (emit_leader_process_event k (with_output True c) s')
           (emit_leader_process_event k (with_output False c) s')"
  using assms by (simp_all add: emit_process_event_def emit_leader_process_event_def Let_def full_ring_same full_ring_submit)

lemma full_ring_forget:
  assumes "full_ring_step c s roomy full"
  shows "full_ring_step c s (roomy\<lparr>ks_open := m\<rparr>) (full\<lparr>ks_open := m\<rparr>)"
  using assms by (auto simp: full_ring_step_def record_ring_drop_def update_stats_def)

lemma enter_with_output [simp]:
  "enter_open a (with_output b c) s = enter_open a c s" "enter_io a (with_output b c) k s = enter_io a c k s"
  "enter_close a (with_output b c) s = enter_close a c s" "enter_dup a (with_output b c) s = enter_dup a c s"
  "enter_fcntl a (with_output b c) s = enter_fcntl a c s"
  "enter_close_range a (with_output b c) s = enter_close_range a c s"
  by (simp_all only: enter_open_def enter_io_def enter_close_def enter_dup_def enter_fcntl_def enter_close_range_def
      Let_def with_output_simps with_output_counters with_output_reads cong: option.case_cong)

lemma enter_ring [simp]:
  "ks_ring (enter_open a c s) = ks_ring s" "ks_ring (enter_io a c k s) = ks_ring s"
  "ks_ring (enter_close a c s) = ks_ring s" "ks_ring (enter_dup a c s) = ks_ring s"
  "ks_ring (enter_fcntl a c s) = ks_ring s" "ks_ring (enter_close_range a c s) = ks_ring s"
  by (simp_all add: enter_open_def enter_io_def enter_close_def enter_dup_def enter_fcntl_def enter_close_range_def
      Let_def record_stash_failure_def record_scratch_failure_def record_io_entry_def)

lemma sys_enter_with_output:
  "sys_enter a n (with_output b c) s = sys_enter a n c s" "ks_ring (sys_enter a n c s) = ks_ring s"
  by (simp only: sys_enter_def with_output_reads with_output_counters enter_with_output)
    (cases "io_kind a n"; simp add: sys_enter_def record_compat_syscall_def)

lemma full_ring_if:
  "(b \<Longrightarrow> full_ring_step c s x y) \<Longrightarrow> (\<not> b \<Longrightarrow> full_ring_step c s x' y') \<Longrightarrow>
   full_ring_step c s (if b then x else x') (if b then y else y')"
  by simp

lemma full_ring_case:
  "(\<And>v. full_ring_step c s (f v) (g v)) \<Longrightarrow>
   full_ring_step c s (case x of None \<Rightarrow> s | Some v \<Rightarrow> f v) (case x of None \<Rightarrow> s | Some v \<Rightarrow> g v)"
  by (cases x) (simp_all add: full_ring_same)

lemma full_ring_sys_exit:
  "full_ring_step c s (sys_exit a result (with_output True c) s) (sys_exit a result (with_output False c) s)"
proof -
  have "ks_open (exit_open (with_output b c) result args s) = ks_open s" for b args
    by (simp add: exit_open_def record_scratch_failure_def)
  then show ?thesis
    unfolding sys_exit_def Let_def with_output_reads with_output_simps
    by (intro full_ring_if full_ring_case full_ring_same full_ring_exits)
      (simp_all add: full_ring_forget full_ring_exits)
qed

lemma full_ring_kstep: "full_ring_step c s (kstep a p (with_output True c) s) (kstep a p (with_output False c) s)"
proof (cases p)
  case (Sys_Enter n)
  then show ?thesis by (simp add: sys_enter_with_output full_ring_same)
next
  case (Sys_Exit result)
  then show ?thesis by (simp add: full_ring_sys_exit)
qed (simp_all add: full_ring_same full_ring_emit clear_stashes_def sched_process_exec_def
      sched_process_exit_legacy_def sched_process_exit_group_def taskstats_process_exit_def Let_def)

lemma full_ring_counted:
  assumes "full_ring_step c s roomy full" and "k_stats c"
  shows "\<exists>rs. length rs \<le> 1 \<and> ks_ring roomy = ks_ring s @ rs \<and> ks_ring full = ks_ring s \<and>
           (\<forall>t. stashes_of t full = stashes_of t roomy) \<and>
           ring_output_drops (ks_stats full (k_cpu c)) =
             (if rs = [] then ring_output_drops (ks_stats roomy (k_cpu c))
              else sat_add (ring_output_drops (ks_stats roomy (k_cpu c))) 1) \<and>
           (\<forall>cpu'. cpu' \<noteq> k_cpu c \<longrightarrow> ks_stats full cpu' = ks_stats roomy cpu')"
  using assms(1) unfolding full_ring_step_def
proof
  assume "roomy = full \<and> ks_ring roomy = ks_ring s"
  then show ?thesis by auto
next
  assume "(\<exists>r. ks_ring roomy = ks_ring s @ [r]) \<and> full = record_ring_drop c (roomy\<lparr>ks_ring := ks_ring s\<rparr>)"
  then obtain r where "ks_ring roomy = ks_ring s @ [r]" "full = record_ring_drop c (roomy\<lparr>ks_ring := ks_ring s\<rparr>)"
    by blast
  then show ?thesis using assms(2)
    by (intro exI [of _ "[r]"]) (simp add: record_ring_drop_def update_stats_def stashes_of_def)
qed


subsection \<open>A concrete run\<close>

text \<open>A thread reads 5 bytes from descriptor 7 while another opens a file.\<close>

definition sample_ctx :: "u64 \<Rightarrow> u64 \<Rightarrow> kctx" where
  "sample_ctx t now =
     \<lparr>k_cpu = 0, k_pid_tgid = t, k_ktime = now, k_register = (\<lambda>i. Some (if i = 14 then 7 else 0)),
      k_sysno64 = Some 0, k_sysno32 = None, k_task_status = Some 0, k_pstate = None, k_filename = Some 2,
      k_buffer = ''/f'' @ replicate 256 (CHR 0x00), k_scratch = True, k_event_buf = True, k_stats = True,
      k_insert = True, k_output = True\<rparr>"

lemmas sample_simps = sample_ctx_def x86_64_def probe_ok_def PROBE_FNAME_LEN_def MAX_FNAME_LEN_def
  native_syscall_abi_def X32_SYSCALL_BIT_def TS_COMPAT_def syscall_number_def io_kind_def syscall_arg_def

lemma sample_captured: "captured x86_64 (kstep x86_64 (Sys_Exit 5) (sample_ctx 1 30)
    (kstep x86_64 (Sys_Enter 0) (sample_ctx 1 10) init_kstate))"
  by (intro captured.intros) (simp_all add: sample_simps)

lemma sample_ring: "ks_ring (kstep x86_64 (Sys_Exit 5) (sample_ctx 1 30)
    (kstep x86_64 (Sys_Enter 0) (sample_ctx 1 10) init_kstate)) =
  [encode_io \<lparr>ie_kind = EVENT_READ, ie_pid = 0, ie_tid = 1, ie_fd = 7, ie_result = 5, ie_latency_ns = 20, ie_emitted_ns = 30\<rparr>]"
  by (simp add: sample_simps sys_enter_def sys_exit_def enter_io_def exit_io_def io_record_def init_kstate_def
      record_io_entry_def record_io_exit_def update_stats_def submit_def pid_of_def tid_of_def)

theorem captured_records_parse_witness:
  "\<exists>ev. parse_event (encode_io \<lparr>ie_kind = EVENT_READ, ie_pid = 0, ie_tid = 1, ie_fd = 7, ie_result = 5,
       ie_latency_ns = 20, ie_emitted_ns = 30\<rparr>) = Some ev"
  by (rule captured_records_parse [OF sample_captured]) (simp only: sample_ring list.set insert_iff simp_thms)

theorem io_call_captured_witness:
  "let s' = krun x86_64 [(Sys_Enter 0, sample_ctx 1 10), (Sys_Enter 257, sample_ctx 2 20)] init_kstate;
       s'' = kstep x86_64 (Sys_Exit 5) (sample_ctx 1 30) s'
   in \<exists>r. ks_ring s'' = ks_ring s' @ [r] \<and> ks_io s'' 1 = None \<and>
        parse_event r = Some (ReadEv 0 1 7 5 5 20 30)"
  using io_call_captured [of x86_64 "sample_ctx 1 10" 0 EVENT_READ "[(Sys_Enter 257, sample_ctx 2 20)]" "sample_ctx 1 30" init_kstate 5]
  by (simp add: sample_simps io_call_event_def clamp_result_def pid_of_def tid_of_def Let_def)

theorem exited_thread_forgotten_witness:
  "let s' = krun x86_64 [(Sys_Enter 0, sample_ctx 1 10), (Process_Exit_Legacy, sample_ctx 1 20), (Sys_Exit 5, sample_ctx 2 25)] init_kstate
   in kstep x86_64 (Sys_Exit 5) (sample_ctx 1 30) s' = s'"
  using exited_thread_forgotten [of Process_Exit_Legacy 0 "sample_ctx 1 20" 1 "[(Sys_Exit 5, sample_ctx 2 25)]" x86_64
      "kstep x86_64 (Sys_Enter 0) (sample_ctx 1 10) init_kstate" "sample_ctx 1 30" 5]
  by (simp add: sample_simps Let_def krun_def)


end
