(* ===== verification/Containers.thy ===== *)
theory Containers
  imports Paths
begin

section \<open>Container discovery (ncda/src/container.rs)\<close>

text \<open>
  \<open>ContainerResolver\<close>: the cgroup extractors, the two discovery parsers, the lookup with its cache
  and the wait for the external command. \<open>/proc/PID/cgroup\<close> is the parameter \<open>cgroup\<close>, the file's
  text or \<open>None\<close>; a command is its exit status and output, or \<open>None\<close> when it could not be run in
  time. The tables are read by key only, hence maps.
\<close>

record resolver =
  cr_containers :: "string \<rightharpoonup> string"
  cr_sandboxes :: "string \<rightharpoonup> string"
  cr_pids :: "u32 \<rightharpoonup> string option"

definition new_resolver :: resolver where
  "new_resolver = \<lparr>cr_containers = Map.empty, cr_sandboxes = Map.empty, cr_pids = Map.empty\<rparr>"

subsection \<open>Text\<close>

text \<open>The rest of the text after the first occurrence of a pattern.\<close>

fun find_after :: "string \<Rightarrow> string \<Rightarrow> string option" where
  "find_after p [] = strip_prefix p []"
| "find_after p (c # cs) = (case strip_prefix p (c # cs) of Some r \<Rightarrow> Some r | None \<Rightarrow> find_after p cs)"

text \<open>\<open>str::lines\<close>: a final line needs no newline, and only a terminated line drops a carriage return.\<close>

definition drop_cr :: "string \<Rightarrow> string" where
  "drop_cr line = (case strip_suffix [CHR 0x0D] line of Some l \<Rightarrow> l | None \<Rightarrow> line)"

definition text_lines :: "string \<Rightarrow> string list" where
  "text_lines t =
     (let ls = split_on (CHR 0x0A) t
      in map drop_cr (butlast ls) @ (if last ls = [] then [] else [last ls]))"

definition ascii_hex :: "char \<Rightarrow> bool" where
  "ascii_hex c \<longleftrightarrow>
     (let n = of_char c :: nat in 48 \<le> n \<and> n \<le> 57 \<or> 65 \<le> n \<and> n \<le> 70 \<or> 97 \<le> n \<and> n \<le> 102)"

definition is_hex64 :: "string \<Rightarrow> bool" where
  "is_hex64 s \<longleftrightarrow> length s = 64 \<and> list_all ascii_hex s"

subsection \<open>Cgroup extractors\<close>

definition scope_prefixes :: "string list" where
  "scope_prefixes = [''cri-containerd-'', ''docker-'', ''libpod-'']"

fun first_scope_id :: "string list \<Rightarrow> string \<Rightarrow> string option" where
  "first_scope_id [] rest = None"
| "first_scope_id (p # ps) rest =
     (case strip_prefix p rest of
        Some cid \<Rightarrow> if is_hex64 cid then Some cid else first_scope_id ps rest
      | None \<Rightarrow> first_scope_id ps rest)"

definition extract_scope_id :: "string \<Rightarrow> string option" where
  "extract_scope_id cgroup_path =
     (let segment = last (split_on (CHR ''/'') cgroup_path)
      in case strip_suffix ''.scope'' segment of
           None \<Rightarrow> None
         | Some rest \<Rightarrow> first_scope_id scope_prefixes rest)"

definition extract_colon_id :: "string \<Rightarrow> string option" where
  "extract_colon_id cgroup_line =
     (let cid = last (split_on (CHR '':'') cgroup_line)
      in if \<not> is_hex64 cid then None
         else (case strip_suffix cid cgroup_line of
                 None \<Rightarrow> None
               | Some p \<Rightarrow>
                   (case strip_suffix '':'' p of
                      None \<Rightarrow> None
                    | Some pre \<Rightarrow>
                        if ends_with ''cri-containerd'' pre \<or> ends_with ''containerd'' pre then Some cid else None)))"

definition runtime_names :: "string list" where
  "runtime_names = [''docker'', ''kubepods'', ''containerd'', ''crio'', ''libpod'']"

definition extract_path_id :: "string \<Rightarrow> string option" where
  "extract_path_id cgroup_path =
     (let segments = split_on (CHR ''/'') cgroup_path; lst = last segments
      in if \<not> is_hex64 lst then None
         else if list_ex (\<lambda>s. s \<in> set runtime_names) segments then Some lst else None)"

subsection \<open>Lookup\<close>

definition short_id :: "string \<Rightarrow> string" where
  "short_id cid = take (min 12 (length cid)) cid"

definition known_name :: "(string \<rightharpoonup> string) \<Rightarrow> string \<Rightarrow> string" where
  "known_name names cid = (case names cid of Some n \<Rightarrow> n | None \<Rightarrow> short_id cid)"

text \<open>\<open>line.splitn(3, ':').nth(2).unwrap_or("")\<close>.\<close>

definition cgroup_path_of :: "string \<Rightarrow> string" where
  "cgroup_path_of line =
     (case find_after '':'' line of
        None \<Rightarrow> []
      | Some r \<Rightarrow> (case find_after '':'' r of None \<Rightarrow> [] | Some p \<Rightarrow> p))"

definition line_name :: "resolver \<Rightarrow> string \<Rightarrow> string option" where
  "line_name r line =
     (let path = cgroup_path_of line
      in case extract_scope_id path of
           Some cid \<Rightarrow> Some (known_name (cr_containers r) cid)
         | None \<Rightarrow>
             (case extract_colon_id line of
                Some cid \<Rightarrow> Some (known_name (cr_sandboxes r) cid)
              | None \<Rightarrow> map_option (known_name (cr_containers r)) (extract_path_id path)))"

fun lines_name :: "resolver \<Rightarrow> string list \<Rightarrow> string option" where
  "lines_name r [] = None"
| "lines_name r (l # ls) = (case line_name r l of Some n \<Rightarrow> Some n | None \<Rightarrow> lines_name r ls)"

definition lookup_pid :: "(u32 \<Rightarrow> string option) \<Rightarrow> resolver \<Rightarrow> u32 \<Rightarrow> string option" where
  "lookup_pid cgroup r pid =
     (case cgroup pid of None \<Rightarrow> None | Some t \<Rightarrow> lines_name r (text_lines t))"

definition container_resolve ::
    "(u32 \<Rightarrow> string option) \<Rightarrow> u32 \<Rightarrow> resolver \<Rightarrow> string option \<times> resolver" where
  "container_resolve cgroup pid r =
     (let r = (if cr_pids r pid = None
               then r\<lparr>cr_pids := (cr_pids r)(pid \<mapsto> lookup_pid cgroup r pid)\<rparr> else r)
      in (case cr_pids r pid of Some name \<Rightarrow> name | None \<Rightarrow> None, r))"

definition invalidate_pid :: "u32 \<Rightarrow> resolver \<Rightarrow> resolver" where
  "invalidate_pid pid r = r\<lparr>cr_pids := (cr_pids r)(pid := None)\<rparr>"

definition replace_discovery :: "resolver \<Rightarrow> resolver \<Rightarrow> resolver" where
  "replace_discovery discovered r =
     r\<lparr>cr_containers := cr_containers discovered, cr_sandboxes := cr_sandboxes discovered, cr_pids := Map.empty\<rparr>"

subsection \<open>JSON helpers\<close>

definition quoted :: "string \<Rightarrow> string" where
  "quoted key = CHR 0x22 # key @ [CHR 0x22]"

definition extract_json_string :: "string \<Rightarrow> string \<Rightarrow> string option" where
  "extract_json_string json key =
     (case find_after (quoted key) json of
        None \<Rightarrow> None
      | Some t \<Rightarrow>
          (case strip_prefix '':'' (trim_start t) of
             None \<Rightarrow> None
           | Some t \<Rightarrow>
               (case strip_prefix [CHR 0x22] (trim_start t) of
                  None \<Rightarrow> None
                | Some t \<Rightarrow> if CHR 0x22 \<in> set t then Some (takeWhile (\<lambda>c. c \<noteq> CHR 0x22) t) else None)))"

text \<open>
  The scan of the array, with the depth and, once an object is open, the text since its brace. The
  depth is an \<open>i32\<close>, which no text below two gigabytes overflows.
\<close>

fun scan_objects :: "int \<Rightarrow> string option \<Rightarrow> string \<Rightarrow> string list" where
  "scan_objects depth obj [] = []"
| "scan_objects depth obj (c # cs) =
     (if c = CHR ''{'' then
        scan_objects (depth + 1) (if depth = 0 then Some [c] else map_option (\<lambda>o'. o' @ [c]) obj) cs
      else if c = CHR ''}'' then
        (if depth - 1 = 0
         then (case obj of Some o' \<Rightarrow> [o' @ [c]] | None \<Rightarrow> []) @ scan_objects (depth - 1) None cs
         else scan_objects (depth - 1) (map_option (\<lambda>o'. o' @ [c]) obj) cs)
      else if c = CHR '']'' \<and> depth = 0 then []
      else scan_objects depth (map_option (\<lambda>o'. o' @ [c]) obj) cs)"

definition iter_json_array_objects :: "string \<Rightarrow> string \<Rightarrow> string list" where
  "iter_json_array_objects json array_key =
     (case find_after (quoted array_key) json of
        None \<Rightarrow> []
      | Some t \<Rightarrow>
          (case strip_prefix '':'' (trim_start t) of
             None \<Rightarrow> []
           | Some t \<Rightarrow>
               (case strip_prefix ''['' (trim_start t) of None \<Rightarrow> [] | Some t \<Rightarrow> scan_objects 0 None t)))"

subsection \<open>Discovery\<close>

definition valid_utf8 :: "string \<Rightarrow> bool" where
  "valid_utf8 s \<longleftrightarrow> snd (from_utf8 s) = None"

definition discover_entry :: "string \<Rightarrow> bool \<times> resolver \<Rightarrow> bool \<times> resolver" where
  "discover_entry entry = (\<lambda>(found, r).
     (case extract_json_string entry ''id'' of
        None \<Rightarrow> (found, r)
      | Some cid \<Rightarrow>
          if \<not> is_hex64 cid then (found, r)
          else (case extract_json_string entry ''name'' of
                  None \<Rightarrow> (found, r)
                | Some name \<Rightarrow>
                    if name = [] then (found, r)
                    else let r = r\<lparr>cr_containers := (cr_containers r)(cid \<mapsto> name)\<rparr>
                         in (True,
                             case extract_json_string entry ''podSandboxId'' of
                               None \<Rightarrow> r
                             | Some sid \<Rightarrow>
                                 if is_hex64 sid \<and> cr_sandboxes r sid = None
                                 then r\<lparr>cr_sandboxes := (cr_sandboxes r)(sid \<mapsto> name)\<rparr> else r))))"

definition discover_crictl :: "(bool \<times> string) option \<Rightarrow> resolver \<Rightarrow> bool \<times> resolver" where
  "discover_crictl output r =
     (case output of
        None \<Rightarrow> (False, r)
      | Some (success, stdout) \<Rightarrow>
          if \<not> success \<or> \<not> valid_utf8 stdout then (False, r)
          else fold discover_entry (iter_json_array_objects stdout ''containers'') (False, r))"

definition docker_line :: "string \<Rightarrow> resolver \<Rightarrow> resolver" where
  "docker_line line r =
     (let cid = takeWhile (\<lambda>c. c \<noteq> CHR 0x09) line
      in if \<not> is_hex64 cid then r
         else (case find_after [CHR 0x09] line of
                 None \<Rightarrow> r
               | Some name \<Rightarrow> if name = [] then r else r\<lparr>cr_containers := (cr_containers r)(cid \<mapsto> name)\<rparr>))"

definition discover_docker :: "(bool \<times> string) option \<Rightarrow> resolver \<Rightarrow> resolver" where
  "discover_docker output r =
     (case output of
        None \<Rightarrow> r
      | Some (success, stdout) \<Rightarrow>
          if \<not> success \<or> \<not> valid_utf8 stdout then r else fold docker_line (text_lines stdout) r)"

definition discover_blocking :: "(bool \<times> string) option \<Rightarrow> (bool \<times> string) option \<Rightarrow> resolver" where
  "discover_blocking crictl docker =
     (let (ok, r) = discover_crictl crictl new_resolver in if \<not> ok then discover_docker docker r else r)"

subsection \<open>Waiting for a command\<close>

text \<open>
  \<open>command_output\<close> after the spawn: \<open>poll i\<close> is what the i-th \<open>try_wait\<close> finds and \<open>clock i\<close> the
  time, in milliseconds, the loop then reads; not returning is \<open>None\<close>. The value tells whether the
  child exited by itself or was killed.
\<close>

datatype child_poll = Child_Exited | Child_Running | Poll_Failed

datatype wait_result = Wait_Output | Wait_Killed

definition COMMAND_TIMEOUT :: nat where
  "COMMAND_TIMEOUT = 2000"

partial_function (option) wait_child ::
    "(nat \<Rightarrow> child_poll) \<Rightarrow> (nat \<Rightarrow> nat) \<Rightarrow> nat \<Rightarrow> nat \<Rightarrow> wait_result option" where
  "wait_child poll clock deadline i =
     (case poll i of
        Child_Exited \<Rightarrow> Some Wait_Output
      | Child_Running \<Rightarrow>
          if clock i < deadline then wait_child poll clock deadline (Suc i) else Some Wait_Killed
      | Poll_Failed \<Rightarrow> Some Wait_Killed)"

subsection \<open>The extractors\<close>

lemma hex64_free: "is_hex64 s \<Longrightarrow> \<not> ascii_hex c \<Longrightarrow> c \<notin> set s"
  by (auto simp: is_hex64_def list_all_iff)

lemma not_hex [simp]: "\<not> ascii_hex (CHR ''/'')" "\<not> ascii_hex (CHR '':'')" "\<not> ascii_hex (CHR 0x22)"
    "\<not> ascii_hex (CHR 0x09)" "\<not> ascii_hex (CHR ''-'')" "\<not> ascii_hex (CHR ''{'')" "\<not> ascii_hex (CHR ''}'')"
    "\<not> ascii_hex (CHR 0x0A)" "\<not> ascii_hex (CHR 0x0D)"
  by (simp_all add: ascii_hex_def)

text \<open>The last piece of a split, and what precedes it.\<close>

lemma last_split_on: "d \<notin> set (last (split_on d xs)) \<and> (xs = last (split_on d xs) \<or> (\<exists>pre. xs = pre @ d # last (split_on d xs)))"
proof -
  have "xs = join_with [d] (split_on d xs)" by (simp add: join_split_on)
  moreover obtain ps l where ps: "split_on d xs = ps @ [l]"
    by (metis split_on_nonempty rev_exhaust)
  ultimately have "xs = join_with [d] (ps @ [l])" by simp
  moreover have "d \<notin> set l" using split_on_free [of l d xs] ps by simp
  ultimately show ?thesis
    using ps by (cases "ps = []") (auto simp: join_with_append)
qed

lemma last_split_snoc: "d \<notin> set l \<Longrightarrow> last (split_on d (pre @ d # l)) = l"
  by (simp add: split_on_append split_on_free_whole)

lemma last_split_iff:
  "last (split_on d xs) = l \<longleftrightarrow> d \<notin> set l \<and> (xs = l \<or> (\<exists>pre. xs = pre @ d # l))"
  using last_split_on [of d xs] last_split_snoc [of d l] split_on_free_whole [of d l] by auto

lemma first_scope_exact:
  "first_scope_id ps rest = Some cid \<Longrightarrow> is_hex64 cid \<and> (\<exists>p \<in> set ps. rest = p @ cid)"
  by (induction ps) (auto split: option.splits if_splits)

lemma first_scope_finds:
  "is_hex64 cid \<Longrightarrow> p \<in> set scope_prefixes \<Longrightarrow> first_scope_id scope_prefixes (p @ cid) = Some cid"
  by (auto simp: scope_prefixes_def)

text \<open>What every extractor promises: a full-length identifier that the text contains.\<close>

locale id_extractor =
  fixes ex_id :: "string \<Rightarrow> string option"
  assumes extract_hex: "ex_id s = Some cid \<Longrightarrow> is_hex64 cid"
    and extract_inside: "ex_id s = Some cid \<Longrightarrow> \<exists>a b. s = a @ cid @ b"
begin

lemma short_id_extracted: "ex_id s = Some cid \<Longrightarrow> short_id cid = take 12 cid \<and> length (short_id cid) = 12"
  using extract_hex by (auto simp: short_id_def is_hex64_def)

lemma extract_nonempty: "ex_id s = Some cid \<Longrightarrow> cid \<noteq> [] \<and> length cid \<le> length s"
  using extract_hex [of s cid] extract_inside [of s cid] by (auto simp: is_hex64_def)

end

lemma extract_scope_exact:
  "extract_scope_id path = Some cid \<longleftrightarrow>
     is_hex64 cid \<and> (\<exists>p \<in> set scope_prefixes. \<exists>dir. path = p @ cid @ ''.scope'' \<or> path = dir @ ''/'' @ p @ cid @ ''.scope'')"
proof
  assume "extract_scope_id path = Some cid"
  then obtain rest where r: "last (split_on (CHR ''/'') path) = rest @ ''.scope''"
      "first_scope_id scope_prefixes rest = Some cid"
    by (auto simp: extract_scope_id_def Let_def split: option.splits)
  with first_scope_exact obtain p where "is_hex64 cid" "p \<in> set scope_prefixes" "rest = p @ cid" by blast
  then show "is_hex64 cid \<and> (\<exists>p \<in> set scope_prefixes. \<exists>dir. path = p @ cid @ ''.scope'' \<or> path = dir @ ''/'' @ p @ cid @ ''.scope'')"
    using r last_split_on [of "CHR ''/''" path] by auto
next
  assume "is_hex64 cid \<and> (\<exists>p \<in> set scope_prefixes. \<exists>dir. path = p @ cid @ ''.scope'' \<or> path = dir @ ''/'' @ p @ cid @ ''.scope'')"
  then obtain p dir where h: "is_hex64 cid" "p \<in> set scope_prefixes"
      "path = p @ cid @ ''.scope'' \<or> path = dir @ ''/'' @ p @ cid @ ''.scope''" by blast
  then have "CHR ''/'' \<notin> set (p @ cid @ ''.scope'')"
    using hex64_free [of cid "CHR ''/''"] by (auto simp: scope_prefixes_def)
  with h(3) have "last (split_on (CHR ''/'') path) = p @ cid @ ''.scope''"
    by (auto simp: last_split_iff)
  moreover have "strip_suffix ''.scope'' (p @ cid @ ''.scope'') = Some (p @ cid)" by (simp only: strip_suffix_eq_Some append_assoc)
  ultimately show "extract_scope_id path = Some cid"
    using first_scope_finds [OF h(1,2)] by (simp only: extract_scope_id_def Let_def option.case)
qed

lemma extract_colon_exact:
  "extract_colon_id line = Some cid \<longleftrightarrow> is_hex64 cid \<and> (\<exists>pre. line = pre @ ''containerd:'' @ cid)"
proof
  assume "extract_colon_id line = Some cid"
  then show "is_hex64 cid \<and> (\<exists>pre. line = pre @ ''containerd:'' @ cid)"
    by (auto simp: extract_colon_id_def Let_def ends_with_def split: option.splits if_splits)
next
  assume "is_hex64 cid \<and> (\<exists>pre. line = pre @ ''containerd:'' @ cid)"
  then obtain pre where h: "is_hex64 cid" "line = (pre @ ''containerd'') @ CHR '':'' # cid" by auto
  then have "last (split_on (CHR '':'') line) = cid"
    using hex64_free [of cid "CHR '':''"] by (simp only: last_split_snoc not_hex simp_thms)
  moreover have "strip_suffix cid line = Some ((pre @ ''containerd'') @ '':'')" using h(2) by simp
  moreover have "strip_suffix '':'' ((pre @ ''containerd'') @ '':'') = Some (pre @ ''containerd'')"
    by (simp only: strip_suffix_eq_Some)
  moreover have "ends_with ''containerd'' (pre @ ''containerd'')" by (auto simp: ends_with_def)
  ultimately show "extract_colon_id line = Some cid"
    using h(1) by (simp only: extract_colon_id_def Let_def option.case if_True not_True_eq_False if_False simp_thms)
qed

lemma extract_path_exact:
  "extract_path_id path = Some cid \<longleftrightarrow>
     is_hex64 cid \<and> (\<exists>dir. path = dir @ ''/'' @ cid \<and> set runtime_names \<inter> set (split_on (CHR ''/'') dir) \<noteq> {})"
proof -
  have rt: "\<not> is_hex64 s" if "s \<in> set runtime_names" for s
    using that by (auto simp: runtime_names_def is_hex64_def)
  have "extract_path_id path = Some cid \<longleftrightarrow> last (split_on (CHR ''/'') path) = cid \<and> is_hex64 cid \<and>
      set runtime_names \<inter> set (split_on (CHR ''/'') path) \<noteq> {}"
    by (auto simp: extract_path_id_def Let_def list_ex_iff)
  also have "\<dots> \<longleftrightarrow> is_hex64 cid \<and> (\<exists>dir. path = dir @ ''/'' @ cid \<and> set runtime_names \<inter> set (split_on (CHR ''/'') dir) \<noteq> {})"
    (is "?l \<longleftrightarrow> ?r")
  proof
    assume l: ?l
    then have free: "CHR ''/'' \<notin> set cid" using hex64_free by simp
    with l rt [of cid] have "path \<noteq> cid" by (auto simp: split_on_free_whole)
    with l last_split_on [of "CHR ''/''" path] obtain dir where "path = dir @ CHR ''/'' # cid" by auto
    with l rt free show ?r by (auto simp: split_on_append split_on_free_whole)
  next
    assume ?r
    then obtain dir where r: "is_hex64 cid" "path = dir @ CHR ''/'' # cid"
      "set runtime_names \<inter> set (split_on (CHR ''/'') dir) \<noteq> {}" by auto
    then have "CHR ''/'' \<notin> set cid" using hex64_free by simp
    with r show ?l by (auto simp: split_on_append split_on_free_whole)
  qed
  finally show ?thesis .
qed

lemma extracted_inside:
  "extract_scope_id s = Some cid \<Longrightarrow> \<exists>a b. s = a @ cid @ b"
  "extract_colon_id s = Some cid \<Longrightarrow> \<exists>a b. s = a @ cid @ b"
  "extract_path_id s = Some cid \<Longrightarrow> \<exists>a b. s = a @ cid @ b"
proof -
  assume "extract_scope_id s = Some cid"
  then obtain p dir where "s = p @ cid @ ''.scope'' \<or> s = (dir @ ''/'' @ p) @ cid @ ''.scope''"
    by (auto simp: extract_scope_exact)
  then show "\<exists>a b. s = a @ cid @ b" by blast
next
  assume "extract_colon_id s = Some cid"
  then obtain pre where "s = (pre @ ''containerd:'') @ cid @ []" by (auto simp: extract_colon_exact)
  then show "\<exists>a b. s = a @ cid @ b" by blast
next
  assume "extract_path_id s = Some cid"
  then obtain dir where "s = (dir @ ''/'') @ cid @ []" by (auto simp: extract_path_exact)
  then show "\<exists>a b. s = a @ cid @ b" by blast
qed

interpretation scope_ids: id_extractor extract_scope_id
  by unfold_locales (simp add: extract_scope_exact, rule extracted_inside(1))

interpretation colon_ids: id_extractor extract_colon_id
  by unfold_locales (simp add: extract_colon_exact, rule extracted_inside(2))

interpretation path_ids: id_extractor extract_path_id
  by unfold_locales (simp add: extract_path_exact, rule extracted_inside(3))

text \<open>The three cgroup extractors recognise exactly their formats: a full identifier of 64 hex
  digits after a runtime prefix in a \<open>.scope\<close> unit, after a containerd marker and a colon, or as
  the last component below a runtime's directory.\<close>

theorem extractors_exact:
  "(extract_scope_id s = Some cid \<longleftrightarrow>
     is_hex64 cid \<and> (\<exists>p \<in> set scope_prefixes. \<exists>dir. s = p @ cid @ ''.scope'' \<or> s = dir @ ''/'' @ p @ cid @ ''.scope'')) \<and>
   (extract_colon_id s = Some cid \<longleftrightarrow> is_hex64 cid \<and> (\<exists>pre. s = pre @ ''containerd:'' @ cid)) \<and>
   (extract_path_id s = Some cid \<longleftrightarrow>
     is_hex64 cid \<and> (\<exists>dir. s = dir @ ''/'' @ cid \<and> set runtime_names \<inter> set (split_on (CHR ''/'') dir) \<noteq> {}))"
  by (intro conjI extract_scope_exact extract_colon_exact extract_path_exact)

subsection \<open>Lookup and cache\<close>

text \<open>A container's display name: a discovered name, or the first 12 digits of its identifier.\<close>

definition names_id :: "resolver \<Rightarrow> string \<Rightarrow> string \<Rightarrow> bool" where
  "names_id r cid n \<longleftrightarrow>
     cr_containers r cid = Some n \<or> cr_sandboxes r cid = Some n \<or> n = take 12 cid \<and> length n = 12"

lemma find_after_suffix: "find_after p t = Some r \<Longrightarrow> \<exists>a. t = a @ r"
proof (induction p t rule: find_after.induct)
  case (1 p)
  then show ?case by auto
next
  case (2 p c cs)
  show ?case
  proof (cases "strip_prefix p (c # cs)")
    case None
    with 2 obtain a where "cs = a @ r" by auto
    then have "c # cs = (c # a) @ r" by simp
    then show ?thesis ..
  next
    case (Some u)
    with 2(2) have "u = r" by simp
    with Some show ?thesis by (auto simp only: strip_prefix_eq_Some)
  qed
qed

lemma line_name_sound:
  assumes "line_name r line = Some n"
  shows "\<exists>cid. is_hex64 cid \<and> (\<exists>a b. line = a @ cid @ b) \<and> names_id r cid n"
proof -
  have inside: "\<exists>a. line = a @ cgroup_path_of line \<or> cgroup_path_of line = []"
  proof -
    show ?thesis
    proof (cases "find_after '':'' line")
      case (Some t)
      show ?thesis
      proof (cases "find_after '':'' t")
        case (Some u)
        with \<open>find_after '':'' line = Some t\<close> obtain a b where "line = a @ t" "t = b @ u" using find_after_suffix by meson
        then have "line = (a @ b) @ cgroup_path_of line"
          using Some \<open>find_after '':'' line = Some t\<close> by (simp add: cgroup_path_of_def)
        then show ?thesis by blast
      qed (simp add: cgroup_path_of_def Some)
    qed (simp add: cgroup_path_of_def)
  qed
  have in_line: "\<exists>a b. line = a @ cid @ b" if "\<exists>a b. cgroup_path_of line = a @ cid @ b" "cid \<noteq> []" for cid
  proof -
    from that obtain a b where ab: "cgroup_path_of line = a @ cid @ b" by blast
    with that(2) inside obtain c where "line = (c @ a) @ cid @ b" by auto
    then show ?thesis by blast
  qed
  have known: "names_id r cid (known_name (cr_containers r) cid)" "names_id r cid (known_name (cr_sandboxes r) cid)"
    if "is_hex64 cid" for cid
    using that by (auto simp: names_id_def known_name_def short_id_def is_hex64_def split: option.split)
  show ?thesis
  proof (cases "extract_scope_id (cgroup_path_of line)")
    case (Some cid)
    with assms known(1) [of cid] in_line [of cid] show ?thesis
      using scope_ids.extract_hex scope_ids.extract_inside scope_ids.extract_nonempty
      by (simp add: line_name_def) blast
  next
    case scope: None
    show ?thesis
    proof (cases "extract_colon_id line")
      case (Some cid)
      with scope assms known(2) [of cid] show ?thesis
        using colon_ids.extract_hex colon_ids.extract_inside by (simp add: line_name_def) blast
    next
      case None
      with scope assms obtain cid where "extract_path_id (cgroup_path_of line) = Some cid"
        "n = known_name (cr_containers r) cid" by (auto simp: line_name_def)
      then show ?thesis
        using path_ids.extract_hex path_ids.extract_inside path_ids.extract_nonempty known(1) [of cid] in_line [of cid]
        by blast
    qed
  qed
qed

lemma lines_name_sound: "lines_name r ls = Some n \<Longrightarrow> \<exists>l \<in> set ls. line_name r l = Some n"
  by (induction ls) (auto split: option.splits)

text \<open>(C30) A process is only ever named after a container its own cgroup file mentions: the name is
  the one discovered for a 64-digit identifier on one of the file's lines, or that identifier's
  first twelve digits.\<close>

theorem lookup_pid_sound:
  assumes "lookup_pid cgroup r pid = Some n"
  shows "\<exists>t line cid. cgroup pid = Some t \<and> line \<in> set (text_lines t) \<and> is_hex64 cid \<and>
           (\<exists>a b. line = a @ cid @ b) \<and> names_id r cid n"
proof -
  obtain t where t: "cgroup pid = Some t" "lines_name r (text_lines t) = Some n"
    using assms by (auto simp: lookup_pid_def split: option.splits)
  then obtain line where "line \<in> set (text_lines t)" "line_name r line = Some n"
    using lines_name_sound by blast
  with t line_name_sound show ?thesis by blast
qed

text \<open>The operations on a resolver, with the cgroup files of their moment.\<close>

datatype resolver_op =
  Resolve_Op "u32 \<Rightarrow> string option" u32 | Invalidate_Op u32 | Replace_Op resolver

fun resolver_step :: "resolver_op \<Rightarrow> resolver \<Rightarrow> resolver" where
  "resolver_step (Resolve_Op cgroup pid) r = snd (container_resolve cgroup pid r)"
| "resolver_step (Invalidate_Op pid) r = invalidate_pid pid r"
| "resolver_step (Replace_Op d) r = replace_discovery d r"

fun forgets :: "u32 \<Rightarrow> resolver_op \<Rightarrow> bool" where
  "forgets pid (Resolve_Op cgroup p) = False"
| "forgets pid (Invalidate_Op p) = (p = pid)"
| "forgets pid (Replace_Op d) = True"

lemma resolve_cached: "cr_pids r pid = Some n \<Longrightarrow> container_resolve cgroup pid r = (n, r)"
  by (simp add: container_resolve_def)

lemma resolve_fresh:
  "cr_pids r pid = None \<Longrightarrow> container_resolve cgroup pid r =
     (lookup_pid cgroup r pid, r\<lparr>cr_pids := (cr_pids r)(pid \<mapsto> lookup_pid cgroup r pid)\<rparr>)"
  by (simp add: container_resolve_def)

lemma resolver_step_keeps:
  "cr_pids r pid = Some n \<Longrightarrow> \<not> forgets pid op \<Longrightarrow> cr_pids (resolver_step op r) pid = Some n"
  by (cases op) (auto simp: container_resolve_def invalidate_pid_def)

lemma resolver_steps_keep:
  "cr_pids r pid = Some n \<Longrightarrow> list_all (\<lambda>op. \<not> forgets pid op) ops \<Longrightarrow> cr_pids (fold resolver_step ops r) pid = Some n"
  by (induction ops arbitrary: r) (auto simp: resolver_step_keeps)

text \<open>Attribution to a container is stable and refreshed exactly on request: once a process has
  been resolved, every later answer is the same whatever its cgroup file becomes, until the
  process is invalidated or the discovery replaced; the first answer after that is a lookup in the
  current files and tables.\<close>

theorem container_cache_stable:
  assumes "list_all (\<lambda>op. \<not> forgets pid op) ops" and "forgets pid op"
  shows "let (n, r1) = container_resolve cgroup pid r; r2 = fold resolver_step ops r1; r3 = resolver_step op r2
         in fst (container_resolve cgroup' pid r2) = n \<and>
            fst (container_resolve cgroup' pid r3) = lookup_pid cgroup' r3 pid"
proof -
  obtain n r1 where r1: "container_resolve cgroup pid r = (n, r1)" by fastforce
  then have "cr_pids r1 pid = Some n" by (cases "cr_pids r pid") (auto simp: container_resolve_def)
  then have "cr_pids (fold resolver_step ops r1) pid = Some n" using assms(1) by (rule resolver_steps_keep)
  moreover have "cr_pids (resolver_step op r') pid = None" for r'
    using assms(2) by (cases op) (auto simp: invalidate_pid_def replace_discovery_def)
  ultimately show ?thesis using r1 by (simp add: resolve_cached resolve_fresh)
qed

subsection \<open>Waiting ends\<close>

text \<open>Waiting for a command ends: if each pause lasts at least the 25 milliseconds asked for, the
  loop returns after at most 81 polls, with the output exactly when the child exits at a poll
  before which every poll found it running and the deadline not reached.\<close>

theorem wait_child_ends:
  assumes "start \<le> clock 0" and "\<And>i. clock i + 25 \<le> clock (Suc i)"
  shows "\<exists>i \<le> 80. \<exists>res. wait_child poll clock (start + COMMAND_TIMEOUT) 0 = Some res \<and>
     (\<forall>j < i. poll j = Child_Running \<and> clock j < start + COMMAND_TIMEOUT) \<and>
     (res = Wait_Output \<longleftrightarrow> poll i = Child_Exited) \<and>
     (poll i = Child_Running \<longrightarrow> start + COMMAND_TIMEOUT \<le> clock i)"
proof -
  let ?w = "wait_child poll clock (start + COMMAND_TIMEOUT)"
  let ?go = "\<lambda>j. poll j = Child_Running \<and> clock j < start + COMMAND_TIMEOUT"
  have clock: "start + 25 * i \<le> clock i" for i
  proof (induction i)
    case (Suc i)
    then show ?case using assms(2) [of i] by simp
  qed (use assms(1) in simp)
  have run: "(\<forall>j < i. ?go j) \<Longrightarrow> ?w 0 = ?w i" for i
  proof (induction i)
    case (Suc i)
    then show ?case by (simp add: wait_child.simps [of poll clock _ i])
  qed simp
  have stop: "\<not> ?go 80" using clock [of 80] by (simp add: COMMAND_TIMEOUT_def)
  let ?i = "LEAST i. \<not> ?go i"
  have i: "?i \<le> 80" "\<not> ?go ?i" "\<forall>j < ?i. ?go j"
    using Least_le [of "\<lambda>i. \<not> ?go i", OF stop] LeastI [of "\<lambda>i. \<not> ?go i", OF stop] not_less_Least [of _ "\<lambda>i. \<not> ?go i"]
    by blast+
  define i where "i = ?i"
  note bounds = i [folded i_def]
  have "?w 0 = ?w i" using run [of i] bounds(3) by blast
  also have "\<dots> = Some (if poll i = Child_Exited then Wait_Output else Wait_Killed)"
    using bounds(2) by (cases "poll i") (simp_all add: wait_child.simps [of poll clock _ i])
  finally show ?thesis using bounds by (intro exI [of _ i]) auto
qed

subsection \<open>Reading what the tools print\<close>

text \<open>A container as \<open>crictl\<close> reports it: identifier, name, sandbox.\<close>

record container_entry =
  ce_id :: string
  ce_name :: string
  ce_sandbox :: string

text \<open>Names of printable ASCII other than a space, a quote and the braces.\<close>

definition name_char :: "char \<Rightarrow> bool" where
  "name_char c \<longleftrightarrow> plain_byte c \<and> c \<noteq> CHR 0x22 \<and> c \<noteq> CHR ''{'' \<and> c \<noteq> CHR ''}''"

definition entry_ok :: "container_entry \<Rightarrow> bool" where
  "entry_ok e \<longleftrightarrow> is_hex64 (ce_id e) \<and> is_hex64 (ce_sandbox e) \<and> ce_name e \<noteq> [] \<and>
     list_all name_char (ce_name e) \<and> ce_name e \<noteq> ''podSandboxId''"

definition render_entry :: "container_entry \<Rightarrow> string" where
  "render_entry e = ''{'' @ quoted ''id'' @ '': '' @ quoted (ce_id e) @ '', '' @ quoted ''metadata'' @ '': {'' @
     quoted ''name'' @ '': '' @ quoted (ce_name e) @ '', '' @ quoted ''attempt'' @ '': 0}, '' @
     quoted ''podSandboxId'' @ '': '' @ quoted (ce_sandbox e) @ ''}''"

definition render_crictl :: "container_entry list \<Rightarrow> string" where
  "render_crictl es = ''{'' @ quoted ''containers'' @ '': ['' @ join_with '', '' (map render_entry es) @ '']}''"

lemma find_after_skip: "c \<notin> set a \<Longrightarrow> find_after (c # p) (a @ s) = find_after (c # p) s"
  by (induction a) auto

lemma strip_quoted:
  "CHR 0x22 \<notin> set k \<Longrightarrow> CHR 0x22 \<notin> set v \<Longrightarrow> strip_prefix (quoted k) (quoted v @ s) = (if v = k then Some s else None)"
proof -
  assume free: "CHR 0x22 \<notin> set k" "CHR 0x22 \<notin> set v"
  have "strip_prefix (k @ [q]) (v @ q # s) = (if v = k then Some s else None)" if "q \<notin> set k" "q \<notin> set v" for q :: char
    using that
  proof (induction k arbitrary: v)
    case Nil
    then show ?case by (cases v) auto
  next
    case (Cons x k)
    then show ?case by (cases v) auto
  qed
  with free show ?thesis by (simp add: quoted_def)
qed

lemma find_after_quoted:
  assumes "CHR 0x22 \<notin> set k" and "CHR 0x22 \<notin> set v" and "v \<noteq> k"
  shows "find_after (quoted k) (quoted v @ s) = find_after (quoted k) (CHR 0x22 # s)"
proof -
  have "find_after (quoted k) (quoted v @ s) = find_after (quoted k) (v @ CHR 0x22 # s)"
    using strip_quoted [OF assms(1,2), of s] assms(3) by (simp add: quoted_def)
  also have "\<dots> = find_after (quoted k) (CHR 0x22 # s)"
    using assms(2) by (simp add: quoted_def find_after_skip)
  finally show ?thesis .
qed

lemma find_after_hit: "CHR 0x22 \<notin> set k \<Longrightarrow> find_after (quoted k) (quoted k @ s) = Some s"
proof -
  obtain c cs where cs: "quoted k @ s = c # cs" by (simp add: quoted_def)
  then have "strip_prefix (quoted k) (c # cs) = Some s" by (metis strip_prefix_append)
  then show ?thesis by (simp only: cs find_after.simps option.case)
qed

text \<open>A closing quote followed by other text than the key's.\<close>

lemma find_after_close: "c \<noteq> hd k \<Longrightarrow> k \<noteq> [] \<Longrightarrow> find_after (quoted k) (CHR 0x22 # c # s) = find_after (quoted k) (c # s)"
  by (cases k) (simp_all add: quoted_def)

lemma find_after_other: "c \<noteq> CHR 0x22 \<Longrightarrow> find_after (quoted k) (c # s) = find_after (quoted k) s"
  by (simp add: quoted_def)

lemma lead_space_spaces: "lead_space (CHR '' '' # s) = 1"
proof -
  obtain rest where w: "white_space = [char_of (9 :: nat)] # [char_of (10 :: nat)] # [char_of (11 :: nat)] #
      [char_of (12 :: nat)] # [char_of (13 :: nat)] # [char_of (32 :: nat)] # rest"
    by (simp only: white_space_def append_Cons append_Nil list.map)
  have other: "char_of (n :: nat) \<noteq> CHR '' ''" if "n \<in> {9, 10, 11, 12, 13}" for n
    using that by (auto dest!: arg_cong [where f = "of_char :: char \<Rightarrow> nat"])
  have "of_char (CHR '' '') = (32 :: nat)" by simp
  then have "char_of (32 :: nat) = CHR '' ''" by (metis char_of_char)
  with other show ?thesis
    by (simp add: lead_space_def w starts_with_def)
qed

lemma trim_start_blank: "plain_byte c \<Longrightarrow> trim_start (CHR '' '' # c # s) = c # s"
  by (simp add: trim_start.simps [of "CHR '' '' # c # s"] lead_space_spaces trim_start_plain)

lemma plain_punctuation [simp]: "plain_byte (CHR '':'')" "plain_byte (CHR 0x22)" "plain_byte (CHR ''['')"
  by (simp_all add: plain_byte_def)

lemma take_quoted: "CHR 0x22 \<notin> set v \<Longrightarrow> takeWhile (\<lambda>c. c \<noteq> CHR 0x22) (v @ CHR 0x22 # s) = v"
  by (simp add: takeWhile_append)

lemma extract_at:
  assumes "find_after (quoted k) json = Some ('': '' @ quoted v @ s)" and "CHR 0x22 \<notin> set v"
  shows "extract_json_string json k = Some v"
proof -
  have "trim_start ('': '' @ quoted v @ s) = '': '' @ quoted v @ s" by (simp add: trim_start_plain)
  moreover have "trim_start ('' '' @ quoted v @ s) = CHR 0x22 # v @ CHR 0x22 # s"
    by (simp add: quoted_def trim_start_blank)
  ultimately show ?thesis
    using assms by (simp add: extract_json_string_def take_quoted)
qed

lemma entry_parts:
  assumes "entry_ok e"
  shows "CHR 0x22 \<notin> set (ce_id e)" "CHR 0x22 \<notin> set (ce_name e)" "CHR 0x22 \<notin> set (ce_sandbox e)"
  using assms hex64_free [of "ce_id e"] hex64_free [of "ce_sandbox e"]
  by (auto simp: entry_ok_def name_char_def list_all_iff)

declare find_after.simps [simp del]

lemmas find_steps = find_after_other find_after_hit find_after_close find_after_quoted append_Cons append_Nil append_assoc

lemma extract_entry_id: "entry_ok e \<Longrightarrow> extract_json_string (render_entry e) ''id'' = Some (ce_id e)"
  by (rule extract_at) (simp_all add: render_entry_def find_steps entry_parts)

lemma extract_entry_name: "entry_ok e \<Longrightarrow> extract_json_string (render_entry e) ''name'' = Some (ce_name e)"
proof -
  assume e: "entry_ok e"
  then have "ce_id e \<noteq> ''name''" by (auto simp: entry_ok_def is_hex64_def)
  with e show ?thesis
    by (intro extract_at) (simp_all add: render_entry_def find_steps entry_parts)
qed

lemma extract_entry_sandbox:
  "entry_ok e \<Longrightarrow> extract_json_string (render_entry e) ''podSandboxId'' = Some (ce_sandbox e)"
proof -
  assume e: "entry_ok e"
  then have "ce_id e \<noteq> ''podSandboxId''" "ce_name e \<noteq> ''podSandboxId''" by (auto simp: entry_ok_def is_hex64_def)
  with e show ?thesis
    by (intro extract_at [where s = "''}''"]) (simp_all add: render_entry_def find_steps entry_parts)
qed

lemma scan_inside:
  "list_all (\<lambda>c. c \<noteq> CHR ''{'' \<and> c \<noteq> CHR ''}'') a \<Longrightarrow> d \<noteq> 0 \<Longrightarrow>
   scan_objects d (Some o') (a @ s) = scan_objects d (Some (o' @ a)) s"
  by (induction a arbitrary: o') auto

definition brace_free :: "string \<Rightarrow> bool" where
  "brace_free a \<longleftrightarrow> list_all (\<lambda>c. c \<noteq> CHR ''{'' \<and> c \<noteq> CHR ''}'') a"

lemma scan_nested:
  assumes "brace_free a" and "brace_free b" and "brace_free c"
  shows "scan_objects 0 None (''{'' @ a @ ''{'' @ b @ ''}'' @ c @ ''}'' @ s) =
    (''{'' @ a @ ''{'' @ b @ ''}'' @ c @ ''}'') # scan_objects 0 None s"
  using assms by (simp add: brace_free_def scan_inside)

lemma render_entry_nested:
  assumes "entry_ok e"
  shows "\<exists>a b c. brace_free a \<and> brace_free b \<and> brace_free c \<and> render_entry e = ''{'' @ a @ ''{'' @ b @ ''}'' @ c @ ''}''"
proof -
  let ?a = "quoted ''id'' @ '': '' @ quoted (ce_id e) @ '', '' @ quoted ''metadata'' @ '': ''"
  let ?b = "quoted ''name'' @ '': '' @ quoted (ce_name e) @ '', '' @ quoted ''attempt'' @ '': 0''"
  let ?c = "'', '' @ quoted ''podSandboxId'' @ '': '' @ quoted (ce_sandbox e)"
  have hex: "is_hex64 s \<Longrightarrow> brace_free s" for s
    using hex64_free [of s "CHR ''{''"] hex64_free [of s "CHR ''}''"] by (auto simp: brace_free_def list_all_iff)
  have "brace_free (ce_name e)" using assms by (auto simp: entry_ok_def name_char_def brace_free_def list_all_iff)
  with assms hex [of "ce_id e"] hex [of "ce_sandbox e"]
  have "brace_free ?a" "brace_free ?b" "brace_free ?c"
    by (simp_all add: entry_ok_def brace_free_def quoted_def)
  then show ?thesis by (intro exI [of _ ?a] exI [of _ ?b] exI [of _ ?c]) (simp add: render_entry_def)
qed

lemma scan_entry: "entry_ok e \<Longrightarrow> scan_objects 0 None (render_entry e @ s) = render_entry e # scan_objects 0 None s"
proof -
  assume "entry_ok e"
  then obtain a b c where "brace_free a" "brace_free b" "brace_free c"
    "render_entry e = ''{'' @ a @ ''{'' @ b @ ''}'' @ c @ ''}''" using render_entry_nested by blast
  then show ?thesis using scan_nested [of a b c s] by (simp only: append_assoc)
qed

lemma scan_entries:
  "list_all entry_ok es \<Longrightarrow> scan_objects 0 None (join_with '', '' (map render_entry es) @ '']}'') = map render_entry es"
proof (induction es)
  case (Cons e es)
  then show ?case by (cases es) (simp_all add: scan_entry)
qed simp

lemma crictl_objects: "list_all entry_ok es \<Longrightarrow> iter_json_array_objects (render_crictl es) ''containers'' = map render_entry es"
proof -
  assume es: "list_all entry_ok es"
  let ?t = "join_with '', '' (map render_entry es) @ '']}''"
  have "find_after (quoted ''containers'') (render_crictl es) = Some ('': ['' @ ?t)"
    by (simp add: render_crictl_def find_steps)
  then show ?thesis
    by (simp add: iter_json_array_objects_def trim_start_plain trim_start_blank scan_entries [OF es])
qed

definition ascii :: "string \<Rightarrow> bool" where
  "ascii s \<longleftrightarrow> list_all (\<lambda>c. (of_char c :: nat) < 128) s"

lemma valid_utf8_ascii: "ascii s \<Longrightarrow> valid_utf8 s"
  unfolding valid_utf8_def
proof (induction s)
  case Nil
  then show ?case by (simp add: from_utf8.simps)
next
  case (Cons c s)
  then have "(of_char c :: nat) < 0x80" by (simp add: ascii_def)
  then have "utf8_width c = 1" by (simp only: utf8_width_def Let_def if_True)
  then have "utf8_head (c # s) = Whole 1" by (simp only: utf8_head.simps Let_def simp_thms if_True)
  with Cons show ?case by (cases "from_utf8 s") (simp add: from_utf8.simps [of "c # s"] ascii_def)
qed

lemma discover_entries:
  "list_all entry_ok es \<Longrightarrow> fold discover_entry (map render_entry es) (found, r) =
     (found \<or> es \<noteq> [],
      r\<lparr>cr_containers := cr_containers r ++ map_of (rev (map (\<lambda>e. (ce_id e, ce_name e)) es)),
        cr_sandboxes := map_of (map (\<lambda>e. (ce_sandbox e, ce_name e)) es) ++ cr_sandboxes r\<rparr>)"
proof (induction es arbitrary: found r)
  case (Cons e es)
  then have e: "entry_ok e" by simp
  let ?r = "r\<lparr>cr_containers := (cr_containers r)(ce_id e \<mapsto> ce_name e),
      cr_sandboxes := [ce_sandbox e \<mapsto> ce_name e] ++ cr_sandboxes r\<rparr>"
  have "discover_entry (render_entry e) (found, r) = (True, ?r)"
  proof (cases "cr_sandboxes r (ce_sandbox e)")
    case None
    then have "[ce_sandbox e \<mapsto> ce_name e] ++ cr_sandboxes r = (cr_sandboxes r)(ce_sandbox e \<mapsto> ce_name e)"
      by (auto simp: map_add_def fun_eq_iff split: option.split)
    with None e show ?thesis
      by (simp add: discover_entry_def extract_entry_id extract_entry_name extract_entry_sandbox) (simp add: entry_ok_def)
  next
    case (Some n)
    then have "[ce_sandbox e \<mapsto> ce_name e] ++ cr_sandboxes r = cr_sandboxes r"
      by (auto simp: map_add_def fun_eq_iff split: option.split)
    with Some e show ?thesis
      by (simp add: discover_entry_def extract_entry_id extract_entry_name extract_entry_sandbox) (simp add: entry_ok_def)
  qed
  then show ?case
    using Cons.IH [of True ?r] Cons.prems
    by (simp add: map_add_assoc [symmetric] map_add_upd_left) (simp add: map_add_def fun_eq_iff split: option.split)
qed simp

lemma ascii_append [simp]: "ascii (a @ b) \<longleftrightarrow> ascii a \<and> ascii b"
  by (auto simp: ascii_def)

lemma ascii_join: "list_all ascii ps \<Longrightarrow> ascii sep \<Longrightarrow> ascii (join_with sep ps)"
proof (induction ps)
  case (Cons p ps)
  then show ?case by (cases ps) simp_all
qed (simp add: ascii_def)

lemma ascii_parts: "is_hex64 s \<Longrightarrow> ascii s" "list_all name_char n \<Longrightarrow> ascii n"
proof -
  have "of_char c < (128 :: nat)" if "ascii_hex c" for c
    using that unfolding ascii_hex_def Let_def by linarith
  then show "is_hex64 s \<Longrightarrow> ascii s" by (simp add: is_hex64_def ascii_def list_all_iff)
  have "of_char c < (128 :: nat)" if "name_char c" for c
    using that unfolding name_char_def plain_byte_def by linarith
  then show "list_all name_char n \<Longrightarrow> ascii n" by (simp add: ascii_def list_all_iff)
qed

lemma ascii_plain: "list_all plain_byte n \<Longrightarrow> ascii n"
proof -
  have "of_char c < (128 :: nat)" if "plain_byte c" for c
    using that unfolding plain_byte_def by linarith
  then show "list_all plain_byte n \<Longrightarrow> ascii n" by (simp add: ascii_def list_all_iff)
qed

lemma ascii_render_crictl: "list_all entry_ok es \<Longrightarrow> ascii (render_crictl es)"
proof -
  assume es: "list_all entry_ok es"
  have "ascii (render_entry e)" if "entry_ok e" for e
    using that ascii_parts [of "ce_id e"] ascii_parts [of "ce_sandbox e"] ascii_parts(2) [of "ce_name e"]
    by (simp add: entry_ok_def render_entry_def quoted_def) (simp add: ascii_def)
  with es have "list_all ascii (map render_entry es)" by (auto simp: list_all_iff)
  then have "ascii (join_with '', '' (map render_entry es))" by (rule ascii_join) (simp add: ascii_def)
  then show ?thesis by (simp add: render_crictl_def quoted_def) (simp add: ascii_def)
qed


text \<open>What \<open>docker ps\<close> prints for the format asked for: a line per container, a tab between.\<close>

definition render_docker :: "(string \<times> string) list \<Rightarrow> string" where
  "render_docker cs = concat (map (\<lambda>(cid, name). cid @ CHR 0x09 # name @ [CHR 0x0A]) cs)"

definition docker_ok :: "string \<times> string \<Rightarrow> bool" where
  "docker_ok c \<longleftrightarrow> is_hex64 (fst c) \<and> snd c \<noteq> [] \<and> list_all plain_byte (snd c)"

lemma text_lines_line:
  assumes "CHR 0x0A \<notin> set l" and "CHR 0x0D \<notin> set l"
  shows "text_lines (l @ CHR 0x0A # t) = l # text_lines t"
proof -
  have "drop_cr l = l" using assms(2) by (auto simp: drop_cr_def split: option.split)
  then show ?thesis using assms(1) by (simp add: text_lines_def split_on_append_free Let_def)
qed

lemma plain_no_break: "list_all plain_byte n \<Longrightarrow> CHR 0x0A \<notin> set n \<and> CHR 0x0D \<notin> set n"
  by (auto simp: list_all_iff plain_byte_def)

lemma docker_lines: "list_all docker_ok cs \<Longrightarrow> text_lines (render_docker cs) = map (\<lambda>(cid, name). cid @ CHR 0x09 # name) cs"
proof (induction cs)
  case Nil
  then show ?case by (simp add: render_docker_def text_lines_def)
next
  case (Cons c cs)
  let ?l = "fst c @ CHR 0x09 # snd c"
  have "CHR 0x0A \<notin> set ?l" "CHR 0x0D \<notin> set ?l"
    using Cons.prems hex64_free [of "fst c" "CHR 0x0A"] hex64_free [of "fst c" "CHR 0x0D"] plain_no_break [of "snd c"]
    by (auto simp: docker_ok_def)
  then have "text_lines (?l @ CHR 0x0A # render_docker cs) = ?l # text_lines (render_docker cs)"
    by (rule text_lines_line)
  then show ?case using Cons by (cases c) (simp add: render_docker_def)
qed

lemma docker_line_ok:
  assumes "docker_ok c"
  shows "docker_line (fst c @ CHR 0x09 # snd c) r = r\<lparr>cr_containers := (cr_containers r)(fst c \<mapsto> snd c)\<rparr>"
proof -
  have free: "CHR 0x09 \<notin> set (fst c)" using assms hex64_free by (simp add: docker_ok_def)
  then have "takeWhile (\<lambda>x. x \<noteq> CHR 0x09) (fst c @ CHR 0x09 # snd c) = fst c"
    by (simp add: takeWhile_append)
  moreover have "find_after [CHR 0x09] (fst c @ CHR 0x09 # snd c) = Some (snd c)"
    using free by (simp add: find_after_skip find_after.simps)
  ultimately show ?thesis using assms by (simp add: docker_line_def docker_ok_def)
qed

lemma discover_entry_unfound: "\<not> fst (discover_entry e p) \<Longrightarrow> discover_entry e p = p"
  by (cases p) (auto simp: discover_entry_def Let_def split: option.splits if_splits)

lemma discover_unfound: "\<not> fst (fold discover_entry es p) \<Longrightarrow> fold discover_entry es p = p"
proof (induction es arbitrary: p)
  case (Cons e es)
  then have "fold discover_entry es (discover_entry e p) = discover_entry e p" by simp
  with Cons.prems discover_entry_unfound [of e p] show ?case by simp
qed simp

lemma crictl_failed: "\<not> fst (discover_crictl output r) \<Longrightarrow> discover_crictl output r = (False, r)"
  using discover_unfound [of _ "(False, r)"] by (auto simp: discover_crictl_def split: option.splits prod.splits if_splits)

text \<open>The fallback reads back what \<open>docker ps\<close> prints: each identifier's last name, and nothing
  else, whatever \<open>crictl\<close> failed with.\<close>

theorem docker_discovery_exact:
  assumes "list_all docker_ok cs" and "fst (discover_crictl crictl new_resolver) = False"
  shows "discover_blocking crictl (Some (True, render_docker cs)) =
    \<lparr>cr_containers = map_of (rev cs), cr_sandboxes = Map.empty, cr_pids = Map.empty\<rparr>"
proof -
  have "fold docker_line (map (\<lambda>c. fst c @ CHR 0x09 # snd c) cs) r =
      r\<lparr>cr_containers := cr_containers r ++ map_of (rev cs)\<rparr>" for r
    using assms(1)
  proof (induction cs arbitrary: r)
    case (Cons c cs)
    then show ?case by (cases c) (simp add: docker_line_ok [of "(_, _)", simplified])
  qed simp
  moreover have "ascii (render_docker cs)"
    using assms(1)
  proof (induction cs)
    case (Cons c cs)
    then have "ascii (fst c)" "ascii (snd c)"
      by (simp_all add: docker_ok_def ascii_parts ascii_plain)
    with Cons show ?case by (cases c) (simp add: render_docker_def, simp add: ascii_def)
  qed (simp add: render_docker_def ascii_def)
  ultimately have "discover_docker (Some (True, render_docker cs)) new_resolver =
      new_resolver\<lparr>cr_containers := cr_containers new_resolver ++ map_of (rev cs)\<rparr>"
    using docker_lines [OF assms(1)] by (simp add: discover_docker_def valid_utf8_ascii case_prod_beta')
  then show ?thesis
    using crictl_failed [of crictl new_resolver] assms(2) by (simp add: discover_blocking_def new_resolver_def)
qed

subsection \<open>Concrete inputs\<close>

definition sample_id :: string where
  "sample_id = replicate 64 (CHR ''a'')"

lemma sample_hex [simp]: "is_hex64 sample_id"
  by (simp add: is_hex64_def sample_id_def list_all_iff ascii_hex_def)

lemma sample_lookup:
  "lookup_pid (\<lambda>_. Some (''0::/docker/'' @ sample_id)) new_resolver 1 = Some (replicate 12 (CHR ''a''))"
  by code_simp

theorem lookup_pid_sound_witness:
  "\<exists>t line cid. Some (''0::/docker/'' @ sample_id) = Some t \<and> line \<in> set (text_lines t) \<and> is_hex64 cid \<and>
     (\<exists>a b. line = a @ cid @ b) \<and> names_id new_resolver cid (replicate 12 (CHR ''a''))"
  by (rule lookup_pid_sound [OF sample_lookup])

theorem container_cache_stable_witness:
  "fst (container_resolve (\<lambda>_. None) 1
     (fold resolver_step [Invalidate_Op 2, Resolve_Op (\<lambda>_. None) 1]
       (snd (container_resolve (\<lambda>_. Some (''0::/docker/'' @ sample_id)) 1 new_resolver)))) = Some (replicate 12 (CHR ''a''))"
  using container_cache_stable [of 1 "[Invalidate_Op 2, Resolve_Op (\<lambda>_. None) 1]" "Invalidate_Op 1"
      "\<lambda>_. Some (''0::/docker/'' @ sample_id)" new_resolver "\<lambda>_. None"] sample_lookup
  by (simp add: Let_def case_prod_beta resolve_fresh new_resolver_def)

theorem wait_child_ends_witness:
  "\<exists>res. wait_child (\<lambda>i. Child_Running) (\<lambda>i. 25 * i) (0 + COMMAND_TIMEOUT) 0 = Some res \<and> res = Wait_Killed"
  using wait_child_ends [of 0 "\<lambda>i. 25 * i" "\<lambda>i. Child_Running"] by (auto intro: wait_result.exhaust)


theorem docker_discovery_exact_witness:
  "cr_containers (discover_blocking None (Some (True, render_docker [(sample_id, ''web''), (sample_id, ''db'')]))) sample_id = Some ''db''"
  by (subst docker_discovery_exact) (simp_all add: docker_ok_def plain_byte_def discover_crictl_def)

end
