(* ===== verification/App_State.thy ===== *)
theory App_State
  imports Wire Tree_Spec Fd_Cache Containers Event_Log "HOL-Library.Monad_Syntax"
begin

section \<open>Ingestion (ncda/src/tui/app.rs, AppState)\<close>

text \<open>
  The state the aggregator updates: one \<open>ingest\<close> per batch of kernel events. What the code reads of
  the machine while it ingests (the links, \<open>comm\<close> and \<open>cgroup\<close> files of \<open>/proc\<close>) is the environment
  of the batch, and so is the order in which the hash table of pending groups is iterated. The two
  \<open>expect\<close>s and the two \<open>unreachable!\<close>s are the value \<open>None\<close>; that they never happen is a theorem.
\<close>

record env =
  e_link :: "string \<Rightarrow> string option"
  e_comm :: "u32 \<Rightarrow> string option"
  e_cgroup :: "u32 \<Rightarrow> string option"

record io_key =
  ik_pid :: u32
  ik_fd :: u32
  ik_op :: op_kind

record io_group =
  ig_key :: io_key
  ig_bytes :: u64
  ig_operations :: u64
  ig_total_latency_ns :: u64
  ig_max_latency_ns :: u64
  ig_observed_at :: int

definition new_io_group :: "io_key \<Rightarrow> u64 \<Rightarrow> u64 \<Rightarrow> int \<Rightarrow> io_group" where
  "new_io_group key bytes latency_ns observed_at =
     \<lparr>ig_key = key, ig_bytes = bytes, ig_operations = 1, ig_total_latency_ns = latency_ns,
      ig_max_latency_ns = latency_ns, ig_observed_at = observed_at\<rparr>"

definition io_group_record :: "u64 \<Rightarrow> u64 \<Rightarrow> io_group \<Rightarrow> io_group" where
  "io_group_record bytes latency_ns g =
     g\<lparr>ig_bytes := sat_add (ig_bytes g) bytes, ig_operations := sat_add (ig_operations g) 1,
       ig_total_latency_ns := sat_add (ig_total_latency_ns g) latency_ns,
       ig_max_latency_ns := max (ig_max_latency_ns g) latency_ns\<rparr>"

definition io_group_stats :: "io_group \<Rightarrow> node_stats" where
  "io_group_stats g =
     for_operations (ik_op (ig_key g)) (ig_bytes g) (ig_operations g) (ig_total_latency_ns g) (ig_max_latency_ns g)"

text \<open>The pending groups in first-seen order, with the index of each active key.\<close>

type_synonym pending = "io_group option list \<times> (io_key \<times> nat) list"

definition accumulate_io_group :: "io_key \<Rightarrow> u64 \<Rightarrow> u64 \<Rightarrow> int \<Rightarrow> pending \<Rightarrow> pending option" where
  "accumulate_io_group key bytes latency_ns observed_at p =
     (case map_of (snd p) key of
        Some index \<Rightarrow>
          (if index < length (fst p)
           then (case fst p ! index of
                   Some g \<Rightarrow> Some ((fst p)[index := Some (io_group_record bytes latency_ns g)], snd p)
                 | None \<Rightarrow> None)
           else None)
      | None \<Rightarrow>
          Some (fst p @ [Some (new_io_group key bytes latency_ns observed_at)],
                AList.update key (length (fst p)) (snd p)))"

subsection \<open>The state\<close>

record app_state =
  as_tree :: file_tree
  as_fds :: fd_cache
  as_containers :: resolver
  as_procs :: process_table
  as_log :: event_log
  as_rate :: rate_tracker
  as_total_events :: u64
  as_dropped_events :: u64
  as_drop_total :: u64
  as_drop_baseline :: u64
  as_attribution_failures :: u64
  as_ignored :: u64
  as_failed :: u64
  as_zero_byte :: u64
  as_exclude :: "string list"

definition new_app_state :: "nat \<Rightarrow> string list \<Rightarrow> app_state" where
  "new_app_state rate_window exclude_prefixes =
     \<lparr>as_tree = new_tree, as_fds = new_fd_cache, as_containers = new_resolver, as_procs = new_table,
      as_log = new_event_log rate_window, as_rate = new_tracker rate_window, as_total_events = 0,
      as_dropped_events = 0, as_drop_total = 0, as_drop_baseline = 0, as_attribution_failures = 0,
      as_ignored = 0, as_failed = 0, as_zero_byte = 0, as_exclude = exclude_prefixes\<rparr>"

definition record_io_outcome :: "i64 \<Rightarrow> app_state \<Rightarrow> app_state" where
  "record_io_outcome result s =
     (if sint result < 0 then s\<lparr>as_failed := sat_add (as_failed s) 1\<rparr>
      else if result = 0 then s\<lparr>as_zero_byte := sat_add (as_zero_byte s) 1\<rparr> else s)"

definition trim_end_slashes :: "string \<Rightarrow> string" where
  "trim_end_slashes s = rev (dropWhile (\<lambda>c. c = CHR ''/'') (rev s))"

definition is_excluded :: "string list \<Rightarrow> string \<Rightarrow> bool" where
  "is_excluded pfxs path =
     list_ex (\<lambda>p. let p = trim_end_slashes p
                   in path = p \<or> (case strip_prefix p path of Some suf \<Rightarrow> starts_with ''/'' suf | None \<Rightarrow> False)) pfxs"

text \<open>What a resolution adds to the counters, and the path it yields.\<close>

definition resolve_fd_path :: "env \<Rightarrow> u32 \<Rightarrow> u32 \<Rightarrow> app_state \<Rightarrow> string option \<times> app_state" where
  "resolve_fd_path e pid fd s =
     (case fd_lookup pid fd (as_fds s) of
        Some path \<Rightarrow> (Some path, s)
      | None \<Rightarrow>
          (let (res, c) = resolve_existing (e_link e) pid fd (as_fds s); s = s\<lparr>as_fds := c\<rparr>
           in case res of
                Resolved path \<Rightarrow> (Some path, s\<lparr>as_fds := fd_store pid fd path (as_fds s)\<rparr>)
              | Unresolved path \<Rightarrow>
                  (Some path, s\<lparr>as_attribution_failures := sat_add (as_attribution_failures s) 1,
                                as_fds := fd_store pid fd path (as_fds s)\<rparr>)
              | Ignored \<Rightarrow> (None, s\<lparr>as_ignored := sat_add (as_ignored s) 1\<rparr>)))"

definition decorated :: "string option \<Rightarrow> string \<Rightarrow> string" where
  "decorated container path = (case container of Some nm \<Rightarrow> ''/['' @ nm @ '']'' @ path | None \<Rightarrow> path)"

definition decorate_path :: "env \<Rightarrow> u32 \<Rightarrow> string \<Rightarrow> app_state \<Rightarrow> string \<times> app_state" where
  "decorate_path e pid path s =
     (let (nm, r) = container_resolve (e_cgroup e) pid (as_containers s)
      in (decorated nm path, s\<lparr>as_containers := r\<rparr>))"

definition record_process :: "env \<Rightarrow> u32 \<Rightarrow> op_kind \<Rightarrow> u64 \<Rightarrow> u64 \<Rightarrow> app_state \<Rightarrow> app_state" where
  "record_process e pid op bytes latency_ns s =
     (let (container, r) = container_resolve (e_cgroup e) pid (as_containers s)
      in s\<lparr>as_containers := r,
           as_procs := table_record_context (e_comm e) pid container op bytes latency_ns (as_procs s)\<rparr>)"

definition record_io_group :: "env \<Rightarrow> io_group \<Rightarrow> app_state \<Rightarrow> app_state" where
  "record_io_group e g s =
     (let pid = ik_pid (ig_key g); (path, s) = resolve_fd_path e pid (ik_fd (ig_key g)) s
      in case path of
           None \<Rightarrow> s\<lparr>as_ignored := sat_add (as_ignored s) (sat_sub (ig_operations g) 1)\<rparr>
         | Some path \<Rightarrow>
             if is_excluded (as_exclude s) path then s
             else let (container, r) = container_resolve (e_cgroup e) pid (as_containers s);
                      display_path = decorated container path; stats = io_group_stats g
                  in s\<lparr>as_containers := r,
                       as_tree := record_stats display_path pid stats (as_tree s),
                       as_procs := table_record_stats (e_comm e) pid container stats (as_procs s),
                       as_rate := rate_record_at (ig_observed_at g) (ig_bytes g) (as_rate s),
                       as_log := event_record_at (ig_observed_at g) display_path pid (ig_bytes g) (as_log s)\<rparr>)"

subsection \<open>Lifecycle events\<close>

fun ingest_lifecycle :: "env \<Rightarrow> bpf_event \<Rightarrow> app_state \<Rightarrow> app_state option" where
  "ingest_lifecycle e (OpenEv pid tid fd dirfd path path_flags emitted_ns) s =
     Some (let (res, c) = resolve (e_link e) pid fd dirfd path path_flags (as_fds s);
               s = s\<lparr>as_fds := c\<rparr>;
               keep = (\<lambda>resolved s.
                 let s = s\<lparr>as_fds := fd_store pid fd resolved (as_fds s)\<rparr>
                 in if is_excluded (as_exclude s) resolved then s
                    else let (display_path, s) = decorate_path e pid resolved s
                         in record_process e pid Open 0 0
                              (s\<lparr>as_tree := record_op display_path pid Open 0 0 (as_tree s)\<rparr>))
           in case res of
                Resolved resolved \<Rightarrow> keep resolved s
              | Unresolved resolved \<Rightarrow>
                  keep resolved (s\<lparr>as_attribution_failures := sat_add (as_attribution_failures s) 1\<rparr>)
              | Ignored \<Rightarrow> s\<lparr>as_ignored := sat_add (as_ignored s) 1\<rparr>)"
| "ingest_lifecycle e (CloseEv pid tid fd emitted_ns) s =
     Some (let s = (case fd_lookup pid fd (as_fds s) of
                      None \<Rightarrow> s
                    | Some path \<Rightarrow>
                        if is_excluded (as_exclude s) path then s
                        else let (path, s) = decorate_path e pid path s
                             in record_process e pid Close 0 0
                                  (s\<lparr>as_tree := record_op path pid Close 0 0 (as_tree s)\<rparr>))
           in s\<lparr>as_fds := on_close pid fd (as_fds s)\<rparr>)"
| "ingest_lifecycle e (DupEv pid tid old_fd new_fd emitted_ns) s =
     Some (let (source_path, s) = resolve_fd_path e pid old_fd s;
               s = (if old_fd \<noteq> new_fd then s\<lparr>as_fds := on_close pid new_fd (as_fds s)\<rparr> else s)
           in case source_path of
                Some path \<Rightarrow> s\<lparr>as_fds := fd_store pid new_fd path (as_fds s)\<rparr>
              | None \<Rightarrow> s)"
| "ingest_lifecycle e (CloseRangeEv pid tid first_fd last_fd flags emitted_ns) s =
     Some (s\<lparr>as_fds := on_close_range pid first_fd last_fd flags (as_fds s)\<rparr>)"
| "ingest_lifecycle e (ProcessExecEv pid emitted_ns) s =
     Some (s\<lparr>as_fds := on_process_reset pid (as_fds s), as_containers := invalidate_pid pid (as_containers s),
             as_procs := table_remove pid (as_procs s), as_tree := remove_process pid (as_tree s)\<rparr>)"
| "ingest_lifecycle e (ProcessExitEv pid emitted_ns) s =
     Some (s\<lparr>as_fds := on_process_reset pid (as_fds s), as_containers := invalidate_pid pid (as_containers s),
             as_procs := table_remove pid (as_procs s), as_tree := remove_process pid (as_tree s)\<rparr>)"
| "ingest_lifecycle e (ReadEv pid tid fd bytes result latency_ns emitted_ns) s = None"
| "ingest_lifecycle e (WriteEv pid tid fd bytes result latency_ns emitted_ns) s = None"

subsection \<open>Flushing\<close>

definition flush_io_groups :: "env \<Rightarrow> pending \<Rightarrow> app_state \<Rightarrow> app_state" where
  "flush_io_groups e p s = fold (record_io_group e) (List.map_filter id (fst p)) s"

definition flush_io_key :: "env \<Rightarrow> io_key \<Rightarrow> pending \<times> app_state \<Rightarrow> (pending \<times> app_state) option" where
  "flush_io_key e key = (\<lambda>((groups, positions), s).
     case map_of positions key of
       None \<Rightarrow> Some ((groups, positions), s)
     | Some index \<Rightarrow>
         if index < length groups
         then (case groups ! index of
                 Some g \<Rightarrow> Some ((groups[index := None], AList.delete key positions), record_io_group e g s)
               | None \<Rightarrow> None)
         else None)"

fun flush_keys :: "env \<Rightarrow> io_key list \<Rightarrow> pending \<times> app_state \<Rightarrow> (pending \<times> app_state) option" where
  "flush_keys e [] ps = Some ps"
| "flush_keys e (k # ks) ps = do { ps \<leftarrow> flush_io_key e k ps; flush_keys e ks ps }"

definition fd_keys :: "u32 \<Rightarrow> u32 \<Rightarrow> io_key list" where
  "fd_keys pid fd = map (\<lambda>op. \<lparr>ik_pid = pid, ik_fd = fd, ik_op = op\<rparr>) [Read, Write]"

text \<open>
  The keys a lifecycle event flushes, in order. The keys of a range or a process are collected from
  the hash table, in the order \<open>order\<close> gives.
\<close>

fun barrier_keys :: "(io_key list \<Rightarrow> io_key list) \<Rightarrow> io_key list \<Rightarrow> bpf_event \<Rightarrow> io_key list option" where
  "barrier_keys order keys (OpenEv pid tid fd dirfd path path_flags emitted_ns) = Some (fd_keys pid fd)"
| "barrier_keys order keys (CloseEv pid tid fd emitted_ns) = Some (fd_keys pid fd)"
| "barrier_keys order keys (DupEv pid tid old_fd new_fd emitted_ns) =
     Some (fd_keys pid old_fd @ (if old_fd \<noteq> new_fd then fd_keys pid new_fd else []))"
| "barrier_keys order keys (CloseRangeEv pid tid first_fd last_fd flags emitted_ns) =
     Some (if flags AND CLOSE_RANGE_CLOEXEC = 0
           then filter (\<lambda>k. ik_pid k = pid \<and> ik_fd k \<ge> first_fd \<and> ik_fd k \<le> last_fd) (order keys) else [])"
| "barrier_keys order keys (ProcessExecEv pid emitted_ns) = Some (filter (\<lambda>k. ik_pid k = pid) (order keys))"
| "barrier_keys order keys (ProcessExitEv pid emitted_ns) = Some (filter (\<lambda>k. ik_pid k = pid) (order keys))"
| "barrier_keys order keys (ReadEv pid tid fd bytes result latency_ns emitted_ns) = None"
| "barrier_keys order keys (WriteEv pid tid fd bytes result latency_ns emitted_ns) = None"

definition flush_lifecycle_groups ::
    "env \<Rightarrow> (io_key list \<Rightarrow> io_key list) \<Rightarrow> bpf_event \<Rightarrow> pending \<times> app_state \<Rightarrow> (pending \<times> app_state) option" where
  "flush_lifecycle_groups e order ev ps =
     do { ks \<leftarrow> barrier_keys order (map fst (snd (fst ps))) ev; flush_keys e ks ps }"

definition ingest_io ::
    "op_kind \<Rightarrow> u32 \<Rightarrow> u32 \<Rightarrow> u64 \<Rightarrow> i64 \<Rightarrow> u64 \<Rightarrow> int \<Rightarrow> pending \<times> app_state \<Rightarrow> (pending \<times> app_state) option" where
  "ingest_io op pid fd bytes result latency_ns observed_at = (\<lambda>(p, s).
     let s = record_io_outcome result s
     in if sint result > 0
        then do { p \<leftarrow> accumulate_io_group \<lparr>ik_pid = pid, ik_fd = fd, ik_op = op\<rparr> bytes latency_ns observed_at p;
                  Some (p, s) }
        else Some (p, s))"

fun ingest_event ::
    "env \<Rightarrow> (io_key list \<Rightarrow> io_key list) \<Rightarrow> int \<Rightarrow> bpf_event \<Rightarrow> pending \<times> app_state \<Rightarrow> (pending \<times> app_state) option" where
  "ingest_event e order now (ReadEv pid tid fd bytes result latency_ns emitted_ns) ps =
     ingest_io Read pid fd bytes result latency_ns now ps"
| "ingest_event e order now (WriteEv pid tid fd bytes result latency_ns emitted_ns) ps =
     ingest_io Write pid fd bytes result latency_ns now ps"
| "ingest_event e order now lifecycle ps =
     do { ps \<leftarrow> flush_lifecycle_groups e order lifecycle ps;
          s \<leftarrow> ingest_lifecycle e lifecycle (snd ps);
          Some (fst ps, s) }"

fun ingest_events ::
    "env \<Rightarrow> (io_key list \<Rightarrow> io_key list) \<Rightarrow> int \<Rightarrow> bpf_event list \<Rightarrow> pending \<times> app_state \<Rightarrow> (pending \<times> app_state) option" where
  "ingest_events e order now [] ps = Some ps"
| "ingest_events e order now (ev # evs) ps =
     do { ps \<leftarrow> ingest_event e order now ev ps; ingest_events e order now evs ps }"

definition ingest ::
    "env \<Rightarrow> (io_key list \<Rightarrow> io_key list) \<Rightarrow> int \<Rightarrow> bpf_event list \<Rightarrow> app_state \<Rightarrow> app_state option" where
  "ingest e order now events s =
     do { ps \<leftarrow> ingest_events e order now events
                 (([], []), s\<lparr>as_total_events := sat_add (as_total_events s) (of_nat (length events))\<rparr>);
          Some (flush_io_groups e (fst ps) (snd ps)) }"

subsection \<open>Loss and reset\<close>

definition update_drop_total :: "u64 \<Rightarrow> app_state \<Rightarrow> app_state" where
  "update_drop_total tot s =
     (let s = (if tot > as_drop_total s then s\<lparr>as_fds := invalidate_all (as_fds s)\<rparr> else s)
      in s\<lparr>as_drop_total := tot, as_dropped_events := sat_sub tot (as_drop_baseline s)\<rparr>)"

definition app_reset :: "app_state \<Rightarrow> app_state" where
  "app_reset s =
     s\<lparr>as_tree := tree_reset (as_tree s), as_procs := table_reset (as_procs s), as_log := event_log_reset (as_log s),
       as_rate := rate_reset (as_rate s), as_total_events := 0, as_drop_baseline := as_drop_total s,
       as_dropped_events := 0, as_attribution_failures := 0, as_ignored := 0, as_failed := 0, as_zero_byte := 0\<rparr>"

end
