(* ===== verification/Reader.thy ===== *)
theory Reader
  imports Capture App_State
begin

section \<open>From the ring buffer to the aggregator (ncda/src/bpf.rs, main.rs)\<close>

text \<open>
  The loss counters, the order in which the programs are attached and detached, and the reader
  task: it drains the ring buffer in batches of at most \<open>MAX_BATCH_EVENTS\<close>, parses each record and
  sends the batches to the aggregator.

  aya and tokio are not part of the program. A ring buffer is the list of its unread records,
  oldest first; a channel is the list of the batches sent, with a flag for whether its receiver is
  alive, since waiting for room is not observable; an attachment succeeds or fails as the
  parameter \<open>ok\<close> says. A shared atomic counter is a field: each update is one atomic step.
\<close>

subsection \<open>Loss counters\<close>

record reader_drops =
  parse_drops :: u64
  queue_drops :: u64
  shutdown_discarded :: u64

definition no_drops :: reader_drops where
  "no_drops = \<lparr>parse_drops = 0, queue_drops = 0, shutdown_discarded = 0\<rparr>"

definition record_parse_drop :: "reader_drops \<Rightarrow> reader_drops" where
  "record_parse_drop d = d\<lparr>parse_drops := sat_add (parse_drops d) 1\<rparr>"

definition record_queue_drops :: "nat \<Rightarrow> reader_drops \<Rightarrow> reader_drops" where
  "record_queue_drops n d = d\<lparr>queue_drops := sat_add (queue_drops d) (of_nat n)\<rparr>"

definition record_shutdown_discarded :: "nat \<Rightarrow> reader_drops \<Rightarrow> reader_drops" where
  "record_shutdown_discarded n d = d\<lparr>shutdown_discarded := sat_add (shutdown_discarded d) (of_nat n)\<rparr>"

text \<open>\<open>capture_stats\<close>: the saturating sum of the per-CPU counters.\<close>

definition add_capture_stats :: "capture_stats \<Rightarrow> capture_stats \<Rightarrow> capture_stats" where
  "add_capture_stats value tot =
     \<lparr>ring_output_drops = sat_add (ring_output_drops tot) (ring_output_drops value),
      stash_update_failures = sat_add (stash_update_failures tot) (stash_update_failures value),
      scratch_failures = sat_add (scratch_failures tot) (scratch_failures value),
      read_entries = sat_add (read_entries tot) (read_entries value),
      write_entries = sat_add (write_entries tot) (write_entries value),
      read_exits = sat_add (read_exits tot) (read_exits value),
      write_exits = sat_add (write_exits tot) (write_exits value),
      compat_syscalls_ignored = sat_add (compat_syscalls_ignored tot) (compat_syscalls_ignored value)\<rparr>"

definition sum_capture_stats :: "capture_stats list \<Rightarrow> capture_stats" where
  "sum_capture_stats per_cpu = fold add_capture_stats per_cpu default_capture_stats"

record drop_snapshot =
  ds_ring :: u64
  ds_stash :: u64
  ds_scratch :: u64
  ds_parse :: u64
  ds_queue :: u64
  ds_shutdown :: u64

text \<open>A plain \<open>+\<close> on \<open>u64\<close>, which wraps in a release build.\<close>

definition snapshot_total :: "drop_snapshot \<Rightarrow> u64" where
  "snapshot_total s = ds_ring s + ds_stash s + ds_scratch s + ds_parse s + ds_queue s"

definition take_snapshot :: "capture_stats list \<Rightarrow> reader_drops \<Rightarrow> drop_snapshot" where
  "take_snapshot per_cpu reader =
     (let kernel = sum_capture_stats per_cpu
      in \<lparr>ds_ring = ring_output_drops kernel, ds_stash = stash_update_failures kernel,
          ds_scratch = scratch_failures kernel, ds_parse = parse_drops reader,
          ds_queue = queue_drops reader, ds_shutdown = shutdown_discarded reader\<rparr>)"

definition monitor_drops :: "capture_stats list \<Rightarrow> reader_drops \<Rightarrow> app_state \<Rightarrow> drop_snapshot \<times> app_state" where
  "monitor_drops per_cpu reader s =
     (let snapshot = take_snapshot per_cpu reader
      in (snapshot, update_drop_total (snapshot_total snapshot) s))"

subsection \<open>Attaching and detaching the programs\<close>

datatype exit_hook = TracepointHook | TaskstatsKprobe

datatype attached_link = RawLink string | KProbeLink string

definition TASKSTATS_EXIT :: string where
  "TASKSTATS_EXIT = ''taskstats_process_exit''"

definition tracepoint_has_group_dead :: "string \<Rightarrow> bool" where
  "tracepoint_has_group_dead format =
     list_ex (\<lambda>line. contains ''field:'' line \<and>
        list_ex (\<lambda>field.
            let field = rev (dropWhile (\<lambda>c. c = CHR '';'') (rev field));
                field = rev (dropWhile (\<lambda>c. c = CHR '']'') (rev field));
                field = dropWhile (\<lambda>c. c = CHR ''*'') field
            in field = ''group_dead'') (split_whitespace line)) (text_lines format)"

text \<open>The two files that may describe the tracepoint, as read.\<close>

definition process_exit_hook :: "string option \<Rightarrow> string option \<Rightarrow> exit_hook" where
  "process_exit_hook tracing debug =
     (case (case tracing of Some format \<Rightarrow> Some format | None \<Rightarrow> debug) of
        Some format \<Rightarrow> if tracepoint_has_group_dead format then TracepointHook else TaskstatsKprobe
      | None \<Rightarrow> TaskstatsKprobe)"

text \<open>The programs verified and loaded before any hook is active; loading stops at the first failure.\<close>

definition BASE_RAW_PROGRAMS :: "(string \<times> string) list" where
  "BASE_RAW_PROGRAMS =
     [(''sys_exit'', ''sys_exit''), (''sched_process_exec'', ''sched_process_exec''), (''sys_enter'', ''sys_enter'')]"

fun load_each :: "(string \<Rightarrow> bool) \<Rightarrow> string list \<Rightarrow> string list \<Rightarrow> string list \<times> bool" where
  "load_each ok loaded [] = (loaded, True)"
| "load_each ok loaded (p # ps) = (if ok p then load_each ok (loaded @ [p]) ps else (loaded, False))"

definition load_programs :: "(string \<Rightarrow> bool) \<Rightarrow> exit_hook \<Rightarrow> string list \<times> exit_hook option" where
  "load_programs ok hook =
     (case load_each ok []
             (map fst BASE_RAW_PROGRAMS
              @ (case hook of
                   TracepointHook \<Rightarrow> [''sched_process_exit_group'']
                 | TaskstatsKprobe \<Rightarrow> [''sched_process_exit_legacy'', TASKSTATS_EXIT])) of
        (loaded, done_all) \<Rightarrow> (loaded, if done_all then Some hook else None))"

text \<open>
  The sequence of attachments \<open>attach_programs\<close> makes, each a program and the kernel hook it is
  attached to: \<open>attach_raw\<close> for the tracepoints. The first failure ends it.
\<close>

fun attach_each ::
    "(attached_link \<Rightarrow> string \<Rightarrow> bool) \<Rightarrow> attached_link list \<Rightarrow> (attached_link \<times> string) list \<Rightarrow> attached_link list \<times> bool" where
  "attach_each ok links [] = (links, True)"
| "attach_each ok links ((program, target) # rest) =
     (if ok program target then attach_each ok (links @ [program]) rest else (links, False))"

definition exit_attachments :: "exit_hook \<Rightarrow> (attached_link \<times> string) list" where
  "exit_attachments hook =
     (case hook of
        TracepointHook \<Rightarrow> [(RawLink ''sched_process_exit_group'', ''sched_process_exit'')]
      | TaskstatsKprobe \<Rightarrow>
          [(RawLink ''sched_process_exit_legacy'', ''sched_process_exit''),
           (KProbeLink TASKSTATS_EXIT, ''taskstats_exit'')])"

definition attach_programs :: "(attached_link \<Rightarrow> string \<Rightarrow> bool) \<Rightarrow> exit_hook \<Rightarrow> attached_link list \<times> bool" where
  "attach_programs ok hook =
     attach_each ok []
       ([(RawLink ''sys_exit'', ''sys_exit'')] @ exit_attachments hook
        @ [(RawLink ''sched_process_exec'', ''sched_process_exec''), (RawLink ''sys_enter'', ''sys_enter'')])"

text \<open>\<open>detach\<close> reverses the links and stops at the first failure; the links still attached remain.\<close>

fun detach_each :: "(attached_link \<Rightarrow> bool) \<Rightarrow> attached_link list \<Rightarrow> attached_link list \<times> bool" where
  "detach_each ok [] = ([], True)"
| "detach_each ok (l # ls) = (if ok l then detach_each ok ls else (l # ls, False))"

definition detach_programs :: "(attached_link \<Rightarrow> bool) \<Rightarrow> attached_link list \<Rightarrow> attached_link list \<times> bool" where
  "detach_programs ok links = detach_each ok (rev links)"

subsection \<open>The reader\<close>

definition MAX_BATCH_EVENTS :: nat where
  "MAX_BATCH_EVENTS = 4096"

text \<open>At most \<open>n\<close> records: the events parsed, the rest of the ring, and whether it was emptied.\<close>

fun drain_records :: "nat \<Rightarrow> string list \<Rightarrow> reader_drops \<Rightarrow> bpf_event list \<times> string list \<times> reader_drops \<times> bool" where
  "drain_records 0 ring drops = ([], ring, drops, False)"
| "drain_records (Suc n) [] drops = ([], [], drops, True)"
| "drain_records (Suc n) (data # ring) drops =
     (case parse_event data of
        Some event \<Rightarrow> (case drain_records n ring drops of (batch, rest) \<Rightarrow> (event # batch, rest))
      | None \<Rightarrow> drain_records n ring (record_parse_drop drops))"

definition drain_ring_batch :: "string list \<Rightarrow> reader_drops \<Rightarrow> bpf_event list \<times> string list \<times> reader_drops \<times> bool" where
  "drain_ring_batch ring drops = drain_records MAX_BATCH_EVENTS ring drops"

text \<open>The batches sent so far, oldest first, and whether the aggregator still receives.\<close>

record reader_state =
  rs_ring :: "string list"
  rs_sent :: "bpf_event list list"
  rs_receiver :: bool
  rs_drops :: reader_drops

definition send_batch :: "bpf_event list \<Rightarrow> reader_state \<Rightarrow> bool \<times> reader_state" where
  "send_batch batch s =
     (if batch = [] then (True, s)
      else if rs_receiver s then (True, s\<lparr>rs_sent := rs_sent s @ [batch]\<rparr>)
      else (False, s\<lparr>rs_drops := record_queue_drops (length batch) (rs_drops s)\<rparr>))"

text \<open>One drain and its send: whether the reader goes on, whether the ring was emptied.\<close>

definition drain_and_send :: "reader_state \<Rightarrow> bool \<times> bool \<times> reader_state" where
  "drain_and_send s =
     (case drain_ring_batch (rs_ring s) (rs_drops s) of
        (batch, ring, drops, drained) \<Rightarrow>
          (case send_batch batch (s\<lparr>rs_ring := ring, rs_drops := drops\<rparr>) of
             (sent, s) \<Rightarrow> (sent, drained, s)))"

text \<open>What a drain returns, and that a drain that does not empty the ring makes progress.\<close>

lemma drain_records_eq:
  "drain_records n ring drops =
     (List.map_filter parse_event (take n ring), drop n ring,
      (record_parse_drop ^^ length (filter (\<lambda>r. parse_event r = None) (take n ring))) drops, length ring < n)"
proof (induction n ring drops rule: drain_records.induct)
  case (3 n data ring drops)
  then show ?case
    by (cases "parse_event data") (simp_all add: List.map_filter_simps funpow_swap1)
qed (simp_all add: List.map_filter_simps)

lemma drain_progress:
  assumes "drain_and_send s = (sent, False, s')"
  shows "length (rs_ring s') < length (rs_ring s)"
proof -
  have "MAX_BATCH_EVENTS \<le> length (rs_ring s)" "rs_ring s' = drop MAX_BATCH_EVENTS (rs_ring s)"
    using assms by (auto simp: drain_and_send_def drain_ring_batch_def drain_records_eq send_batch_def split: if_splits)
  then show ?thesis by (simp add: MAX_BATCH_EVENTS_def)
qed

text \<open>The final drain after shutdown was requested.\<close>

function final_drain :: "reader_state \<Rightarrow> reader_state" where
  "final_drain s =
     (case drain_and_send s of
        (sent, drained, s') \<Rightarrow> if \<not> sent \<or> drained then s' else final_drain s')"
  by pat_completeness auto

termination final_drain
  by (relation "measure (\<lambda>s. length (rs_ring s))") (auto dest: drain_progress [OF sym])

declare final_drain.simps [simp del]

text \<open>
  \<open>reader_loop\<close>: each turn the ring is readable, with the records \<open>arrived\<close> since the last one; then
  shutdown is requested, \<open>late\<close> records being still unread. A failed send ends the reader.
\<close>

fun reader_loop :: "string list list \<Rightarrow> string list \<Rightarrow> reader_state \<Rightarrow> reader_state" where
  "reader_loop [] late s = final_drain (s\<lparr>rs_ring := rs_ring s @ late\<rparr>)"
| "reader_loop (arrived # turns) late s =
     (case drain_and_send (s\<lparr>rs_ring := rs_ring s @ arrived\<rparr>) of
        (sent, drained, s') \<Rightarrow> if sent then reader_loop turns late s' else s')"

definition reader_start :: reader_state where
  "reader_start = \<lparr>rs_ring = [], rs_sent = [], rs_receiver = True, rs_drops = no_drops\<rparr>"

definition handle_aggregator_batch ::
    "env \<Rightarrow> (io_key list \<Rightarrow> io_key list) \<Rightarrow> int \<Rightarrow> bpf_event list \<Rightarrow> bool \<Rightarrow> app_state \<times> reader_drops
      \<Rightarrow> (app_state \<times> reader_drops) option" where
  "handle_aggregator_batch e order now batch discard sd =
     (case sd of (s, counters) \<Rightarrow>
        if discard then Some (s, record_shutdown_discarded (length batch) counters)
        else map_option (\<lambda>s. (s, counters)) (ingest e order now batch s))"

subsection \<open>Nothing is lost between the ring and the aggregator\<close>

definition bad_records :: "string list \<Rightarrow> nat" where
  "bad_records ring = length (filter (\<lambda>r. parse_event r = None) ring)"

definition batches_ok :: "bpf_event list list \<Rightarrow> bool" where
  "batches_ok = list_all (\<lambda>batch. batch \<noteq> [] \<and> length batch \<le> MAX_BATCH_EVENTS)"

text \<open>What a reader in state \<open>s\<close> will have delivered once it has worked through \<open>ring\<close>.\<close>

definition delivered :: "string list \<Rightarrow> reader_state \<Rightarrow> reader_state \<Rightarrow> bool" where
  "delivered ring s s' \<longleftrightarrow>
     concat (rs_sent s') = concat (rs_sent s) @ List.map_filter parse_event ring \<and>
     rs_drops s' = (record_parse_drop ^^ bad_records ring) (rs_drops s) \<and>
     rs_receiver s' = rs_receiver s \<and> (batches_ok (rs_sent s) \<longrightarrow> batches_ok (rs_sent s'))"

lemma map_filter_append: "List.map_filter f (xs @ ys) = List.map_filter f xs @ List.map_filter f ys"
  by (simp add: List.map_filter_def)

lemma delivered_trans:
  assumes "delivered r1 s1 s2" and "delivered r2 s2 s3"
  shows "delivered (r1 @ r2) s1 s3"
proof -
  have "bad_records (r1 @ r2) = bad_records r2 + bad_records r1" by (simp add: bad_records_def)
  with assms show ?thesis by (simp add: delivered_def map_filter_append funpow_add)
qed

lemma length_map_filter: "length (List.map_filter f xs) \<le> length xs"
  by (induction xs) (auto simp: List.map_filter_simps split: option.split)

lemma drain_and_send_delivers:
  assumes "rs_receiver s" and "drain_and_send s = (sent, drained, s')"
  shows "sent \<and> drained = (length (rs_ring s) < MAX_BATCH_EVENTS) \<and>
    rs_ring s' = drop MAX_BATCH_EVENTS (rs_ring s) \<and> delivered (take MAX_BATCH_EVENTS (rs_ring s)) s s'"
proof -
  have "length (List.map_filter parse_event (take MAX_BATCH_EVENTS (rs_ring s))) \<le> MAX_BATCH_EVENTS"
    using length_map_filter [of parse_event "take MAX_BATCH_EVENTS (rs_ring s)"] by simp
  with assms show ?thesis
    by (auto simp: drain_and_send_def drain_ring_batch_def drain_records_eq send_batch_def delivered_def
        bad_records_def batches_ok_def split: if_splits)
qed

lemma final_drain_delivers: "rs_receiver s \<Longrightarrow> rs_ring (final_drain s) = [] \<and> delivered (rs_ring s) s (final_drain s)"
proof (induction s rule: final_drain.induct)
  case (1 s)
  obtain sent drained s' where d: "drain_and_send s = (sent, drained, s')" by (cases "drain_and_send s")
  note step = drain_and_send_delivers [OF "1.prems" d]
  show ?case
  proof (cases drained)
    case True
    with step have "take MAX_BATCH_EVENTS (rs_ring s) = rs_ring s" by auto
    with step d True show ?thesis by (subst (1 2) final_drain.simps) simp
  next
    case False
    with step have "rs_receiver s'" using "1.prems" by (simp add: delivered_def)
    with "1.IH" [OF d [symmetric] refl] step False
    have "rs_ring (final_drain s') = [] \<and> delivered (drop MAX_BATCH_EVENTS (rs_ring s)) s' (final_drain s')" by simp
    with step False d show ?thesis
      using delivered_trans [of "take MAX_BATCH_EVENTS (rs_ring s)" s s' "drop MAX_BATCH_EVENTS (rs_ring s)"]
      by (subst (1 2) final_drain.simps) simp
  qed
qed

lemma reader_loop_delivers:
  "rs_receiver s \<Longrightarrow> rs_ring (reader_loop turns late s) = [] \<and>
     delivered (rs_ring s @ concat turns @ late) s (reader_loop turns late s)"
proof (induction turns arbitrary: s)
  case Nil
  then show ?case
    using final_drain_delivers [of "s\<lparr>rs_ring := rs_ring s @ late\<rparr>"] by (simp add: delivered_def)
next
  case (Cons arrived turns)
  let ?s = "s\<lparr>rs_ring := rs_ring s @ arrived\<rparr>"
  obtain sent drained s' where d: "drain_and_send ?s = (sent, drained, s')" by (cases "drain_and_send ?s")
  have step: "sent" "rs_ring s' = drop MAX_BATCH_EVENTS (rs_ring s @ arrived)"
      "delivered (take MAX_BATCH_EVENTS (rs_ring s @ arrived)) s s'"
    using drain_and_send_delivers [OF _ d] Cons.prems by (simp_all add: delivered_def)
  with Cons.IH [of s'] Cons.prems
  have "rs_ring (reader_loop turns late s') = [] \<and>
      delivered (drop MAX_BATCH_EVENTS (rs_ring s @ arrived) @ concat turns @ late) s' (reader_loop turns late s')"
    by (simp add: delivered_def)
  moreover from this have "delivered (take MAX_BATCH_EVENTS (rs_ring s @ arrived) @ drop MAX_BATCH_EVENTS (rs_ring s @ arrived)
      @ concat turns @ late) s (reader_loop turns late s')"
    by (intro delivered_trans [OF step(3)]) simp
  then have "delivered (rs_ring s @ concat (arrived # turns) @ late) s (reader_loop turns late s')"
    by (simp only: append_assoc [symmetric] append_take_drop_id concat.simps)
  ultimately show ?case using step(1) d by simp
qed

lemma map_filter_all: "(\<And>x. x \<in> set xs \<Longrightarrow> f x \<noteq> None) \<Longrightarrow> map Some (List.map_filter f xs) = map f xs"
  by (induction xs) (auto simp: List.map_filter_simps split: option.split)

text \<open>(C7) Every record the kernel programs submit reaches the aggregator: whatever the machine does,
  however the records arrive between the reader's turns, and with any number of them still unread
  when shutdown is requested, the reader ends with the ring empty and has sent the event of every
  record, in the order of submission, in nonempty batches within the limit, and has counted no
  loss. The final drain always ends.\<close>

theorem captured_records_are_delivered:
  assumes "captured a k" and "concat turns @ late = ks_ring k"
  shows "let s = reader_loop turns late reader_start
    in rs_ring s = [] \<and> map Some (concat (rs_sent s)) = map parse_event (ks_ring k) \<and>
       rs_drops s = no_drops \<and> list_all (\<lambda>batch. batch \<noteq> [] \<and> length batch \<le> MAX_BATCH_EVENTS) (rs_sent s)"
proof -
  have parses: "parse_event r \<noteq> None" if "r \<in> set (ks_ring k)" for r
    using captured_record_parses [OF assms(1) that] by auto
  then have "bad_records (ks_ring k) = 0"
    by (auto simp: bad_records_def filter_empty_conv)
  with reader_loop_delivers [of reader_start turns late] map_filter_all [OF parses, of "ks_ring k"] assms(2)
  show ?thesis by (simp add: reader_start_def delivered_def Let_def batches_ok_def)
qed

theorem captured_records_are_delivered_witness:
  "let r = encode_io \<lparr>ie_kind = EVENT_READ, ie_pid = 0, ie_tid = 1, ie_fd = 7, ie_result = 5,
         ie_latency_ns = 20, ie_emitted_ns = 30\<rparr>;
       s = reader_loop [[], []] [r] reader_start
   in rs_ring s = [] \<and> map Some (concat (rs_sent s)) = [parse_event r] \<and> rs_drops s = no_drops"
  using captured_records_are_delivered [OF sample_captured, of "[[], []]"]
  by (simp only: sample_ring Let_def append_Nil concat.simps list.map simp_thms)

subsection \<open>Attachment order\<close>

text \<open>The programs that consume what \<open>sys_enter\<close> stashes or end a process.\<close>

definition exit_links :: "exit_hook \<Rightarrow> attached_link list" where
  "exit_links hook = map fst (exit_attachments hook)"

definition consumers :: "exit_hook \<Rightarrow> attached_link list" where
  "consumers hook = [RawLink ''sys_exit''] @ exit_links hook @ [RawLink ''sched_process_exec'']"

lemma attach_each_prefix: "\<exists>k. fst (attach_each ok links ls) = links @ take k (map fst ls)"
proof (induction ls arbitrary: links)
  case (Cons x ls)
  obtain l target where x: "x = (l, target)" by (cases x)
  obtain k where "fst (attach_each ok (links @ [l]) ls) = (links @ [l]) @ take k (map fst ls)"
    using Cons.IH by blast
  then show ?case
    using x by (cases "ok l target") (auto intro: exI [of _ "Suc k"] exI [of _ 0])
qed simp

lemma detach_each_suffix: "\<exists>k. fst (detach_each ok ls) = drop k ls"
proof (induction ls)
  case (Cons l ls)
  then obtain k where "fst (detach_each ok ls) = drop k ls" ..
  then show ?case
    by (cases "ok l") (auto intro: exI [of _ "Suc k"] exI [of _ 0])
qed simp

lemma exit_links_distinct: "RawLink ''sys_enter'' \<notin> set (consumers hook)"
  by (cases hook) (simp_all add: consumers_def exit_links_def exit_attachments_def)

lemma take_producer:
  assumes "p \<notin> set cs" and "p \<in> set (take k (cs @ [p]))"
  shows "take k (cs @ [p]) = cs @ [p]"
proof (cases "k \<le> length cs")
  case True
  with assms show ?thesis by (auto dest: in_set_takeD)
qed simp

lemma drop_producer:
  assumes "p \<notin> set cs" and "p \<in> set (drop k (p # cs))"
  shows "drop k (p # cs) = p # cs"
  using assms by (cases k) (auto dest: in_set_dropD)

text \<open>(C28) No entry outlives its consumer: wherever attaching stops and wherever the detaching after
  it stops, as long as the syscall-entry program is attached so are the exit program and the
  process-lifecycle programs of the chosen hook.\<close>

theorem entry_never_without_consumers:
  assumes "RawLink ''sys_enter'' \<in> set links"
    and "links = fst (attach_programs ok hook) \<or>
         links = fst (detach_programs ok' (fst (attach_programs ok hook)))"
  shows "set ([RawLink ''sys_exit'', RawLink ''sched_process_exec''] @ exit_links hook) \<subseteq> set links"
proof -
  let ?enter = "RawLink ''sys_enter''"
  obtain k where att: "fst (attach_programs ok hook) = take k (consumers hook @ [?enter])"
    using attach_each_prefix [of ok "[]" "[(RawLink ''sys_exit'', ''sys_exit'')] @ exit_attachments hook
        @ [(RawLink ''sched_process_exec'', ''sched_process_exec''), (?enter, ''sys_enter'')]"]
    by (auto simp: attach_programs_def consumers_def exit_links_def)
  obtain j where det: "fst (detach_programs ok' (fst (attach_programs ok hook))) = drop j (rev (fst (attach_programs ok hook)))"
    using detach_each_suffix by (auto simp: detach_programs_def)
  have "set links \<subseteq> set (fst (attach_programs ok hook))"
    using assms(2) unfolding det by (metis set_drop_subset set_rev subset_refl)
  with assms(1) att have "?enter \<in> set (take k (consumers hook @ [?enter]))" by (metis subsetD)
  then have all: "fst (attach_programs ok hook) = consumers hook @ [?enter]"
    unfolding att by (rule take_producer [OF exit_links_distinct])
  have "set links = insert ?enter (set (consumers hook))"
    using assms(2)
  proof
    assume "links = fst (detach_programs ok' (fst (attach_programs ok hook)))"
    then have l: "links = drop j (?enter # rev (consumers hook))" using det all by simp
    have "drop j (?enter # rev (consumers hook)) = ?enter # rev (consumers hook)"
      using exit_links_distinct assms(1) l by (intro drop_producer) simp_all
    with l show ?thesis by simp
  qed (simp add: all)
  then show ?thesis by (auto simp: consumers_def)
qed

theorem entry_never_without_consumers_witness:
  "set ([RawLink ''sys_exit'', RawLink ''sched_process_exec''] @ exit_links TaskstatsKprobe)
     \<subseteq> set (fst (detach_programs (\<lambda>l. l \<noteq> RawLink ''sys_enter'') (fst (attach_programs (\<lambda>_ _. True) TaskstatsKprobe))))"
  by (rule entry_never_without_consumers [where ok = "\<lambda>_ _. True" and ok' = "\<lambda>l. l \<noteq> RawLink ''sys_enter''"])
    (simp_all add: attach_programs_def detach_programs_def exit_attachments_def)

subsection \<open>Loss totals\<close>

text \<open>Summing per CPU saturates once, whatever the order of the CPUs.\<close>

lemma sum_ring_drops:
  "unat (ring_output_drops (fold add_capture_stats per_cpu tot)) =
     min (unat (ring_output_drops tot) + sum_list (map (\<lambda>v. unat (ring_output_drops v)) per_cpu)) (2 ^ 64 - 1)"
proof (induction per_cpu arbitrary: tot)
  case Nil
  show ?case using unat_bound [of "ring_output_drops tot"] by simp
next
  case (Cons v vs)
  then show ?case by (simp add: add_capture_stats_def sat_simps min_def)
qed

end
