(* ===== verification/App_View.thy ===== *)
theory App_View
  imports App_State
begin

section \<open>What an application state says\<close>

text \<open>
  The invariant of the pending groups, that ingestion never fails, and the view of a state: what
  its tables say, each component by its own abstraction. Every step of the code is shown to be a
  function of the view.
\<close>

subsection \<open>The pending groups\<close>

definition active :: "pending \<Rightarrow> io_group list" where
  "active p = List.map_filter id (fst p)"

definition pending_ok :: "pending \<Rightarrow> bool" where
  "pending_ok p \<longleftrightarrow> distinct_keys (snd p) \<and>
     (\<forall>i g. i < length (fst p) \<longrightarrow> fst p ! i = Some g \<longrightarrow> ig_operations g \<noteq> 0 \<and> map_of (snd p) (ig_key g) = Some i) \<and>
     (\<forall>k i. map_of (snd p) k = Some i \<longrightarrow> i < length (fst p) \<and> (\<exists>g. fst p ! i = Some g \<and> ig_key g = k))"

lemma pending_ok_empty [simp]: "pending_ok ([], [])" "active ([], []) = []"
  by (simp_all add: pending_ok_def active_def map_filter_simps)

lemma pending_group:
  "pending_ok (gs, ps) \<Longrightarrow> i < length gs \<Longrightarrow> gs ! i = Some g \<Longrightarrow> ig_operations g \<noteq> 0 \<and> map_of ps (ig_key g) = Some i"
  by (simp add: pending_ok_def)

lemma pending_index:
  "pending_ok (gs, ps) \<Longrightarrow> map_of ps k = Some i \<Longrightarrow> i < length gs \<and> (\<exists>g. gs ! i = Some g \<and> ig_key g = k)"
  by (simp add: pending_ok_def)

lemma pending_keys: "pending_ok (gs, ps) \<Longrightarrow> distinct_keys ps"
  by (simp add: pending_ok_def)

lemma pending_okI:
  assumes "distinct_keys ps"
    and "\<And>i g. i < length gs \<Longrightarrow> gs ! i = Some g \<Longrightarrow> ig_operations g \<noteq> 0 \<and> map_of ps (ig_key g) = Some i"
    and "\<And>k i. map_of ps k = Some i \<Longrightarrow> i < length gs \<and> (\<exists>g. gs ! i = Some g \<and> ig_key g = k)"
  shows "pending_ok (gs, ps)"
  using assms by (simp add: pending_ok_def)

lemma map_filter_at:
  assumes "i < length xs"
  shows "List.map_filter id xs =
    List.map_filter id (take i xs) @ (case xs ! i of None \<Rightarrow> [] | Some g \<Rightarrow> [g]) @ List.map_filter id (drop (Suc i) xs)"
  by (subst id_take_nth_drop [OF assms]) (simp add: map_filter_def split: option.split)

lemma active_at:
  assumes "i < length gs"
  shows "mset (active (gs[i := x], ps)) + (case gs ! i of None \<Rightarrow> {#} | Some g \<Rightarrow> {#g#}) =
    mset (active (gs, ps)) + (case x of None \<Rightarrow> {#} | Some g \<Rightarrow> {#g#})"
  using map_filter_at [OF assms] map_filter_at [of i "gs[i := x]"] assms
  by (simp add: active_def split: option.split)

lemma active_key: "pending_ok (gs, ps) \<Longrightarrow> g \<in> set (active (gs, ps)) \<Longrightarrow>
    ig_operations g \<noteq> 0 \<and> (\<exists>i. map_of ps (ig_key g) = Some i \<and> i < length gs \<and> gs ! i = Some g)"
proof -
  assume ok: "pending_ok (gs, ps)" and "g \<in> set (active (gs, ps))"
  then have "Some g \<in> set gs" by (auto simp: active_def map_filter_def)
  then obtain i where "i < length gs" "gs ! i = Some g" by (auto simp: in_set_conv_nth)
  with pending_group [OF ok] show ?thesis by blast
qed

lemma accumulate_miss:
  assumes "pending_ok p" and "map_of (snd p) key = None"
  shows "\<exists>p'. accumulate_io_group key b l t p = Some p' \<and> pending_ok p' \<and>
    active p' = active p @ [new_io_group key b l t]"
proof -
  obtain gs ps where p: "p = (gs, ps)" by (cases p)
  let ?gs = "gs @ [Some (new_io_group key b l t)]" and ?ps = "AList.update key (length gs) ps"
  have ok: "pending_ok (gs, ps)" and none: "map_of ps key = None" using assms p by simp_all
  have "pending_ok (?gs, ?ps)"
  proof (rule pending_okI)
    show "distinct_keys ?ps" using pending_keys [OF ok] by simp
  next
    fix i g
    assume i: "i < length ?gs" "?gs ! i = Some g"
    show "ig_operations g \<noteq> 0 \<and> map_of ?ps (ig_key g) = Some i"
    proof (cases "i < length gs")
      case True
      then have g: "ig_operations g \<noteq> 0" "map_of ps (ig_key g) = Some i"
        using i pending_group [OF ok] by (simp_all add: nth_append)
      then have "ig_key g \<noteq> key" using none by auto
      with g show ?thesis by (simp add: alist_simps)
    next
      case False
      then have "i = length gs" "g = new_io_group key b l t" using i by (simp_all add: nth_append)
      then show ?thesis by (simp add: alist_simps new_io_group_def)
    qed
  next
    fix k i
    assume "map_of ?ps k = Some i"
    then show "i < length ?gs \<and> (\<exists>g. ?gs ! i = Some g \<and> ig_key g = k)"
      using pending_index [OF ok, of k i]
      by (cases "k = key") (auto simp: alist_simps nth_append new_io_group_def)
  qed
  then show ?thesis
    using none by (auto simp: p accumulate_io_group_def active_def map_filter_def)
qed

lemma accumulate_hit:
  assumes "pending_ok p" and "map_of (snd p) key = Some i"
  shows "\<exists>p' g M. accumulate_io_group key b l t p = Some p' \<and> pending_ok p' \<and> ig_key g = key \<and> ig_operations g \<noteq> 0 \<and>
    mset (active p) = add_mset g M \<and> mset (active p') = add_mset (io_group_record b l g) M"
proof -
  obtain gs ps where p: "p = (gs, ps)" by (cases p)
  have ok: "pending_ok (gs, ps)" and some: "map_of ps key = Some i" using assms p by simp_all
  obtain g where g: "i < length gs" "gs ! i = Some g" "ig_key g = key"
    using pending_index [OF ok some] by blast
  have ops: "ig_operations g \<noteq> 0" using pending_group [OF ok g(1,2)] by simp
  let ?h = "io_group_record b l g"
  have "unat (ig_operations g) \<noteq> 0" using ops by (simp add: unat_eq_zero)
  then have "unat (ig_operations ?h) \<noteq> 0" by (simp add: io_group_record_def sat_simps)
  then have h: "ig_operations ?h \<noteq> 0" "ig_key ?h = key" using g(3) by (auto simp: io_group_record_def)
  have "pending_ok (gs[i := Some ?h], ps)"
  proof (rule pending_okI)
    fix j g'
    assume "j < length (gs[i := Some ?h])" "gs[i := Some ?h] ! j = Some g'"
    then show "ig_operations g' \<noteq> 0 \<and> map_of ps (ig_key g') = Some j"
      using pending_group [OF ok, of j g'] h some by (cases "j = i") auto
  next
    fix k j
    assume "map_of ps k = Some j"
    then show "j < length (gs[i := Some ?h]) \<and> (\<exists>g. gs[i := Some ?h] ! j = Some g \<and> ig_key g = k)"
      using pending_index [OF ok, of k j] g h by (cases "j = i") auto
  qed (rule pending_keys [OF ok])
  moreover have "mset (active (gs[i := Some ?h], ps)) + {#g#} = mset (active (gs, ps)) + {#?h#}"
    using active_at [OF g(1), of "Some ?h" ps] g(2) by simp
  moreover obtain M where M: "mset (active (gs, ps)) = add_mset g M"
  proof -
    have "g \<in> set (active (gs, ps))"
      using g by (force simp: active_def map_filter_def in_set_conv_nth image_iff)
    then show ?thesis using that mset_add [of g "mset (active (gs, ps))"] by auto
  qed
  ultimately show ?thesis
    using g ops some by (intro exI [of _ "(gs[i := Some ?h], ps)"] exI [of _ g] exI [of _ M])
      (simp add: p accumulate_io_group_def)
qed

lemma flush_io_key_spec:
  assumes "pending_ok p"
  shows "\<exists>p' out. flush_io_key e k (p, s) = Some (p', fold (record_io_group e) out s) \<and> pending_ok p' \<and>
    mset (active p) = mset (active p') + mset out \<and> (\<forall>g \<in> set out. ig_key g = k \<and> ig_operations g \<noteq> 0) \<and>
    map_of (snd p') = (map_of (snd p))(k := None)"
proof -
  obtain gs ps where p: "p = (gs, ps)" by (cases p)
  have ok: "pending_ok (gs, ps)" using assms p by simp
  show ?thesis
  proof (cases "map_of ps k")
    case None
    then have "(map_of ps)(k := None) = map_of ps" by auto
    with None ok show ?thesis
      by (intro exI [of _ p] exI [of _ "[]"]) (simp add: p flush_io_key_def)
  next
    case (Some i)
    obtain g where g: "i < length gs" "gs ! i = Some g" "ig_key g = k"
      using pending_index [OF ok Some] by blast
    let ?p = "(gs[i := None], AList.delete k ps)"
    have "pending_ok ?p"
    proof (rule pending_okI)
      show "distinct_keys (AList.delete k ps)" using pending_keys [OF ok] by simp
    next
      fix j g'
      assume j: "j < length (gs[i := None])" "gs[i := None] ! j = Some g'"
      then have "j \<noteq> i" by auto
      with j pending_group [OF ok, of j g'] Some show "ig_operations g' \<noteq> 0 \<and> map_of (AList.delete k ps) (ig_key g') = Some j"
        by (auto simp: alist_simps)
    next
      fix k' j
      assume a: "map_of (AList.delete k ps) k' = Some j"
      then have "k' \<noteq> k" "map_of ps k' = Some j" by (auto simp: alist_simps split: if_splits)
      with pending_index [OF ok, of k' j] g show "j < length (gs[i := None]) \<and> (\<exists>g. gs[i := None] ! j = Some g \<and> ig_key g = k')"
        by (cases "j = i") auto
    qed
    moreover have "mset (active (gs, ps)) = mset (active ?p) + {#g#}"
      using active_at [OF g(1), of None ps] g(2) by (simp add: active_def)
    ultimately show ?thesis
      using Some g pending_group [OF ok g(1,2)]
      by (intro exI [of _ ?p] exI [of _ "[g]"]) (simp add: p flush_io_key_def alist_simps)
  qed
qed

lemma flush_keys_spec:
  assumes "pending_ok p"
  shows "\<exists>p' out. flush_keys e ks (p, s) = Some (p', fold (record_io_group e) out s) \<and> pending_ok p' \<and>
    mset (active p) = mset (active p') + mset out \<and> (\<forall>g \<in> set out. ig_key g \<in> set ks \<and> ig_operations g \<noteq> 0) \<and>
    map_of (snd p') = map_of (snd p) |` (- set ks)"
  using assms
proof (induction ks arbitrary: p s)
  case Nil
  then show ?case by (intro exI [of _ p] exI [of _ "[]"]) simp
next
  case (Cons k ks)
  obtain p1 out1 where 1: "flush_io_key e k (p, s) = Some (p1, fold (record_io_group e) out1 s)" "pending_ok p1"
    "mset (active p) = mset (active p1) + mset out1" "\<forall>g \<in> set out1. ig_key g = k \<and> ig_operations g \<noteq> 0"
    "map_of (snd p1) = (map_of (snd p))(k := None)"
    using flush_io_key_spec [OF Cons.prems] by blast
  obtain p2 out2 where 2: "flush_keys e ks (p1, fold (record_io_group e) out1 s) =
      Some (p2, fold (record_io_group e) out2 (fold (record_io_group e) out1 s))" "pending_ok p2"
    "mset (active p1) = mset (active p2) + mset out2" "\<forall>g \<in> set out2. ig_key g \<in> set ks \<and> ig_operations g \<noteq> 0"
    "map_of (snd p2) = map_of (snd p1) |` (- set ks)"
    using Cons.IH [OF 1(2)] by blast
  have "map_of (snd p2) = map_of (snd p) |` (- set (k # ks))"
    using 1(5) 2(5) by (auto simp: restrict_map_def fun_eq_iff)
  with 1 2 show ?case
    by (intro exI [of _ p2] exI [of _ "out1 @ out2"]) (auto simp: union_ac)
qed

text \<open>The groups left after a flush have other keys.\<close>

lemma active_after:
  assumes "pending_ok p" and "map_of (snd p) = m |` (- K)" and "g \<in> set (active p)"
  shows "ig_key g \<notin> K"
proof -
  obtain gs ps where p: "p = (gs, ps)" by (cases p)
  from active_key [of gs ps g] assms p obtain i where "map_of ps (ig_key g) = Some i" by auto
  with assms(2) p show ?thesis by (auto simp: restrict_map_def split: if_splits)
qed

subsection \<open>Ingestion never fails\<close>

fun is_io :: "bpf_event \<Rightarrow> bool" where
  "is_io (ReadEv pid tid fd bytes result latency_ns emitted_ns) = True"
| "is_io (WriteEv pid tid fd bytes result latency_ns emitted_ns) = True"
| "is_io _ = False"

lemma lifecycle_total:
  "\<not> is_io ev \<Longrightarrow> \<exists>ks. barrier_keys order keys ev = Some ks" "\<not> is_io ev \<Longrightarrow> \<exists>s'. ingest_lifecycle e ev s = Some s'"
  by (cases ev; simp)+

lemma ingest_lifecycle_event:
  "\<not> is_io ev \<Longrightarrow> ingest_event e order now ev ps =
     do { ps \<leftarrow> flush_lifecycle_groups e order ev ps; s \<leftarrow> ingest_lifecycle e ev (snd ps); Some (fst ps, s) }"
  by (cases ev) simp_all

lemma ingest_io_ok:
  assumes "pending_ok p"
  shows "\<exists>p' s'. ingest_io op pid fd b r l t (p, s) = Some (p', s') \<and> pending_ok p'"
proof -
  let ?k = "\<lparr>ik_pid = pid, ik_fd = fd, ik_op = op\<rparr>"
  obtain p' where "accumulate_io_group ?k b l t p = Some p'" "pending_ok p'"
    using accumulate_miss [OF assms, of ?k] accumulate_hit [OF assms, of ?k] by (cases "map_of (snd p) ?k") blast+
  then show ?thesis using assms by (cases p; cases p') (simp add: ingest_io_def Let_def)
qed

lemma ingest_event_ok:
  assumes "pending_ok p"
  shows "\<exists>p' s'. ingest_event e order now ev (p, s) = Some (p', s') \<and> pending_ok p'"
proof (cases "is_io ev")
  case True
  then show ?thesis using ingest_io_ok [OF assms] by (cases ev) auto
next
  case False
  obtain ks where ks: "barrier_keys order (map fst (snd p)) ev = Some ks" using lifecycle_total(1) [OF False] by blast
  obtain p' out where p': "flush_keys e ks (p, s) = Some (p', fold (record_io_group e) out s)" "pending_ok p'"
    using flush_keys_spec [OF assms, of e ks s] by blast
  obtain s' where "ingest_lifecycle e ev (fold (record_io_group e) out s) = Some s'"
    using lifecycle_total(2) [OF False] by blast
  with ks p' False show ?thesis
    by (simp add: ingest_lifecycle_event flush_lifecycle_groups_def)
qed

lemma ingest_events_ok:
  "pending_ok p \<Longrightarrow> \<exists>p' s'. ingest_events e order now evs (p, s) = Some (p', s') \<and> pending_ok p'"
proof (induction evs arbitrary: p s)
  case (Cons ev evs)
  then obtain p' s' where "ingest_event e order now ev (p, s) = Some (p', s')" "pending_ok p'"
    using ingest_event_ok by blast
  with Cons.IH [of p' s'] show ?case by simp
qed simp

text \<open>(C18) Ingestion is total: no batch of events, in any state, reaches an \<open>expect\<close> or an
  \<open>unreachable!\<close>; every event's effects are applied and the batch returns.\<close>

theorem ingest_never_panics:
  "\<exists>s'. ingest e order now events s = Some s'"
proof -
  obtain p' s' where "ingest_events e order now events
      (([], []), s\<lparr>as_total_events := sat_add (as_total_events s) (of_nat (length events))\<rparr>) = Some (p', s')"
    using ingest_events_ok pending_ok_empty(1) by blast
  then show ?thesis by (simp add: ingest_def)
qed

subsection \<open>The view of a state\<close>

text \<open>
  What the tables say: the descriptor table, the container root and the container name each process
  would be given (from the caches or, failing that, from the environment), the tree's view, the
  process table and the counters.
\<close>

record app_view =
  vw_fds :: "u32 \<times> u32 \<rightharpoonup> string"
  vw_roots :: "u32 \<Rightarrow> string option"
  vw_names :: "u32 \<Rightarrow> string option"
  vw_fresh :: "u32 \<Rightarrow> string option"
  vw_tree :: tree_view
  vw_procs :: "u32 \<rightharpoonup> process_info"
  vw_attribution :: u64
  vw_ignored :: u64
  vw_failed :: u64
  vw_zero :: u64

definition fresh_root :: "env \<Rightarrow> u32 \<Rightarrow> string option" where
  "fresh_root e pid =
     (case e_link e (''/proc/'' @ show_word pid @ ''/root'') of
        None \<Rightarrow> None | Some r \<Rightarrow> if r \<noteq> ''/'' then Some r else None)"

definition root_of :: "env \<Rightarrow> fd_cache \<Rightarrow> u32 \<Rightarrow> string option" where
  "root_of e c pid = (case fc_roots c pid of Some r \<Rightarrow> r | None \<Rightarrow> fresh_root e pid)"

definition name_of :: "env \<Rightarrow> resolver \<Rightarrow> u32 \<Rightarrow> string option" where
  "name_of e r pid = (case cr_pids r pid of Some n \<Rightarrow> n | None \<Rightarrow> lookup_pid (e_cgroup e) r pid)"

definition view :: "env \<Rightarrow> app_state \<Rightarrow> app_view" where
  "view e s =
     \<lparr>vw_fds = map_of (fc_map (as_fds s)), vw_roots = root_of e (as_fds s),
      vw_names = name_of e (as_containers s), vw_fresh = lookup_pid (e_cgroup e) (as_containers s),
      vw_tree = abs_tree (as_tree s), vw_procs = map_of (as_procs s),
      vw_attribution = as_attribution_failures s, vw_ignored = as_ignored s,
      vw_failed = as_failed s, vw_zero = as_zero_byte s\<rparr>"

text \<open>Resolution depends on the cache only through the container root of the process.\<close>

definition rooted :: "u32 \<Rightarrow> string option \<Rightarrow> fd_cache" where
  "rooted pid rt = \<lparr>fc_map = [], fc_roots = [pid \<mapsto> rt]\<rparr>"

lemma strip_container_root_view:
  "fst (strip_container_root (e_link e) pid h c) = strip_root (root_of e c pid) h"
  "root_of e (snd (strip_container_root (e_link e) pid h c)) = root_of e c"
  by (auto simp: strip_container_root_def root_of_def fresh_root_def Let_def fun_eq_iff split: option.split)

lemma root_of_rooted: "root_of e (rooted pid rt) pid = rt"
  by (simp add: root_of_def rooted_def)

lemma resolve_proc_target_view:
  "root_of e c pid = root_of e c' pid \<Longrightarrow>
     fst (resolve_proc_target (e_link e) pid fd c) = fst (resolve_proc_target (e_link e) pid fd c')"
  "root_of e (snd (resolve_proc_target (e_link e) pid fd c)) = root_of e c"
  by (simp_all add: resolve_proc_target_def Let_def case_prod_unfold strip_container_root_view
      split: option.split pseudo_path.split)

lemma resolve_existing_view:
  "root_of e c pid = root_of e c' pid \<Longrightarrow>
     fst (resolve_existing (e_link e) pid fd c) = fst (resolve_existing (e_link e) pid fd c')"
  "root_of e (snd (resolve_existing (e_link e) pid fd c)) = root_of e c"
  using resolve_proc_target_view(1) [of e c pid c' fd] resolve_proc_target_view(2) [of e pid fd c]
  by (simp_all add: resolve_existing_def Let_def case_prod_unfold split: option.split)

lemma resolve_view:
  assumes "root_of e c pid = root_of e c' pid"
  shows "fst (resolve (e_link e) pid fd dirfd raw flags c) = fst (resolve (e_link e) pid fd dirfd raw flags c')"
    and "root_of e (snd (resolve (e_link e) pid fd dirfd raw flags c)) = root_of e c"
proof -
  have s: "fst (resolve_proc_target (e_link e) pid fd (snd (strip_container_root (e_link e) pid h c))) =
      fst (resolve_proc_target (e_link e) pid fd (snd (strip_container_root (e_link e) pid h c')))" for h
    by (rule resolve_proc_target_view(1)) (simp add: strip_container_root_view assms)
  show "fst (resolve (e_link e) pid fd dirfd raw flags c) = fst (resolve (e_link e) pid fd dirfd raw flags c')"
    using resolve_proc_target_view(1) [OF assms, of fd] s assms
    by (simp add: resolve_def Let_def case_prod_unfold strip_container_root_view
        split: option.split pseudo_path.split path_resolution.split)
  show "root_of e (snd (resolve (e_link e) pid fd dirfd raw flags c)) = root_of e c"
    by (simp add: resolve_def Let_def case_prod_unfold strip_container_root_view resolve_proc_target_view(2)
        split: option.split pseudo_path.split path_resolution.split)
qed

lemma lines_name_tables: "lines_name (r\<lparr>cr_pids := m\<rparr>) ls = lines_name r ls"
proof -
  have "line_name (r\<lparr>cr_pids := m\<rparr>) l = line_name r l" for l
    by (simp add: line_name_def Let_def split: option.split)
  then show ?thesis by (induction ls) (simp_all split: option.split)
qed

lemma lookup_pid_tables: "lookup_pid cg (r\<lparr>cr_pids := m\<rparr>) = lookup_pid cg r"
  by (simp add: lookup_pid_def lines_name_tables fun_eq_iff split: option.split)

lemma container_resolve_view:
  "fst (container_resolve (e_cgroup e) pid r) = name_of e r pid"
  "name_of e (snd (container_resolve (e_cgroup e) pid r)) = name_of e r"
  "lookup_pid (e_cgroup e) (snd (container_resolve (e_cgroup e) pid r)) = lookup_pid (e_cgroup e) r"
  by (auto simp: container_resolve_def name_of_def lookup_pid_tables fun_eq_iff Let_def split: option.split)

subsection \<open>The steps on the view\<close>

definition add_process :: "env \<Rightarrow> u32 \<Rightarrow> string option \<Rightarrow> node_stats \<Rightarrow> (u32 \<rightharpoonup> process_info) \<Rightarrow> (u32 \<rightharpoonup> process_info)" where
  "add_process e pid container d m =
     m(pid \<mapsto> (case m pid of
        None \<Rightarrow> \<lparr>pi_pid = pid, pi_comm = read_comm (e_comm e) pid, pi_container = container, pi_stats = d\<rparr>
      | Some info \<Rightarrow> info\<lparr>pi_container := (case pi_container info of None \<Rightarrow> container | Some c \<Rightarrow> Some c),
                          pi_stats := pi_stats info + d\<rparr>))"

definition deposit :: "string list \<Rightarrow> env \<Rightarrow> u32 \<Rightarrow> string \<Rightarrow> node_stats \<Rightarrow> app_view \<Rightarrow> app_view" where
  "deposit ex e pid path d v =
     (if is_excluded ex path then v
      else v\<lparr>vw_tree := spec_step (RecordStats (decorated (vw_names v pid) path) pid d) (vw_tree v),
             vw_procs := add_process e pid (vw_names v pid) d (vw_procs v)\<rparr>)"

definition existing :: "env \<Rightarrow> u32 \<Rightarrow> u32 \<Rightarrow> string option \<Rightarrow> path_resolution" where
  "existing e pid fd rt = fst (resolve_existing (e_link e) pid fd (rooted pid rt))"

text \<open>The outcome of attributing I/O on a descriptor, and its effect on table and counters.\<close>

definition outcome :: "env \<Rightarrow> u32 \<Rightarrow> u32 \<Rightarrow> app_view \<Rightarrow> path_resolution" where
  "outcome e pid fd v =
     (case vw_fds v (pid, fd) of Some p \<Rightarrow> Resolved p | None \<Rightarrow> existing e pid fd (vw_roots v pid))"

fun path_of :: "path_resolution \<Rightarrow> string option" where
  "path_of (Resolved p) = Some p"
| "path_of (Unresolved p) = Some p"
| "path_of Ignored = None"

definition attach :: "env \<Rightarrow> u32 \<Rightarrow> u32 \<Rightarrow> app_view \<Rightarrow> app_view" where
  "attach e pid fd v =
     (case outcome e pid fd v of
        Resolved p \<Rightarrow> v\<lparr>vw_fds := (vw_fds v)((pid, fd) \<mapsto> p)\<rparr>
      | Unresolved p \<Rightarrow> v\<lparr>vw_fds := (vw_fds v)((pid, fd) \<mapsto> p), vw_attribution := sat_add (vw_attribution v) 1\<rparr>
      | Ignored \<Rightarrow> v)"

definition group_step :: "string list \<Rightarrow> env \<Rightarrow> io_group \<Rightarrow> app_view \<Rightarrow> app_view" where
  "group_step ex e g v =
     (let pid = ik_pid (ig_key g); fd = ik_fd (ig_key g)
      in case path_of (outcome e pid fd v) of
           Some p \<Rightarrow> deposit ex e pid p (io_group_stats g) (attach e pid fd v)
         | None \<Rightarrow> v\<lparr>vw_ignored := sat_add (vw_ignored v) (ig_operations g)\<rparr>)"

lemma view_resolve_fd_path:
  "fst (resolve_fd_path e pid fd s) = path_of (outcome e pid fd (view e s))"
  "view e (snd (resolve_fd_path e pid fd s)) =
     (if outcome e pid fd (view e s) = Ignored then (view e s)\<lparr>vw_ignored := sat_add (vw_ignored (view e s)) 1\<rparr>
      else attach e pid fd (view e s))"
  "as_exclude (snd (resolve_fd_path e pid fd s)) = as_exclude s"
proof -
  have ex: "existing e pid fd (root_of e (as_fds s) pid) = fst (resolve_existing (e_link e) pid fd (as_fds s))"
    unfolding existing_def by (rule resolve_existing_view(1)) (simp add: root_of_rooted)
  obtain res c where rc: "resolve_existing (e_link e) pid fd (as_fds s) = (res, c)" by fastforce
  have c: "fc_map c = fc_map (as_fds s)" "root_of e c = root_of e (as_fds s)"
    using resolve_map(2) [of "e_link e" pid fd "as_fds s"] resolve_existing_view(2) [of e pid fd "as_fds s"] rc by simp_all
  have st: "root_of e (fd_store pid fd p c) = root_of e c" for p
    by (simp add: root_of_def fd_store_def fun_eq_iff)
  show "fst (resolve_fd_path e pid fd s) = path_of (outcome e pid fd (view e s))"
    using ex rc by (cases res) (simp_all add: resolve_fd_path_def outcome_def view_def fd_lookup_def split: option.split)
  show "as_exclude (snd (resolve_fd_path e pid fd s)) = as_exclude s"
    using rc by (cases res) (simp_all add: resolve_fd_path_def split: option.split)
  show "view e (snd (resolve_fd_path e pid fd s)) =
     (if outcome e pid fd (view e s) = Ignored then (view e s)\<lparr>vw_ignored := sat_add (vw_ignored (view e s)) 1\<rparr>
      else attach e pid fd (view e s))"
  proof (cases "map_of (fc_map (as_fds s)) (pid, fd)")
    case (Some p)
    then show ?thesis by (auto simp: resolve_fd_path_def fd_lookup_def outcome_def attach_def view_def)
  next
    case None
    then show ?thesis
      using ex rc c st
      by (cases res) (simp_all add: resolve_fd_path_def fd_lookup_def outcome_def attach_def view_def,
          simp_all add: fd_store_def alist_simps)
  qed
qed

lemma sat_ignored: "n \<noteq> 0 \<Longrightarrow> sat_add (sat_add c 1) (sat_sub n 1) = sat_add c n" for c n :: u64
proof -
  assume "n \<noteq> 0"
  then have "unat n \<noteq> 0" by (simp add: unat_eq_zero)
  then show ?thesis by (intro word_unat_eq_iff [THEN iffD2]) (simp add: sat_simps)
qed

lemma view_record_io_group:
  assumes "ig_operations g \<noteq> 0"
  shows "view e (record_io_group e g s) = group_step (as_exclude s) e g (view e s)"
    and "as_exclude (record_io_group e g s) = as_exclude s"
proof -
  let ?pid = "ik_pid (ig_key g)" and ?fd = "ik_fd (ig_key g)"
  obtain path s1 where r: "resolve_fd_path e ?pid ?fd s = (path, s1)" by fastforce
  note v = view_resolve_fd_path [of e ?pid ?fd s, unfolded r fst_conv snd_conv]
  obtain c r1 where cr: "container_resolve (e_cgroup e) ?pid (as_containers s1) = (c, r1)" by fastforce
  note cv = container_resolve_view [of e ?pid "as_containers s1", unfolded cr fst_conv snd_conv]
  show "as_exclude (record_io_group e g s) = as_exclude s"
    using v(3) by (simp add: record_io_group_def r cr Let_def split: option.split)
  show "view e (record_io_group e g s) = group_step (as_exclude s) e g (view e s)"
  proof (cases path)
    case None
    then have ign: "outcome e ?pid ?fd (view e s) = Ignored" using v(1) by (cases "outcome e ?pid ?fd (view e s)") simp_all
    have "view e (s1\<lparr>as_ignored := x\<rparr>) = (view e s1)\<lparr>vw_ignored := x\<rparr>" for x by (simp add: view_def)
    moreover have "as_ignored s1 = vw_ignored (view e s1)" by (simp add: view_def)
    ultimately show ?thesis
      using None v(2) ign sat_ignored [OF assms] by (simp add: record_io_group_def r group_step_def)
  next
    case (Some p)
    then have hit: "path_of (outcome e ?pid ?fd (view e s)) = Some p" "outcome e ?pid ?fd (view e s) \<noteq> Ignored"
      using v(1) by auto
    then have v1: "view e s1 = attach e ?pid ?fd (view e s)" using v(2) by simp
    let ?s2 = "record_io_group e g s"
    have "view e ?s2 = deposit (as_exclude s) e ?pid p (io_group_stats g) (view e s1)"
    proof (cases "is_excluded (as_exclude s) p")
      case True
      then show ?thesis using Some v(3) by (simp add: record_io_group_def r deposit_def)
    next
      case False
      then show ?thesis
        using Some v(3) cv
        by (simp add: record_io_group_def r cr Let_def deposit_def view_def abs_record_stats map_of_table_record
            add_process_def del: spec_step.simps)
    qed
    then show ?thesis using hit v1 by (simp add: group_step_def Let_def)
  qed
qed

text \<open>Lifecycle events on the view.\<close>

definition keep_open :: "string list \<Rightarrow> env \<Rightarrow> u32 \<Rightarrow> u32 \<Rightarrow> string \<Rightarrow> app_view \<Rightarrow> app_view" where
  "keep_open ex e pid fd path v =
     deposit ex e pid path (for_operations Open 0 1 0 0) (v\<lparr>vw_fds := (vw_fds v)((pid, fd) \<mapsto> path)\<rparr>)"

definition forget_pid :: "env \<Rightarrow> u32 \<Rightarrow> app_view \<Rightarrow> app_view" where
  "forget_pid e pid v =
     v\<lparr>vw_fds := (\<lambda>(p, f). if p = pid then None else vw_fds v (p, f)),
       vw_roots := (vw_roots v)(pid := fresh_root e pid), vw_names := (vw_names v)(pid := vw_fresh v pid),
       vw_procs := (vw_procs v)(pid := None), vw_tree := spec_step (RemoveProcess pid) (vw_tree v)\<rparr>"

definition dup_step :: "env \<Rightarrow> u32 \<Rightarrow> u32 \<Rightarrow> u32 \<Rightarrow> app_view \<Rightarrow> app_view" where
  "dup_step e pid old new v =
     (let out = outcome e pid old v;
          v = (if out = Ignored then v\<lparr>vw_ignored := sat_add (vw_ignored v) 1\<rparr> else attach e pid old v);
          v = (if old \<noteq> new then v\<lparr>vw_fds := (vw_fds v)((pid, new) := None)\<rparr> else v)
      in case path_of out of Some p \<Rightarrow> v\<lparr>vw_fds := (vw_fds v)((pid, new) \<mapsto> p)\<rparr> | None \<Rightarrow> v)"

fun lifecycle_step :: "string list \<Rightarrow> env \<Rightarrow> bpf_event \<Rightarrow> app_view \<Rightarrow> app_view" where
  "lifecycle_step ex e (OpenEv pid tid fd dirfd path flags t) v =
     (case fst (resolve (e_link e) pid fd dirfd path flags (rooted pid (vw_roots v pid))) of
        Resolved p \<Rightarrow> keep_open ex e pid fd p v
      | Unresolved p \<Rightarrow> keep_open ex e pid fd p (v\<lparr>vw_attribution := sat_add (vw_attribution v) 1\<rparr>)
      | Ignored \<Rightarrow> v\<lparr>vw_ignored := sat_add (vw_ignored v) 1\<rparr>)"
| "lifecycle_step ex e (CloseEv pid tid fd t) v =
     (let v = (case vw_fds v (pid, fd) of
                 None \<Rightarrow> v | Some p \<Rightarrow> deposit ex e pid p (for_operations Close 0 1 0 0) v)
      in v\<lparr>vw_fds := (vw_fds v)((pid, fd) := None)\<rparr>)"
| "lifecycle_step ex e (DupEv pid tid old new t) v = dup_step e pid old new v"
| "lifecycle_step ex e (CloseRangeEv pid tid a b flags t) v =
     (if flags AND CLOSE_RANGE_CLOEXEC = 0
      then v\<lparr>vw_fds := (\<lambda>(p, f). if p = pid \<and> a \<le> f \<and> f \<le> b then None else vw_fds v (p, f))\<rparr> else v)"
| "lifecycle_step ex e (ProcessExecEv pid t) v = forget_pid e pid v"
| "lifecycle_step ex e (ProcessExitEv pid t) v = forget_pid e pid v"
| "lifecycle_step ex e _ v = v"

lemma view_record_op:
  assumes "decorate_path e pid path s = (dp, s1)"
  shows "view e (record_process e pid op 0 0 (s1\<lparr>as_tree := record_op dp pid op 0 0 (as_tree s1)\<rparr>)) =
      (let v = view e s; d = for_operations op 0 1 0 0
       in v\<lparr>vw_tree := spec_step (RecordStats (decorated (vw_names v pid) path) pid d) (vw_tree v),
            vw_procs := add_process e pid (vw_names v pid) d (vw_procs v)\<rparr>)"
    and "as_exclude (record_process e pid op 0 0 (s1\<lparr>as_tree := record_op dp pid op 0 0 (as_tree s1)\<rparr>)) = as_exclude s"
proof -
  obtain c r1 where cr: "container_resolve (e_cgroup e) pid (as_containers s) = (c, r1)" by fastforce
  note cv = container_resolve_view [of e pid "as_containers s", unfolded cr fst_conv snd_conv]
  have s1: "s1 = s\<lparr>as_containers := r1\<rparr>" "dp = decorated c path" using assms by (simp_all add: decorate_path_def cr)
  obtain c2 r2 where cr2: "container_resolve (e_cgroup e) pid r1 = (c2, r2)" by fastforce
  note cv2 = container_resolve_view [of e pid r1, unfolded cr2 fst_conv snd_conv]
  show "view e (record_process e pid op 0 0 (s1\<lparr>as_tree := record_op dp pid op 0 0 (as_tree s1)\<rparr>)) =
      (let v = view e s; d = for_operations op 0 1 0 0
       in v\<lparr>vw_tree := spec_step (RecordStats (decorated (vw_names v pid) path) pid d) (vw_tree v),
            vw_procs := add_process e pid (vw_names v pid) d (vw_procs v)\<rparr>)"
    using cv cv2
    by (simp add: s1 record_process_def cr2 view_def record_op_def abs_record_stats table_record_context_def
        map_of_table_record add_process_def Let_def del: spec_step.simps for_operations.simps
        cong: option.case_cong)
  show "as_exclude (record_process e pid op 0 0 (s1\<lparr>as_tree := record_op dp pid op 0 0 (as_tree s1)\<rparr>)) = as_exclude s"
    by (simp add: s1 record_process_def cr2)
qed

lemma root_of_frames:
  "root_of e (fd_store pid fd p c) = root_of e c" "root_of e (on_close pid fd c) = root_of e c"
  "root_of e (on_close_range pid a b flags c) = root_of e c"
  "root_of e (on_process_reset pid c) = (root_of e c)(pid := fresh_root e pid)"
  by (auto simp: root_of_def fd_store_def on_close_def on_close_range_def on_process_reset_def fun_eq_iff)

lemma name_of_invalidate: "name_of e (invalidate_pid pid r) = (name_of e r)(pid := lookup_pid (e_cgroup e) r pid)"
  "lookup_pid cg (invalidate_pid pid r) = lookup_pid cg r"
  by (auto simp: name_of_def invalidate_pid_def lookup_pid_tables fun_eq_iff split: option.split)

lemma fc_map_frames:
  "map_of (fc_map (fd_store pid fd p c)) = (map_of (fc_map c))((pid, fd) \<mapsto> p)"
  "map_of (fc_map (on_close pid fd c)) = (map_of (fc_map c))((pid, fd) := None)"
  by (simp_all add: fd_store_def on_close_def alist_simps)

lemma fc_map_range:
  "map_of (fc_map (on_close_range pid a b flags c)) =
     (if flags AND CLOSE_RANGE_CLOEXEC = 0
      then (\<lambda>(p, f). if p = pid \<and> a \<le> f \<and> f \<le> b then None else map_of (fc_map c) (p, f)) else map_of (fc_map c))"
  using fd_lookup_range [of _ _ pid a b flags c] by (auto simp: fd_lookup_def fun_eq_iff)

lemma fc_map_reset:
  "map_of (fc_map (on_process_reset pid c)) = (\<lambda>(p, f). if p = pid then None else map_of (fc_map c) (p, f))"
  using fd_table.lookup_forget [of _ _ pid c] by (auto simp: fd_lookup_def fun_eq_iff)

lemma view_dup:
  assumes "ingest_lifecycle e (DupEv pid tid old new t) s = Some s'"
  shows "view e s' = dup_step e pid old new (view e s) \<and> as_exclude s' = as_exclude s"
proof -
  obtain path s1 where r: "resolve_fd_path e pid old s = (path, s1)" by fastforce
  note v = view_resolve_fd_path [of e pid old s, unfolded r fst_conv snd_conv]
  let ?s2 = "if old \<noteq> new then s1\<lparr>as_fds := on_close pid new (as_fds s1)\<rparr> else s1"
  let ?s3 = "case path of Some p \<Rightarrow> ?s2\<lparr>as_fds := fd_store pid new p (as_fds ?s2)\<rparr> | None \<Rightarrow> ?s2"
  have s': "s' = ?s3" using assms r by (simp add: Let_def)
  have c: "view e (x\<lparr>as_fds := on_close pid new (as_fds x)\<rparr>) = (view e x)\<lparr>vw_fds := (vw_fds (view e x))((pid, new) := None)\<rparr>"
    "view e (x\<lparr>as_fds := fd_store pid new p (as_fds x)\<rparr>) = (view e x)\<lparr>vw_fds := (vw_fds (view e x))((pid, new) \<mapsto> p)\<rparr>" for x p
    by (simp_all add: view_def fc_map_frames root_of_frames)
  have v2: "view e ?s2 = (if old \<noteq> new then (view e s1)\<lparr>vw_fds := (vw_fds (view e s1))((pid, new) := None)\<rparr> else view e s1)"
    by (simp add: c(1))
  have "view e ?s3 = (case path of Some p \<Rightarrow> (view e ?s2)\<lparr>vw_fds := (vw_fds (view e ?s2))((pid, new) \<mapsto> p)\<rparr> | None \<Rightarrow> view e ?s2)"
    by (cases path) (simp_all only: option.case c(2))
  moreover have "as_exclude ?s3 = as_exclude s" using v(3) by (cases path) simp_all
  ultimately show ?thesis
    unfolding s' dup_step_def Let_def v(1) [symmetric] v(2) [symmetric] v2 by simp
qed

lemma view_open:
  assumes "ingest_lifecycle e (OpenEv pid tid fd dirfd path flags t) s = Some s'"
  shows "view e s' = lifecycle_step (as_exclude s) e (OpenEv pid tid fd dirfd path flags t) (view e s) \<and> as_exclude s' = as_exclude s"
proof -
  obtain res c where rc: "resolve (e_link e) pid fd dirfd path flags (as_fds s) = (res, c)" by fastforce
  have c: "fc_map c = fc_map (as_fds s)" "root_of e c = root_of e (as_fds s)"
    using resolve_map(1) [of "e_link e" pid fd dirfd path flags "as_fds s"]
      resolve_view(2) [of e "as_fds s" pid "as_fds s" fd dirfd path flags] rc by simp_all
  have res: "fst (resolve (e_link e) pid fd dirfd path flags (rooted pid (root_of e (as_fds s) pid))) = res"
    using resolve_view(1) [of e "as_fds s" pid "rooted pid (root_of e (as_fds s) pid)" fd dirfd path flags] rc
    by (simp add: root_of_rooted)
  let ?s1 = "s\<lparr>as_fds := c\<rparr>"
  have v1: "view e ?s1 = view e s" using c by (simp add: view_def)
  let ?keep = "\<lambda>resolved s.
      let s = s\<lparr>as_fds := fd_store pid fd resolved (as_fds s)\<rparr>
      in if is_excluded (as_exclude s) resolved then s
         else let (display_path, s) = decorate_path e pid resolved s
              in record_process e pid Open 0 0 (s\<lparr>as_tree := record_op display_path pid Open 0 0 (as_tree s)\<rparr>)"
  have keep: "view e (?keep p x) = keep_open (as_exclude x) e pid fd p (view e x) \<and> as_exclude (?keep p x) = as_exclude x" for p x
  proof -
    let ?x = "x\<lparr>as_fds := fd_store pid fd p (as_fds x)\<rparr>"
    have vx: "view e ?x = (view e x)\<lparr>vw_fds := (vw_fds (view e x))((pid, fd) \<mapsto> p)\<rparr>"
      by (simp add: view_def fc_map_frames root_of_frames)
    obtain dp x1 where d: "decorate_path e pid p ?x = (dp, x1)" by fastforce
    note v = view_record_op [OF d, of Open]
    show ?thesis
      using v by (simp add: Let_def d vx keep_open_def deposit_def del: spec_step.simps for_operations.simps)
  qed
  have s': "s' = (case res of Resolved p \<Rightarrow> ?keep p ?s1
      | Unresolved p \<Rightarrow> ?keep p (?s1\<lparr>as_attribution_failures := sat_add (as_attribution_failures ?s1) 1\<rparr>)
      | Ignored \<Rightarrow> ?s1\<lparr>as_ignored := sat_add (as_ignored ?s1) 1\<rparr>)"
    using assms by (simp only: ingest_lifecycle.simps rc Let_def prod.case option.inject)
  have att: "view e (?s1\<lparr>as_attribution_failures := sat_add (as_attribution_failures ?s1) 1\<rparr>) =
      (view e s)\<lparr>vw_attribution := sat_add (vw_attribution (view e s)) 1\<rparr>"
    "view e (?s1\<lparr>as_ignored := sat_add (as_ignored ?s1) 1\<rparr>) = (view e s)\<lparr>vw_ignored := sat_add (vw_ignored (view e s)) 1\<rparr>"
    using c by (simp_all add: view_def)
  have roots: "vw_roots (view e s) pid = root_of e (as_fds s) pid" by (simp add: view_def)
  show ?thesis
  proof (cases res)
    case (Resolved p)
    then show ?thesis using keep [of p ?s1] v1 res roots s' by simp
  next
    case (Unresolved p)
    then show ?thesis
      using keep [of p "?s1\<lparr>as_attribution_failures := sat_add (as_attribution_failures ?s1) 1\<rparr>"] att res roots s' by simp
  next
    case Ignored
    then show ?thesis using att res roots s' by simp
  qed
qed

lemma view_close:
  assumes "ingest_lifecycle e (CloseEv pid tid fd t) s = Some s'"
  shows "view e s' = lifecycle_step (as_exclude s) e (CloseEv pid tid fd t) (view e s) \<and> as_exclude s' = as_exclude s"
proof -
  let ?s1 = "case fd_lookup pid fd (as_fds s) of
      None \<Rightarrow> s
    | Some path \<Rightarrow>
        if is_excluded (as_exclude s) path then s
        else let (path, s) = decorate_path e pid path s
             in record_process e pid Close 0 0 (s\<lparr>as_tree := record_op path pid Close 0 0 (as_tree s)\<rparr>)"
  have s': "s' = ?s1\<lparr>as_fds := on_close pid fd (as_fds ?s1)\<rparr>"
    using assms by (simp only: ingest_lifecycle.simps Let_def option.inject)
  have lk: "fd_lookup pid fd (as_fds s) = vw_fds (view e s) (pid, fd)" by (simp add: fd_lookup_def view_def)
  have v1: "view e ?s1 = (case vw_fds (view e s) (pid, fd) of
      None \<Rightarrow> view e s | Some p \<Rightarrow> deposit (as_exclude s) e pid p (for_operations Close 0 1 0 0) (view e s)) \<and>
      as_exclude ?s1 = as_exclude s"
  proof (cases "vw_fds (view e s) (pid, fd)")
    case (Some p)
    obtain dp x1 where d: "decorate_path e pid p s = (dp, x1)" by fastforce
    show ?thesis
      using view_record_op [OF d, of Close] Some
      by (simp add: lk d Let_def deposit_def del: spec_step.simps for_operations.simps)
  qed (simp add: lk)
  have c: "view e (x\<lparr>as_fds := on_close pid fd (as_fds x)\<rparr>) = (view e x)\<lparr>vw_fds := (vw_fds (view e x))((pid, fd) := None)\<rparr>" for x
    by (simp add: view_def fc_map_frames root_of_frames)
  have "?thesis" if "s' = x\<lparr>as_fds := on_close pid fd (as_fds x)\<rparr>" "as_exclude x = as_exclude s"
    "view e x = (case vw_fds (view e s) (pid, fd) of
      None \<Rightarrow> view e s | Some p \<Rightarrow> deposit (as_exclude s) e pid p (for_operations Close 0 1 0 0) (view e s))" for x
    using that by (simp add: c Let_def)
  with s' v1 show ?thesis by blast
qed

lemma view_range:
  assumes "ingest_lifecycle e (CloseRangeEv pid tid a b flags t) s = Some s'"
  shows "view e s' = lifecycle_step (as_exclude s) e (CloseRangeEv pid tid a b flags t) (view e s) \<and> as_exclude s' = as_exclude s"
  using assms by (auto simp: view_def fc_map_range root_of_frames)

lemma view_forget:
  assumes "tree_ok (as_tree s)"
  shows "view e (s\<lparr>as_fds := on_process_reset pid (as_fds s), as_containers := invalidate_pid pid (as_containers s),
             as_procs := table_remove pid (as_procs s), as_tree := remove_process pid (as_tree s)\<rparr>) =
    forget_pid e pid (view e s)"
  using abs_remove_process [OF assms, of pid]
  by (simp add: view_def forget_pid_def fc_map_reset root_of_frames name_of_invalidate table_remove_def alist_simps
      del: spec_step.simps cong: if_cong)

lemma view_lifecycle:
  assumes "ingest_lifecycle e ev s = Some s'" and "tree_ok (as_tree s)"
  shows "view e s' = lifecycle_step (as_exclude s) e ev (view e s) \<and> as_exclude s' = as_exclude s"
proof (cases ev)
  case (OpenEv pid tid fd dirfd path flags t)
  then show ?thesis using view_open assms(1) by blast
next
  case (CloseEv pid tid fd t)
  then show ?thesis using view_close assms(1) by blast
next
  case (DupEv pid tid old new t)
  then show ?thesis using view_dup [of e pid tid old new t s s'] assms(1) by simp
next
  case (CloseRangeEv pid tid a b flags t)
  then show ?thesis using view_range assms(1) by blast
next
  case (ProcessExecEv pid t)
  then show ?thesis using view_forget [OF assms(2), of e pid] assms(1) by auto
next
  case (ProcessExitEv pid t)
  then show ?thesis using view_forget [OF assms(2), of e pid] assms(1) by auto
qed (use assms(1) in simp_all)

subsection \<open>The tree stays well formed\<close>

lemma tree_resolve_fd_path [simp]: "as_tree (snd (resolve_fd_path e pid fd s)) = as_tree s"
  by (simp add: resolve_fd_path_def Let_def case_prod_unfold split: option.split path_resolution.split)

lemma tree_ok_group: "tree_ok (as_tree s) \<Longrightarrow> tree_ok (as_tree (record_io_group e g s))"
  using tree_resolve_fd_path [of e "ik_pid (ig_key g)" "ik_fd (ig_key g)" s]
  by (auto simp: record_io_group_def Let_def case_prod_unfold tree_ok_record_stats split: option.split)

lemma tree_ok_groups: "tree_ok (as_tree s) \<Longrightarrow> tree_ok (as_tree (fold (record_io_group e) gs s))"
  by (induction gs arbitrary: s) (simp_all add: tree_ok_group)

lemma tree_ok_lifecycle:
  assumes "ingest_lifecycle e ev s = Some s'" and "tree_ok (as_tree s)"
  shows "tree_ok (as_tree s')"
proof -
  have op: "as_tree (record_process e pid op 0 0 x) = as_tree x" for pid op x
    by (simp add: record_process_def case_prod_unfold Let_def)
  have dec: "as_tree (snd (decorate_path e pid path x)) = as_tree x" for pid path x
    by (simp add: decorate_path_def case_prod_unfold Let_def)
  show ?thesis
    using assms tree_resolve_fd_path
    by (cases ev) (auto simp: Let_def case_prod_unfold op dec record_op_def tree_ok_record_stats tree_ok_remove_process
        split: option.splits path_resolution.splits if_splits)
qed

lemma exclude_groups:
  "(\<forall>g \<in> set gs. ig_operations g \<noteq> 0) \<Longrightarrow>
   view e (fold (record_io_group e) gs s) = fold (group_step (as_exclude s) e) gs (view e s) \<and>
   as_exclude (fold (record_io_group e) gs s) = as_exclude s"
  by (induction gs arbitrary: s) (simp_all add: view_record_io_group)

end
