(* ===== verification/Coalescing.thy ===== *)
theory Coalescing
  imports App_View
begin

section \<open>Coalescing is sound\<close>

text \<open>
  \<open>ingest\<close> merges the successful reads and writes of a descriptor until a lifecycle event concerns
  it, and so resolves and records out of order. This theory shows that the merge is invisible: on
  the view of a state, the recording of a group commutes with the recording of any other and with
  every lifecycle event that does not flush it.
\<close>

subsection \<open>Groups commute\<close>

lemma record_stats_commute:
  "spec_step (RecordStats p1 d1 x1) (spec_step (RecordStats p2 d2 x2) v) =
   spec_step (RecordStats p2 d2 x2) (spec_step (RecordStats p1 d1 x1) v)"
  by (auto simp: Let_def fun_eq_iff ac_simps split: option.split)

lemma record_stats_merge:
  "spec_step (RecordStats p pid y) (spec_step (RecordStats p pid x) v) = spec_step (RecordStats p pid (x + y)) v"
  by (auto simp: Let_def fun_eq_iff ac_simps split: option.split)

lemma add_process_commute:
  "(p1 = p2 \<Longrightarrow> c1 = c2) \<Longrightarrow>
   add_process e p1 c1 x1 (add_process e p2 c2 x2 m) = add_process e p2 c2 x2 (add_process e p1 c1 x1 m)"
  by (auto simp: add_process_def fun_eq_iff ac_simps split: option.split)

lemma add_process_merge: "add_process e p c y (add_process e p c x m) = add_process e p c (x + y) m"
  by (auto simp: add_process_def fun_eq_iff ac_simps split: option.split)

text \<open>The parts of a view that a group's recording reads and does not change.\<close>

lemma deposit_frame [simp]:
  "vw_fds (deposit ex e pid p d v) = vw_fds v" "vw_roots (deposit ex e pid p d v) = vw_roots v"
  "vw_names (deposit ex e pid p d v) = vw_names v" "vw_fresh (deposit ex e pid p d v) = vw_fresh v"
  "vw_attribution (deposit ex e pid p d v) = vw_attribution v" "vw_ignored (deposit ex e pid p d v) = vw_ignored v"
  "vw_failed (deposit ex e pid p d v) = vw_failed v" "vw_zero (deposit ex e pid p d v) = vw_zero v"
  by (simp_all add: deposit_def)

lemma attach_frame [simp]:
  "vw_roots (attach e pid fd v) = vw_roots v" "vw_names (attach e pid fd v) = vw_names v"
  "vw_fresh (attach e pid fd v) = vw_fresh v" "vw_tree (attach e pid fd v) = vw_tree v"
  "vw_procs (attach e pid fd v) = vw_procs v" "vw_ignored (attach e pid fd v) = vw_ignored v"
  "vw_failed (attach e pid fd v) = vw_failed v" "vw_zero (attach e pid fd v) = vw_zero v"
  by (simp_all add: attach_def split: path_resolution.split)

text \<open>A group's recording as one update, with each field spelt out.\<close>

definition misses :: "env \<Rightarrow> u32 \<Rightarrow> u32 \<Rightarrow> app_view \<Rightarrow> u64" where
  "misses e pid fd v = (case outcome e pid fd v of Unresolved p \<Rightarrow> 1 | _ \<Rightarrow> 0)"

definition paid :: "string list \<Rightarrow> env \<Rightarrow> io_group \<Rightarrow> app_view \<Rightarrow> string option" where
  "paid ex e g v = (case path_of (outcome e (ik_pid (ig_key g)) (ik_fd (ig_key g)) v) of
     Some p \<Rightarrow> if is_excluded ex p then None else Some (decorated (vw_names v (ik_pid (ig_key g))) p) | None \<Rightarrow> None)"

lemma group_step_flat:
  "group_step ex e g v =
     (let pid = ik_pid (ig_key g); fd = ik_fd (ig_key g); out = outcome e pid fd v
      in v\<lparr>vw_fds := (vw_fds v)((pid, fd) := path_of out),
           vw_tree := (case paid ex e g v of Some q \<Rightarrow> spec_step (RecordStats q pid (io_group_stats g)) (vw_tree v) | None \<Rightarrow> vw_tree v),
           vw_procs := (case paid ex e g v of Some q \<Rightarrow> add_process e pid (vw_names v pid) (io_group_stats g) (vw_procs v) | None \<Rightarrow> vw_procs v),
           vw_attribution := sat_add (vw_attribution v) (misses e pid fd v),
           vw_ignored := sat_add (vw_ignored v) (if out = Ignored then ig_operations g else 0)\<rparr>)"
proof (cases "outcome e (ik_pid (ig_key g)) (ik_fd (ig_key g)) v")
  case Ignored
  then have "vw_fds v (ik_pid (ig_key g), ik_fd (ig_key g)) = None" by (simp add: outcome_def split: option.splits)
  then have "(vw_fds v)((ik_pid (ig_key g), ik_fd (ig_key g)) := None) = vw_fds v" by auto
  with Ignored show ?thesis by (simp add: group_step_def Let_def misses_def paid_def)
qed (simp_all add: group_step_def Let_def misses_def paid_def attach_def deposit_def del: spec_step.simps)

definition desc :: "io_group \<Rightarrow> u32 \<times> u32" where
  "desc g = (ik_pid (ig_key g), ik_fd (ig_key g))"

definition found :: "env \<Rightarrow> io_group \<Rightarrow> app_view \<Rightarrow> path_resolution" where
  "found e g v = outcome e (fst (desc g)) (snd (desc g)) v"

lemma group_step_fields:
  "vw_fds (group_step ex e g v) = (vw_fds v)(desc g := path_of (found e g v))"
  "vw_roots (group_step ex e g v) = vw_roots v" "vw_names (group_step ex e g v) = vw_names v"
  "vw_fresh (group_step ex e g v) = vw_fresh v" "vw_failed (group_step ex e g v) = vw_failed v"
  "vw_zero (group_step ex e g v) = vw_zero v"
  "vw_tree (group_step ex e g v) = (case paid ex e g v of Some q \<Rightarrow>
     spec_step (RecordStats q (fst (desc g)) (io_group_stats g)) (vw_tree v) | None \<Rightarrow> vw_tree v)"
  "vw_procs (group_step ex e g v) = (case paid ex e g v of Some q \<Rightarrow>
     add_process e (fst (desc g)) (vw_names v (fst (desc g))) (io_group_stats g) (vw_procs v) | None \<Rightarrow> vw_procs v)"
  "vw_attribution (group_step ex e g v) = sat_add (vw_attribution v) (misses e (fst (desc g)) (snd (desc g)) v)"
  "vw_ignored (group_step ex e g v) = sat_add (vw_ignored v) (if found e g v = Ignored then ig_operations g else 0)"
  unfolding group_step_flat by (simp_all only: Let_def desc_def found_def fst_conv snd_conv) simp_all

lemma app_view_eqI:
  assumes "vw_fds a = vw_fds b" "vw_roots a = vw_roots b" "vw_names a = vw_names b" "vw_fresh a = vw_fresh b"
    "vw_tree a = vw_tree b" "vw_procs a = vw_procs b" "vw_attribution a = vw_attribution b"
    "vw_ignored a = vw_ignored b" "vw_failed a = vw_failed b" "vw_zero a = vw_zero b"
  shows "a = (b :: app_view)"
  using assms by (cases a; cases b) simp

lemma outcome_cong: "vw_fds v (pid, fd) = vw_fds w (pid, fd) \<Longrightarrow> vw_roots v pid = vw_roots w pid \<Longrightarrow>
    outcome e pid fd v = outcome e pid fd w"
  by (simp add: outcome_def cong: option.case_cong)

lemma outcome_after_other: "(pid, fd) \<noteq> desc g \<Longrightarrow> outcome e pid fd (group_step ex e g v) = outcome e pid fd v"
  by (rule outcome_cong) (simp_all add: group_step_fields)

lemma outcome_after_same:
  assumes "(pid, fd) = desc g"
  shows "outcome e pid fd (group_step ex e g v) =
    (case path_of (outcome e pid fd v) of Some p \<Rightarrow> Resolved p | None \<Rightarrow> Ignored)"
proof -
  have f: "found e g v = outcome e pid fd v" "desc g = (pid, fd)" using assms [symmetric] by (simp_all add: found_def)
  show ?thesis
  proof (cases "outcome e pid fd v")
    case Ignored
    then have "existing e pid fd (vw_roots v pid) = Ignored" by (simp add: outcome_def split: option.splits)
    with Ignored f show ?thesis by (simp add: outcome_def group_step_fields)
  qed (simp_all add: outcome_def group_step_fields f)
qed

lemma outcome_after:
  "path_of (outcome e pid fd (group_step ex e g v)) = path_of (outcome e pid fd v)"
  "outcome e pid fd (group_step ex e g v) = Ignored \<longleftrightarrow> outcome e pid fd v = Ignored"
  using outcome_after_other [of pid fd g e ex v] outcome_after_same [of pid fd g e ex v]
  by (cases "(pid, fd) = desc g"; cases "outcome e pid fd v"; simp)+

lemma found_after: "path_of (found e h (group_step ex e g v)) = path_of (found e h v)"
  "found e h (group_step ex e g v) = Ignored \<longleftrightarrow> found e h v = Ignored"
  by (simp_all add: found_def outcome_after)

lemma paid_after: "paid ex e h (group_step ex e g v) = paid ex e h v"
  by (simp only: paid_def outcome_after group_step_fields)

lemma misses_after:
  "misses e pid fd (group_step ex e g v) = (if (pid, fd) = desc g then 0 else misses e pid fd v)"
  using outcome_after_other [of pid fd g e ex v] outcome_after_same [of pid fd g e ex v]
  by (cases "(pid, fd) = desc g") (auto simp: misses_def split: option.splits)

lemma group_step_commute: "group_step ex e h (group_step ex e g v) = group_step ex e g (group_step ex e h v)"
proof (rule app_view_eqI)
  show "vw_fds (group_step ex e h (group_step ex e g v)) = vw_fds (group_step ex e g (group_step ex e h v))"
  proof (cases "desc g = desc h")
    case True
    then have "found e g v = found e h v" by (simp add: found_def)
    with True show ?thesis by (simp add: group_step_fields found_after)
  qed (simp add: group_step_fields found_after fun_upd_twist)
  show "vw_tree (group_step ex e h (group_step ex e g v)) = vw_tree (group_step ex e g (group_step ex e h v))"
    by (simp add: group_step_fields(7) paid_after record_stats_commute del: spec_step.simps split: option.split)
  show "vw_procs (group_step ex e h (group_step ex e g v)) = vw_procs (group_step ex e g (group_step ex e h v))"
    by (simp add: group_step_fields(3,8) paid_after split: option.split) (intro allI impI add_process_commute; simp)
  show "vw_attribution (group_step ex e h (group_step ex e g v)) = vw_attribution (group_step ex e g (group_step ex e h v))"
    by (simp add: group_step_fields(9) misses_after sat_add_assoc sat_add_commute)
  show "vw_ignored (group_step ex e h (group_step ex e g v)) = vw_ignored (group_step ex e g (group_step ex e h v))"
    by (simp add: group_step_fields(10) found_after sat_add_assoc sat_add_commute)
qed (simp_all add: group_step_fields)

lemma group_steps_mset: "mset gs = mset hs \<Longrightarrow> fold (group_step ex e) gs v = fold (group_step ex e) hs v"
  using fold_multiset_equiv [of gs "group_step ex e" hs] by (simp add: group_step_commute fun_eq_iff)

subsection \<open>Merging\<close>

lemma group_stats_merge:
  "ig_key h = ig_key g \<Longrightarrow> ig_bytes h = b \<Longrightarrow> ig_operations h = 1 \<Longrightarrow> ig_total_latency_ns h = l \<Longrightarrow> ig_max_latency_ns h = l \<Longrightarrow>
   io_group_stats (io_group_record b l g) = io_group_stats g + io_group_stats h"
  by (cases "ik_op (ig_key g)")
    (simp_all add: io_group_stats_def io_group_record_def plus_node_stats_ext_def default_stats_def plus_unit_def)

lemma group_step_merge:
  "group_step ex e (io_group_record b l g) v = group_step ex e (new_io_group (ig_key g) b l t) (group_step ex e g v)"
proof -
  let ?h = "new_io_group (ig_key g) b l t" and ?g = "io_group_record b l g"
  have same: "desc ?g = desc g" "desc ?h = desc g" "ig_operations ?h = 1" "ig_operations ?g = sat_add (ig_operations g) 1"
    by (simp_all add: desc_def io_group_record_def new_io_group_def)
  then have found: "found e ?g v = found e g v" "found e ?h v = found e g v" by (simp_all add: found_def)
  have paid: "paid ex e ?g v = paid ex e g v" "paid ex e ?h v = paid ex e g v"
    by (simp_all add: paid_def io_group_record_def new_io_group_def split: option.split)
  have st: "io_group_stats ?g = io_group_stats g + io_group_stats ?h"
    by (rule group_stats_merge) (simp_all add: new_io_group_def)
  show ?thesis
  proof (rule app_view_eqI)
    show "vw_tree (group_step ex e ?g v) = vw_tree (group_step ex e ?h (group_step ex e g v))"
      by (simp add: group_step_fields(7) same paid paid_after st record_stats_merge del: spec_step.simps split: option.split)
    show "vw_procs (group_step ex e ?g v) = vw_procs (group_step ex e ?h (group_step ex e g v))"
      by (simp add: group_step_fields(3,8) same paid paid_after st add_process_merge split: option.split)
    show "vw_ignored (group_step ex e ?g v) = vw_ignored (group_step ex e ?h (group_step ex e g v))"
      by (simp add: group_step_fields(10) same found found_after sat_add_assoc)
    show "vw_attribution (group_step ex e ?g v) = vw_attribution (group_step ex e ?h (group_step ex e g v))"
      by (simp add: group_step_fields(9) same misses_after)
    show "vw_fds (group_step ex e ?g v) = vw_fds (group_step ex e ?h (group_step ex e g v))"
      by (simp add: group_step_fields(1) same found found_after)
  qed (simp_all add: group_step_fields)
qed

subsection \<open>Lifecycle events commute with the groups they do not concern\<close>

lemma group_step_local:
  assumes "vw_fds w (desc g) = vw_fds v (desc g)" and "vw_roots w (fst (desc g)) = vw_roots v (fst (desc g))"
    and "vw_names w (fst (desc g)) = vw_names v (fst (desc g))"
  shows "found e g w = found e g v" "paid ex e g w = paid ex e g v"
    "misses e (fst (desc g)) (snd (desc g)) w = misses e (fst (desc g)) (snd (desc g)) v"
proof -
  have o: "outcome e (fst (desc g)) (snd (desc g)) w = outcome e (fst (desc g)) (snd (desc g)) v"
    by (rule outcome_cong) (use assms in simp_all)
  then show "found e g w = found e g v" "misses e (fst (desc g)) (snd (desc g)) w = misses e (fst (desc g)) (snd (desc g)) v"
    by (simp_all add: found_def misses_def)
  show "paid ex e g w = paid ex e g v"
    using o assms(3) by (simp add: paid_def desc_def split: option.split)
qed

lemma deposit_commute: "deposit ex e pid p d (group_step ex e g v) = group_step ex e g (deposit ex e pid p d v)"
proof (cases "is_excluded ex p")
  case False
  have l: "found e g (deposit ex e pid p d v) = found e g v" "paid ex e g (deposit ex e pid p d v) = paid ex e g v"
    "misses e (fst (desc g)) (snd (desc g)) (deposit ex e pid p d v) = misses e (fst (desc g)) (snd (desc g)) v"
    by (rule group_step_local; simp)+
  have tree: "vw_tree (deposit ex e pid p d w) = spec_step (RecordStats (decorated (vw_names w pid) p) pid d) (vw_tree w)"
    "vw_procs (deposit ex e pid p d w) = add_process e pid (vw_names w pid) d (vw_procs w)" for w
    using False by (simp_all add: deposit_def del: spec_step.simps)
  show ?thesis
  proof (rule app_view_eqI)
    show "vw_tree (deposit ex e pid p d (group_step ex e g v)) = vw_tree (group_step ex e g (deposit ex e pid p d v))"
      by (simp add: group_step_fields(3,7) tree l record_stats_commute del: spec_step.simps split: option.split)
    show "vw_procs (deposit ex e pid p d (group_step ex e g v)) = vw_procs (group_step ex e g (deposit ex e pid p d v))"
      by (simp add: group_step_fields(3,8) tree l split: option.split) (intro allI impI add_process_commute; simp)
  qed (simp_all add: group_step_fields l)
qed (simp add: deposit_def)

text \<open>Updates of the descriptor table away from the group's descriptor.\<close>

definition set_fds :: "(u32 \<times> u32 \<Rightarrow> string option option) \<Rightarrow> app_view \<Rightarrow> app_view" where
  "set_fds u v = v\<lparr>vw_fds := (\<lambda>k. case u k of None \<Rightarrow> vw_fds v k | Some x \<Rightarrow> x)\<rparr>"

lemma set_fds_commute:
  assumes "u (desc g) = None"
  shows "set_fds u (group_step ex e g v) = group_step ex e g (set_fds u v)"
proof -
  have l: "found e g (set_fds u v) = found e g v" "paid ex e g (set_fds u v) = paid ex e g v"
    "misses e (fst (desc g)) (snd (desc g)) (set_fds u v) = misses e (fst (desc g)) (snd (desc g)) v"
    by (rule group_step_local; simp add: set_fds_def assms)+
  have f: "vw_fds (set_fds u w) = (\<lambda>k. case u k of None \<Rightarrow> vw_fds w k | Some x \<Rightarrow> x)" for w
    by (simp add: set_fds_def)
  have fr: "vw_roots (set_fds u w) = vw_roots w" "vw_names (set_fds u w) = vw_names w" "vw_fresh (set_fds u w) = vw_fresh w"
    "vw_tree (set_fds u w) = vw_tree w" "vw_procs (set_fds u w) = vw_procs w" "vw_attribution (set_fds u w) = vw_attribution w"
    "vw_ignored (set_fds u w) = vw_ignored w" "vw_failed (set_fds u w) = vw_failed w" "vw_zero (set_fds u w) = vw_zero w" for w
    by (simp_all add: set_fds_def)
  show ?thesis
    by (rule app_view_eqI) (use assms in \<open>auto simp: group_step_fields l f fr fun_eq_iff split: option.split\<close>)
qed

lemma counter_commute:
  "(group_step ex e g v)\<lparr>vw_attribution := sat_add (vw_attribution (group_step ex e g v)) 1\<rparr> =
     group_step ex e g (v\<lparr>vw_attribution := sat_add (vw_attribution v) 1\<rparr>)"
  "(group_step ex e g v)\<lparr>vw_ignored := sat_add (vw_ignored (group_step ex e g v)) 1\<rparr> =
     group_step ex e g (v\<lparr>vw_ignored := sat_add (vw_ignored v) 1\<rparr>)"
proof -
  have l: "found e g (v\<lparr>vw_attribution := x\<rparr>) = found e g v" "paid ex e g (v\<lparr>vw_attribution := x\<rparr>) = paid ex e g v"
    "misses e (fst (desc g)) (snd (desc g)) (v\<lparr>vw_attribution := x\<rparr>) = misses e (fst (desc g)) (snd (desc g)) v"
    "found e g (v\<lparr>vw_ignored := x\<rparr>) = found e g v" "paid ex e g (v\<lparr>vw_ignored := x\<rparr>) = paid ex e g v"
    "misses e (fst (desc g)) (snd (desc g)) (v\<lparr>vw_ignored := x\<rparr>) = misses e (fst (desc g)) (snd (desc g)) v" for x
    by (rule group_step_local; simp)+
  have c: "sat_add (sat_add a b) 1 = sat_add (sat_add a 1) b" for a b :: u64
    by (simp only: sat_add_assoc sat_add_commute [of b])
  show "(group_step ex e g v)\<lparr>vw_attribution := sat_add (vw_attribution (group_step ex e g v)) 1\<rparr> =
     group_step ex e g (v\<lparr>vw_attribution := sat_add (vw_attribution v) 1\<rparr>)"
    by (rule app_view_eqI) (simp_all add: group_step_fields l c cong: option.case_cong)
  show "(group_step ex e g v)\<lparr>vw_ignored := sat_add (vw_ignored (group_step ex e g v)) 1\<rparr> =
     group_step ex e g (v\<lparr>vw_ignored := sat_add (vw_ignored v) 1\<rparr>)"
    by (rule app_view_eqI) (simp_all add: group_step_fields l c cong: option.case_cong)
qed

lemma remove_record_commute:
  "pid \<noteq> p' \<Longrightarrow> spec_step (RemoveProcess pid) (spec_step (RecordStats q p' d) v) =
     spec_step (RecordStats q p' d) (spec_step (RemoveProcess pid) v)"
  by (auto simp: Let_def fun_eq_iff)

lemma forget_commute:
  assumes "pid \<noteq> fst (desc g)"
  shows "forget_pid e pid (group_step ex e g v) = group_step ex e g (forget_pid e pid v)"
proof -
  have l: "found e g (forget_pid e pid v) = found e g v" "paid ex e g (forget_pid e pid v) = paid ex e g v"
    "misses e (fst (desc g)) (snd (desc g)) (forget_pid e pid v) = misses e (fst (desc g)) (snd (desc g)) v"
    by (rule group_step_local; use assms in \<open>simp add: forget_pid_def case_prod_beta\<close>)+
  have f: "vw_fds (forget_pid e pid w) = (\<lambda>(p, f). if p = pid then None else vw_fds w (p, f))"
    "vw_roots (forget_pid e pid w) = (vw_roots w)(pid := fresh_root e pid)"
    "vw_names (forget_pid e pid w) = (vw_names w)(pid := vw_fresh w pid)" "vw_fresh (forget_pid e pid w) = vw_fresh w"
    "vw_procs (forget_pid e pid w) = (vw_procs w)(pid := None)"
    "vw_tree (forget_pid e pid w) = spec_step (RemoveProcess pid) (vw_tree w)"
    "vw_attribution (forget_pid e pid w) = vw_attribution w" "vw_ignored (forget_pid e pid w) = vw_ignored w"
    "vw_failed (forget_pid e pid w) = vw_failed w" "vw_zero (forget_pid e pid w) = vw_zero w" for w
    by (simp_all add: forget_pid_def)
  have pr: "(add_process e p' c d m)(pid := None) = add_process e p' c d (m(pid := None))" if "p' \<noteq> pid" for p' c d m
    using that by (auto simp: add_process_def fun_eq_iff)
  show ?thesis
  proof (rule app_view_eqI)
    show "vw_fds (forget_pid e pid (group_step ex e g v)) = vw_fds (group_step ex e g (forget_pid e pid v))"
      using assms by (cases "desc g") (auto simp: group_step_fields l f fun_eq_iff)
    show "vw_tree (forget_pid e pid (group_step ex e g v)) = vw_tree (group_step ex e g (forget_pid e pid v))"
      using assms by (simp add: group_step_fields(7) l f remove_record_commute del: spec_step.simps split: option.split)
    show "vw_procs (forget_pid e pid (group_step ex e g v)) = vw_procs (group_step ex e g (forget_pid e pid v))"
      using assms by (auto simp: group_step_fields(3,8) l f pr split: option.split)
  qed (simp_all add: group_step_fields l f)
qed

text \<open>The descriptors an event concerns: those whose groups it must flush first.\<close>

fun concerns :: "bpf_event \<Rightarrow> u32 \<times> u32 \<Rightarrow> bool" where
  "concerns (OpenEv pid tid fd dirfd path flags t) k = (k = (pid, fd))"
| "concerns (CloseEv pid tid fd t) k = (k = (pid, fd))"
| "concerns (DupEv pid tid old new t) k = (k = (pid, old) \<or> k = (pid, new))"
| "concerns (CloseRangeEv pid tid a b flags t) k =
     (flags AND CLOSE_RANGE_CLOEXEC = 0 \<and> fst k = pid \<and> a \<le> snd k \<and> snd k \<le> b)"
| "concerns (ProcessExecEv pid t) k = (fst k = pid)"
| "concerns (ProcessExitEv pid t) k = (fst k = pid)"
| "concerns _ k = False"

lemma put_fds: "v\<lparr>vw_fds := (vw_fds v)(k := x)\<rparr> = set_fds [k \<mapsto> x] v"
  by (auto simp: set_fds_def fun_eq_iff)

lemma drop_fds: "v\<lparr>vw_fds := (\<lambda>(p, f). if D p f then None else vw_fds v (p, f))\<rparr> =
    set_fds (\<lambda>(p, f). if D p f then Some None else None) v"
  by (auto simp: set_fds_def fun_eq_iff)

lemma keep_open_commute:
  "desc g \<noteq> (pid, fd) \<Longrightarrow> keep_open ex e pid fd p (group_step ex e g v) = group_step ex e g (keep_open ex e pid fd p v)"
  by (simp add: keep_open_def put_fds set_fds_commute deposit_commute del: for_operations.simps)

lemma attach_commute:
  assumes "desc g \<noteq> (pid, fd)"
  shows "attach e pid fd (group_step ex e g v) = group_step ex e g (attach e pid fd v)"
proof -
  have o: "outcome e pid fd (group_step ex e g v) = outcome e pid fd v"
    using assms by (intro outcome_after_other) simp
  show ?thesis
  proof (cases "outcome e pid fd v")
    case (Unresolved p)
    have u: "attach e pid fd w = (set_fds [(pid, fd) \<mapsto> Some p] w)\<lparr>vw_attribution :=
        sat_add (vw_attribution (set_fds [(pid, fd) \<mapsto> Some p] w)) 1\<rparr>" if "outcome e pid fd w = Unresolved p" for w
      using that by (simp add: attach_def put_fds [symmetric])
    have "set_fds [(pid, fd) \<mapsto> Some p] (group_step ex e g v) = group_step ex e g (set_fds [(pid, fd) \<mapsto> Some p] v)"
      using assms by (simp add: set_fds_commute)
    then show ?thesis
      by (simp only: u [OF Unresolved] u [OF o [unfolded Unresolved]] counter_commute)
  qed (use assms in \<open>simp_all add: attach_def o put_fds set_fds_commute\<close>)
qed

lemma dup_commute:
  assumes "desc g \<noteq> (pid, old)" and "desc g \<noteq> (pid, new)"
  shows "dup_step e pid old new (group_step ex e g v) = group_step ex e g (dup_step e pid old new v)"
proof -
  have o: "outcome e pid old (group_step ex e g v) = outcome e pid old v"
    using assms by (intro outcome_after_other) simp
  show ?thesis
  proof (cases "old = new")
    case False
    then show ?thesis
      using assms by (cases "outcome e pid old v")
        (simp_all add: dup_step_def o Let_def put_fds set_fds_commute attach_commute counter_commute)
  next
    case True
    with assms o show ?thesis
      by (cases "outcome e pid new v")
        (simp_all add: dup_step_def Let_def put_fds set_fds_commute attach_commute counter_commute)
  qed
qed

lemma lifecycle_commute:
  assumes "\<not> concerns ev (desc g)"
  shows "lifecycle_step ex e ev (group_step ex e g v) = group_step ex e g (lifecycle_step ex e ev v)"
proof (cases ev)
  case (OpenEv pid tid fd dirfd path flags t)
  then have d: "desc g \<noteq> (pid, fd)" using assms by auto
  show ?thesis
    unfolding OpenEv lifecycle_step.simps group_step_fields(2)
    by (simp add: counter_commute keep_open_commute [OF d] split: path_resolution.split)
next
  case (CloseEv pid tid fd t)
  then have d: "desc g \<noteq> (pid, fd)" using assms by auto
  then have "vw_fds (group_step ex e g v) (pid, fd) = vw_fds v (pid, fd)" by (simp add: group_step_fields)
  then show ?thesis
    unfolding CloseEv using d
    by (cases "vw_fds v (pid, fd)") (simp_all add: put_fds set_fds_commute deposit_commute del: for_operations.simps)
next
  case (DupEv pid tid old new t)
  then show ?thesis using assms dup_commute by simp
next
  case (CloseRangeEv pid tid a b flags t)
  then show ?thesis using assms by (cases "desc g") (auto simp: drop_fds set_fds_commute)
next
  case (ProcessExecEv pid t)
  then show ?thesis using assms forget_commute [of pid g] by simp
next
  case (ProcessExitEv pid t)
  then show ?thesis using assms forget_commute [of pid g] by simp
qed simp_all

subsection \<open>A batch and its events one by one\<close>

definition io_outcome_step :: "i64 \<Rightarrow> app_view \<Rightarrow> app_view" where
  "io_outcome_step result v =
     (if sint result < 0 then v\<lparr>vw_failed := sat_add (vw_failed v) 1\<rparr>
      else if result = 0 then v\<lparr>vw_zero := sat_add (vw_zero v) 1\<rparr> else v)"

lemma view_record_io_outcome: "view e (record_io_outcome r s) = io_outcome_step r (view e s)"
  "as_exclude (record_io_outcome r s) = as_exclude s" "as_tree (record_io_outcome r s) = as_tree s"
  by (simp_all add: record_io_outcome_def io_outcome_step_def view_def)

lemma io_outcome_commute: "io_outcome_step r (group_step ex e g v) = group_step ex e g (io_outcome_step r v)"
proof -
  have f: "vw_fds (io_outcome_step r w) = vw_fds w" "vw_roots (io_outcome_step r w) = vw_roots w"
    "vw_names (io_outcome_step r w) = vw_names w" "vw_fresh (io_outcome_step r w) = vw_fresh w"
    "vw_tree (io_outcome_step r w) = vw_tree w" "vw_procs (io_outcome_step r w) = vw_procs w"
    "vw_attribution (io_outcome_step r w) = vw_attribution w" "vw_ignored (io_outcome_step r w) = vw_ignored w"
    "vw_failed (io_outcome_step r w) = (if sint r < 0 then sat_add (vw_failed w) 1 else vw_failed w)"
    "vw_zero (io_outcome_step r w) = (if \<not> sint r < 0 \<and> r = 0 then sat_add (vw_zero w) 1 else vw_zero w)" for w
    by (simp_all add: io_outcome_step_def)
  have l: "found e g (io_outcome_step r v) = found e g v" "paid ex e g (io_outcome_step r v) = paid ex e g v"
    "misses e (fst (desc g)) (snd (desc g)) (io_outcome_step r v) = misses e (fst (desc g)) (snd (desc g)) v"
    by (rule group_step_local; simp add: f)+
  show ?thesis
    by (rule app_view_eqI) (simp_all add: group_step_fields l f cong: option.case_cong)
qed

lemma fold_commute:
  "(\<And>g w. g \<in> set gs \<Longrightarrow> F (group_step ex e g w) = group_step ex e g (F w)) \<Longrightarrow>
   fold (group_step ex e) gs (F v) = F (fold (group_step ex e) gs v)"
proof (induction gs arbitrary: v)
  case (Cons g gs)
  have "fold (group_step ex e) (g # gs) (F v) = fold (group_step ex e) gs (F (group_step ex e g v))"
    using Cons.prems by simp
  also have "\<dots> = F (fold (group_step ex e) (g # gs) v)"
    using Cons.IH [of "group_step ex e g v"] Cons.prems by simp
  finally show ?case .
qed simp

text \<open>What one event does to a state with nothing pending.\<close>

fun event_view :: "string list \<Rightarrow> env \<Rightarrow> int \<Rightarrow> bpf_event \<Rightarrow> app_view \<Rightarrow> app_view" where
  "event_view ex e now (ReadEv pid tid fd b r l t) v =
     (if sint r > 0 then group_step ex e (new_io_group \<lparr>ik_pid = pid, ik_fd = fd, ik_op = Read\<rparr> b l now) (io_outcome_step r v)
      else io_outcome_step r v)"
| "event_view ex e now (WriteEv pid tid fd b r l t) v =
     (if sint r > 0 then group_step ex e (new_io_group \<lparr>ik_pid = pid, ik_fd = fd, ik_op = Write\<rparr> b l now) (io_outcome_step r v)
      else io_outcome_step r v)"
| "event_view ex e now ev v = lifecycle_step ex e ev v"

lemma event_view_lifecycle: "\<not> is_io ev \<Longrightarrow> event_view ex e now ev v = lifecycle_step ex e ev v"
  by (cases ev) simp_all

text \<open>The pending groups of a run: they carry reads and writes only.\<close>

definition pending_io :: "pending \<Rightarrow> bool" where
  "pending_io p \<longleftrightarrow> pending_ok p \<and> (\<forall>g \<in> set (active p). ik_op (ig_key g) \<in> {Read, Write})"

lemma pending_io_nonzero: "pending_io p \<Longrightarrow> \<forall>g \<in> set (active p). ig_operations g \<noteq> 0"
  using active_key by (cases p) (auto simp: pending_io_def)

lemma accumulate_view:
  assumes "pending_io p" and "op \<in> {Read, Write}"
  shows "\<exists>p'. accumulate_io_group \<lparr>ik_pid = pid, ik_fd = fd, ik_op = op\<rparr> b l now p = Some p' \<and> pending_io p' \<and>
    fold (group_step ex e) (active p') v =
      group_step ex e (new_io_group \<lparr>ik_pid = pid, ik_fd = fd, ik_op = op\<rparr> b l now) (fold (group_step ex e) (active p) v)"
proof -
  let ?k = "\<lparr>ik_pid = pid, ik_fd = fd, ik_op = op\<rparr>"
  have ok: "pending_ok p" using assms(1) by (simp add: pending_io_def)
  show ?thesis
  proof (cases "map_of (snd p) ?k")
    case None
    from accumulate_miss [OF ok None, of b l now] obtain p' where
      p': "accumulate_io_group ?k b l now p = Some p'" "pending_ok p'" "active p' = active p @ [new_io_group ?k b l now]"
      by blast
    then have "pending_io p'" using assms by (auto simp: pending_io_def new_io_group_def)
    with p' show ?thesis by simp
  next
    case (Some i)
    from accumulate_hit [OF ok Some, of b l now] obtain p' g M where
      p': "accumulate_io_group ?k b l now p = Some p'" "pending_ok p'" and g: "ig_key g = ?k"
      "mset (active p) = add_mset g M" "mset (active p') = add_mset (io_group_record b l g) M"
      by blast
    obtain ms where ms: "mset ms = M" using ex_mset by blast
    have "fold (group_step ex e) (active p') v = group_step ex e (io_group_record b l g) (fold (group_step ex e) ms v)"
      using group_steps_mset [of "active p'" "ms @ [io_group_record b l g]" ex e v] g ms by simp
    also have "\<dots> = group_step ex e (new_io_group ?k b l now) (group_step ex e g (fold (group_step ex e) ms v))"
      using group_step_merge [of ex e b l g _ now] g(1) by simp
    also have "group_step ex e g (fold (group_step ex e) ms v) = fold (group_step ex e) (active p) v"
      using group_steps_mset [of "active p" "ms @ [g]" ex e v] g ms by simp
    finally have "fold (group_step ex e) (active p') v =
      group_step ex e (new_io_group ?k b l now) (fold (group_step ex e) (active p) v)" .
    moreover have "ig_key (io_group_record b l g) = ig_key g" by (simp add: io_group_record_def)
    have "ik_op (ig_key h) \<in> {Read, Write}" if "h \<in> set (active p')" for h
    proof -
      have sets: "set (active p') = insert (io_group_record b l g) (set_mset M)" "set (active p) = insert g (set_mset M)"
        using g(2,3) by (metis set_mset_add_mset_insert set_mset_mset)+
      from that sets(1) consider "h = io_group_record b l g" | "h \<in># M" by blast
      then show ?thesis
      proof cases
        case 1
        with \<open>ig_key (io_group_record b l g) = ig_key g\<close> g(1) assms(2) show ?thesis by simp
      next
        case 2
        with sets(2) have "h \<in> set (active p)" by simp
        with assms(1) show ?thesis by (simp add: pending_io_def)
      qed
    qed
    ultimately show ?thesis using p' by (auto simp: pending_io_def)
  qed
qed

lemma ingest_io_view:
  assumes "pending_io p" and "op \<in> {Read, Write}"
  shows "\<exists>p' s'. ingest_io op pid fd b r l now (p, s) = Some (p', s') \<and> pending_io p' \<and>
    as_exclude s' = as_exclude s \<and> as_tree s' = as_tree s \<and>
    fold (group_step ex e) (active p') (view e s') =
      (let w = io_outcome_step r (fold (group_step ex e) (active p) (view e s))
       in if sint r > 0 then group_step ex e (new_io_group \<lparr>ik_pid = pid, ik_fd = fd, ik_op = op\<rparr> b l now) w else w)"
proof -
  let ?s = "record_io_outcome r s"
  have w: "fold (group_step ex e) (active p) (view e ?s) = io_outcome_step r (fold (group_step ex e) (active p) (view e s))"
    by (simp add: view_record_io_outcome fold_commute io_outcome_commute)
  show ?thesis
  proof (cases "sint r > 0")
    case True
    from accumulate_view [OF assms, of pid fd b l now ex e "view e ?s"] obtain p' where
      "accumulate_io_group \<lparr>ik_pid = pid, ik_fd = fd, ik_op = op\<rparr> b l now p = Some p'" "pending_io p'"
      "fold (group_step ex e) (active p') (view e ?s) = group_step ex e
        (new_io_group \<lparr>ik_pid = pid, ik_fd = fd, ik_op = op\<rparr> b l now) (fold (group_step ex e) (active p) (view e ?s))"
      by blast
    with True w show ?thesis
      by (intro exI [of _ p'] exI [of _ ?s]) (simp add: ingest_io_def Let_def view_record_io_outcome)
  next
    case False
    with w assms(1) show ?thesis
      by (intro exI [of _ p] exI [of _ ?s]) (simp add: ingest_io_def Let_def view_record_io_outcome)
  qed
qed

lemma not_concerned:
  assumes "barrier_keys order keys ev = Some ks" and "mset (order keys) = mset keys"
    and "ig_key g \<notin> set ks" and "ig_key g \<in> set keys" and "ik_op (ig_key g) \<in> {Read, Write}"
  shows "\<not> concerns ev (desc g)"
proof -
  have keys: "set (order keys) = set keys" using assms(2) by (metis set_mset_mset)
  have fd: "ig_key g \<in> set (fd_keys pid fd)" if "desc g = (pid, fd)" for pid fd
    using that assms(5) by (cases "ig_key g") (auto simp: fd_keys_def desc_def)
  show ?thesis
    using assms(1,3,4) keys fd by (cases ev) (auto simp: desc_def split: if_splits)
qed

lemma ingest_event_view:
  assumes "pending_io p" and "mset (order (map fst (snd p))) = mset (map fst (snd p))" and "tree_ok (as_tree s)"
  shows "\<exists>p' s'. ingest_event e order now ev (p, s) = Some (p', s') \<and> pending_io p' \<and>
    as_exclude s' = as_exclude s \<and> tree_ok (as_tree s') \<and>
    fold (group_step (as_exclude s) e) (active p') (view e s') =
      event_view (as_exclude s) e now ev (fold (group_step (as_exclude s) e) (active p) (view e s))"
proof (cases "is_io ev")
  case True
  have io: "\<exists>p' s'. ingest_io op pid fd b r l now (p, s) = Some (p', s') \<and> pending_io p' \<and>
      as_exclude s' = as_exclude s \<and> tree_ok (as_tree s') \<and>
      fold (group_step (as_exclude s) e) (active p') (view e s') =
      (let w = io_outcome_step r (fold (group_step (as_exclude s) e) (active p) (view e s))
       in if sint r > 0 then group_step (as_exclude s) e (new_io_group \<lparr>ik_pid = pid, ik_fd = fd, ik_op = op\<rparr> b l now) w else w)"
    if "op \<in> {Read, Write}" for op pid fd b r l
    using ingest_io_view [OF assms(1) that, of pid fd b r l now s "as_exclude s" e] assms(3) by metis
  show ?thesis
  proof (cases ev)
    case (ReadEv pid tid fd b r l t)
    show ?thesis
      using io [of Read pid fd b r l] unfolding ReadEv ingest_event.simps event_view.simps Let_def by blast
  next
    case (WriteEv pid tid fd b r l t)
    show ?thesis
      using io [of Write pid fd b r l] unfolding WriteEv ingest_event.simps event_view.simps Let_def by blast
  qed (use True in simp_all)
next
  case False
  let ?X = "as_exclude s" and ?keys = "map fst (snd p)"
  have ok: "pending_ok p" using assms(1) by (simp add: pending_io_def)
  obtain ks where ks: "barrier_keys order ?keys ev = Some ks" using lifecycle_total(1) [OF False] by blast
  obtain p' out where f: "flush_keys e ks (p, s) = Some (p', fold (record_io_group e) out s)" "pending_ok p'"
    "mset (active p) = mset (active p') + mset out" "\<forall>g \<in> set out. ig_key g \<in> set ks \<and> ig_operations g \<noteq> 0"
    "map_of (snd p') = map_of (snd p) |` (- set ks)"
    using flush_keys_spec [OF ok, of e ks s] by blast
  let ?s1 = "fold (record_io_group e) out s"
  obtain s' where s': "ingest_lifecycle e ev ?s1 = Some s'" using lifecycle_total(2) [OF False] by blast
  have s1: "view e ?s1 = fold (group_step ?X e) out (view e s)" "as_exclude ?s1 = ?X" "tree_ok (as_tree ?s1)"
    using exclude_groups [of out e s] f(4) tree_ok_groups [OF assms(3)] by simp_all
  have v': "view e s' = lifecycle_step ?X e ev (view e ?s1)" "as_exclude s' = ?X" "tree_ok (as_tree s')"
    using view_lifecycle [OF s' s1(3)] tree_ok_lifecycle [OF s' s1(3)] s1(2) by simp_all
  have sub: "g \<in> set (active p)" if "g \<in> set (active p')" for g
    using that f(3) by (metis UnCI set_mset_mset set_mset_union)
  have nc: "\<not> concerns ev (desc g)" if g: "g \<in> set (active p')" for g
  proof (rule not_concerned [OF ks assms(2)])
    show "ig_key g \<notin> set ks" using active_after [OF f(2,5) g] .
    show "ik_op (ig_key g) \<in> {Read, Write}" using assms(1) sub [OF g] by (simp add: pending_io_def)
    obtain i where "map_of (snd p) (ig_key g) = Some i"
      using active_key [of "fst p" "snd p" g] ok sub [OF g] by auto
    then have "(ig_key g, i) \<in> set (snd p)" by (rule map_of_SomeD)
    then show "ig_key g \<in> set ?keys" by force
  qed
  have "fold (group_step ?X e) (active p') (view e s') =
      lifecycle_step ?X e ev (fold (group_step ?X e) (active p') (view e ?s1))"
    unfolding v'(1) by (rule fold_commute) (rule lifecycle_commute, rule nc)
  also have "fold (group_step ?X e) (active p') (view e ?s1) = fold (group_step ?X e) (out @ active p') (view e s)"
    by (simp add: s1(1))
  also have "\<dots> = fold (group_step ?X e) (active p) (view e s)"
    by (rule group_steps_mset) (simp add: f(3) union_commute)
  finally have "fold (group_step ?X e) (active p') (view e s') =
      event_view ?X e now ev (fold (group_step ?X e) (active p) (view e s))"
    by (simp add: event_view_lifecycle [OF False])
  moreover have "ingest_event e order now ev (p, s) = Some (p', s')"
    using ks f(1) s' by (simp add: ingest_lifecycle_event [OF False] flush_lifecycle_groups_def)
  moreover have "pending_io p'" using f(2) sub assms(1) by (auto simp: pending_io_def)
  ultimately show ?thesis using v' by blast
qed

lemma ingest_events_view:
  assumes "\<And>ks. mset (order ks) = mset ks"
  shows "pending_io p \<Longrightarrow> tree_ok (as_tree s) \<Longrightarrow>
    \<exists>p' s'. ingest_events e order now evs (p, s) = Some (p', s') \<and> pending_io p' \<and>
      as_exclude s' = as_exclude s \<and> tree_ok (as_tree s') \<and>
      fold (group_step (as_exclude s) e) (active p') (view e s') =
        fold (event_view (as_exclude s) e now) evs (fold (group_step (as_exclude s) e) (active p) (view e s))"
proof (induction evs arbitrary: p s)
  case (Cons ev evs)
  obtain p1 s1 where 1: "ingest_event e order now ev (p, s) = Some (p1, s1)" "pending_io p1"
    "as_exclude s1 = as_exclude s" "tree_ok (as_tree s1)"
    "fold (group_step (as_exclude s) e) (active p1) (view e s1) =
      event_view (as_exclude s) e now ev (fold (group_step (as_exclude s) e) (active p) (view e s))"
    using ingest_event_view [of p order s, OF Cons.prems(1) assms [of "map fst (snd p)"] Cons.prems(2), of e now ev] by blast
  from Cons.IH [OF 1(2,4)] 1 show ?case by (simp only: ingest_events.simps bind.bind_lunit fold_Cons o_apply)
qed auto

text \<open>A batch does to the view what its events do, one after another.\<close>

lemma ingest_view:
  assumes "\<And>ks. mset (order ks) = mset ks" and "tree_ok (as_tree s)"
  shows "\<exists>s'. ingest e order now evs s = Some s' \<and> as_exclude s' = as_exclude s \<and> tree_ok (as_tree s') \<and>
    view e s' = fold (event_view (as_exclude s) e now) evs (view e s)"
proof -
  let ?s = "s\<lparr>as_total_events := sat_add (as_total_events s) (of_nat (length evs))\<rparr>"
  have vs: "view e ?s = view e s" "as_exclude ?s = as_exclude s" "tree_ok (as_tree ?s)" "pending_io ([], [])"
    using assms(2) by (simp_all add: view_def pending_io_def)
  obtain p' s' where i: "ingest_events e order now evs (([], []), ?s) = Some (p', s')" "pending_io p'"
    "as_exclude s' = as_exclude s" "tree_ok (as_tree s')"
    "fold (group_step (as_exclude s) e) (active p') (view e s') = fold (event_view (as_exclude s) e now) evs (view e s)"
    using ingest_events_view [OF assms(1) vs(4,3), of e now evs] vs(1,2) by auto
  have f: "flush_io_groups e p' s' = fold (record_io_group e) (active p') s'" by (simp add: flush_io_groups_def active_def)
  have "view e (flush_io_groups e p' s') = fold (group_step (as_exclude s) e) (active p') (view e s')"
    "as_exclude (flush_io_groups e p' s') = as_exclude s"
    using exclude_groups [OF pending_io_nonzero [OF i(2)], of e s'] i(3) f by simp_all
  moreover have "tree_ok (as_tree (flush_io_groups e p' s'))" unfolding f by (rule tree_ok_groups) (rule i(4))
  ultimately show ?thesis using i by (simp add: ingest_def)
qed

fun ingest_each ::
    "env \<Rightarrow> (io_key list \<Rightarrow> io_key list) \<Rightarrow> int \<Rightarrow> bpf_event list \<Rightarrow> app_state \<Rightarrow> app_state option" where
  "ingest_each e order now [] s = Some s"
| "ingest_each e order now (ev # evs) s = do { s \<leftarrow> ingest e order now [ev] s; ingest_each e order now evs s }"

lemma ingest_each_view:
  assumes "\<And>ks. mset (order ks) = mset ks"
  shows "tree_ok (as_tree s) \<Longrightarrow> \<exists>s'. ingest_each e order now evs s = Some s' \<and> tree_ok (as_tree s') \<and>
    as_exclude s' = as_exclude s \<and> view e s' = fold (event_view (as_exclude s) e now) evs (view e s)"
proof (induction evs arbitrary: s)
  case (Cons ev evs)
  obtain s1 where 1: "ingest e order now [ev] s = Some s1" "as_exclude s1 = as_exclude s" "tree_ok (as_tree s1)"
    "view e s1 = event_view (as_exclude s) e now ev (view e s)"
    using ingest_view [OF assms Cons.prems, of e now "[ev]"] by auto
  from Cons.IH [OF 1(3)] 1 show ?case by auto
qed simp


definition sample_env :: env where
  "sample_env = \<lparr>e_link = (\<lambda>_. Some ''/tmp/file''), e_comm = (\<lambda>_. None), e_cgroup = (\<lambda>_. None)\<rparr>"

definition sample_batch :: "bpf_event list" where
  "sample_batch = [ReadEv 7 7 3 4 4 10 1, CloseEv 8 8 3 2, ReadEv 7 7 3 8 8 20 3, ProcessExitEv 7 4]"


end
