(* ===== verification/App_Safety.thy ===== *)
theory App_Safety
  imports Coalescing
begin

section \<open>Reachable application states\<close>

text \<open>
  Invariants of every state the aggregator reaches: canonical paths, exclusion and loss accounting.
\<close>

subsection \<open>Excluded paths\<close>

text \<open>The operations on the state, and the states they reach.\<close>

inductive reached :: "string list \<Rightarrow> nat \<Rightarrow> app_state \<Rightarrow> bool" for ex window where
  reached_new: "reached ex window (new_app_state window ex)"
| reached_ingest: "reached ex window s \<Longrightarrow> ingest e order now evs s = Some s' \<Longrightarrow>
    (\<And>ks. mset (order ks) = mset ks) \<Longrightarrow> reached ex window s'"
| reached_drops: "reached ex window s \<Longrightarrow> reached ex window (update_drop_total n s)"
| reached_discovery: "reached ex window s \<Longrightarrow>
    reached ex window (s\<lparr>as_containers := replace_discovery d (as_containers s)\<rparr>)"
| reached_reset: "reached ex window s \<Longrightarrow> reached ex window (app_reset s)"

text \<open>Every resolution yields a canonical path, so the descriptor table holds canonical paths only.\<close>

lemma proc_target_canonical:
  "fst (resolve_proc_target rl pid fd c) = Some (Resolved p) \<Longrightarrow> canonical_path p"
  "fst (resolve_proc_target rl pid fd c) \<noteq> Some (Unresolved p)"
  using memory_components canonical_normalized
  by (fastforce simp: resolve_proc_target_def Let_def case_prod_unfold
      split: option.splits pseudo_path.splits if_splits)+

lemma existing_canonical: "path_of (existing e pid fd rt) = Some p \<Longrightarrow> canonical_path p"
proof -
  assume p: "path_of (existing e pid fd rt) = Some p"
  have "''/[unresolved]/pid-'' @ show_word pid @ ''/fd-'' @ show_word fd = unresolved_path pid fd []"
    by (simp add: unresolved_path_def normalize_relative_path_def normal_components_def path_components_def display_path.simps Let_def)
  then have "canonical_path (''/[unresolved]/pid-'' @ show_word pid @ ''/fd-'' @ show_word fd)"
    using canonical_unresolved by metis
  then show ?thesis
    using p proc_target_canonical [of "e_link e" pid fd "rooted pid rt"]
    by (auto simp: existing_def resolve_existing_def Let_def case_prod_unfold split: option.splits)
      (metis path_of.simps path_resolution.exhaust option.distinct(1) option.inject)+
qed

lemma resolve_canonical: "path_of (fst (resolve rl pid fd dirfd raw flags c)) = Some p \<Longrightarrow> canonical_path p"
proof -
  assume p: "path_of (fst (resolve rl pid fd dirfd raw flags c)) = Some p"
  show ?thesis
  proof (cases "flags \<noteq> 0 \<or> classify_pseudo_path raw \<noteq> Ordinary")
    case True
    then show ?thesis
      using p memory_components [of raw] canonical_unresolved
      by (cases "classify_pseudo_path raw") (auto simp: resolve_def split: if_splits)
  next
    case False
    let ?t = "fst (resolve_proc_target rl pid fd c)"
    show ?thesis
    proof (cases "starts_with ''/'' raw")
      case True
      with False p canonical_normalized show ?thesis
        by (auto simp: resolve_def case_prod_unfold Let_def split: if_splits)
    next
      case rel: False
      show ?thesis
      proof (cases "rl (if dirfd = AT_FDCWD then ''/proc/'' @ show_word pid @ ''/cwd'' else proc_fd_link pid (show_signed dirfd))")
        case None
        with False rel p canonical_unresolved show ?thesis by (auto simp: resolve_def)
      next
        case (Some base)
        have "canonical_path q" if "?t = Some (Resolved q)" for q
          using that proc_target_canonical(1) by blast
        with False rel Some p canonical_unresolved show ?thesis
          by (auto simp: resolve_def case_prod_unfold Let_def strip_container_root_twice
              split: option.splits path_resolution.splits if_splits)
      qed
    qed
  qed
qed

text \<open>
  Where the tree may hold statistics: at the decorated form of a canonical path that is not
  excluded. The second component of the invariant is the descriptor table's.
\<close>

definition allowed :: "string list \<Rightarrow> string list \<Rightarrow> bool" where
  "allowed ex q \<longleftrightarrow>
     (\<exists>container path. canonical_path path \<and> \<not> is_excluded ex path \<and> q = path_components (decorated container path))"

definition clean_view :: "string list \<Rightarrow> app_view \<Rightarrow> bool" where
  "clean_view ex v \<longleftrightarrow> (\<forall>k p. vw_fds v k = Some p \<longrightarrow> canonical_path p) \<and>
     (\<forall>q. \<not> allowed ex q \<longrightarrow> view_stats (vw_tree v) q = 0 \<and> view_process (vw_tree v) q = Map.empty)"

lemma clean_deposit: "clean_view ex v \<Longrightarrow> canonical_path p \<Longrightarrow> clean_view ex (deposit ex e pid p d v)"
  by (auto simp: deposit_def clean_view_def allowed_def Let_def)

lemma clean_outcome: "clean_view ex v \<Longrightarrow> path_of (outcome e pid fd v) = Some p \<Longrightarrow> canonical_path p"
  using existing_canonical by (auto simp: clean_view_def outcome_def split: option.splits)

lemma clean_attach:
  assumes "clean_view ex v"
  shows "clean_view ex (attach e pid fd v)"
proof -
  have "canonical_path p" if "outcome e pid fd v = Resolved p \<or> outcome e pid fd v = Unresolved p" for p
    using that clean_outcome [OF assms, of e pid fd p] by auto
  with assms show ?thesis by (auto simp: attach_def clean_view_def split: path_resolution.split)
qed

lemma clean_group: "clean_view ex v \<Longrightarrow> clean_view ex (group_step ex e g v)"
proof -
  assume c: "clean_view ex v"
  have "clean_view ex (v\<lparr>vw_ignored := x\<rparr>)" for x using c by (simp add: clean_view_def)
  with c clean_outcome [OF c] show ?thesis
    by (simp add: group_step_def Let_def clean_deposit clean_attach split: option.split)
qed

lemma clean_keep: "clean_view ex v \<Longrightarrow> canonical_path p \<Longrightarrow> clean_view ex (keep_open ex e pid fd p v)"
  unfolding keep_open_def by (rule clean_deposit) (auto simp: clean_view_def)

lemma clean_set: "clean_view ex v \<Longrightarrow> (\<And>k p. u k = Some (Some p) \<Longrightarrow> canonical_path p) \<Longrightarrow> clean_view ex (set_fds u v)"
  by (fastforce simp: clean_view_def set_fds_def split: option.splits)

lemma clean_dup: "clean_view ex v \<Longrightarrow> clean_view ex (dup_step e pid old new v)"
proof -
  assume c: "clean_view ex v"
  have i: "clean_view ex (v\<lparr>vw_ignored := x\<rparr>)" for x using c by (simp add: clean_view_def)
  show ?thesis
    using clean_attach [OF c, of e pid old] clean_outcome [OF c, of e pid old] i
    by (cases "outcome e pid old v") (auto simp: dup_step_def Let_def clean_view_def split: if_splits)
qed

lemma clean_lifecycle: "clean_view ex v \<Longrightarrow> clean_view ex (lifecycle_step ex e ev v)"
proof -
  assume c: "clean_view ex v"
  have cnt: "clean_view ex (v\<lparr>vw_ignored := x\<rparr>)" "clean_view ex (v\<lparr>vw_attribution := x\<rparr>)" for x
    using c by (simp_all add: clean_view_def)
  have f: "clean_view ex (forget_pid e pid v)" for pid
    using c by (auto simp: forget_pid_def clean_view_def)
  show ?thesis
  proof (cases ev)
    case (OpenEv pid tid fd dirfd path flags t)
    let ?r = "fst (resolve (e_link e) pid fd dirfd path flags (rooted pid (vw_roots v pid)))"
    show ?thesis
      using resolve_canonical [of "e_link e" pid fd dirfd path flags "rooted pid (vw_roots v pid)"] c cnt
      unfolding OpenEv lifecycle_step.simps by (cases ?r) (simp_all add: clean_keep)
  next
    case (CloseEv pid tid fd t)
    have "clean_view ex (case vw_fds v (pid, fd) of None \<Rightarrow> v | Some p \<Rightarrow> deposit ex e pid p (for_operations Close 0 1 0 0) v)"
      using c clean_deposit [OF c] by (auto simp: clean_view_def [of ex v] split: option.split)
    then show ?thesis unfolding CloseEv lifecycle_step.simps Let_def put_fds by (rule clean_set) (simp split: if_splits)
  next
    case (CloseRangeEv pid tid a b flags t)
    then show ?thesis using c by (auto simp: drop_fds intro!: clean_set split: if_splits)
  qed (use c f clean_dup in simp_all)
qed

lemma clean_event: "clean_view ex v \<Longrightarrow> clean_view ex (event_view ex e now ev v)"
proof -
  assume c: "clean_view ex v"
  then have "clean_view ex (io_outcome_step r v)" for r by (simp add: io_outcome_step_def clean_view_def)
  with c show ?thesis by (cases ev) (simp_all add: clean_group clean_lifecycle del: lifecycle_step.simps)
qed

lemma clean_events: "clean_view ex v \<Longrightarrow> clean_view ex (fold (event_view ex e now) evs v)"
  by (induction evs arbitrary: v) (simp_all add: clean_event)

text \<open>The invariant does not mention the environment of the batch.\<close>

lemma clean_env: "clean_view ex (view e s) = clean_view ex (view e' s)"
  by (simp add: clean_view_def view_def)

lemma reached_clean:
  "reached ex window s \<Longrightarrow> as_exclude s = ex \<and> tree_ok (as_tree s) \<and> clean_view ex (view e s)"
proof (induction arbitrary: e rule: reached.induct)
  case reached_new
  then show ?case
    by (simp add: new_app_state_def tree_ok_new clean_view_def view_def new_fd_cache_def abs_new empty_view_def)
next
  case (reached_ingest s e' order now evs s')
  obtain s'' where "ingest e' order now evs s = Some s''" "as_exclude s'' = as_exclude s" "tree_ok (as_tree s'')"
    "view e' s'' = fold (event_view (as_exclude s) e' now) evs (view e' s)"
    using ingest_view [OF reached_ingest.hyps(3), of s e' now evs] reached_ingest.IH by blast
  with reached_ingest.hyps(2) reached_ingest.IH show ?case
    using clean_events clean_env by (metis option.inject)
next
  case (reached_drops s n)
  then show ?case
    by (auto simp: update_drop_total_def Let_def clean_view_def view_def invalidate_all_def)
next
  case (reached_discovery s d)
  then show ?case by (simp add: clean_view_def view_def)
next
  case (reached_reset s)
  then show ?case
    by (simp add: app_reset_def clean_view_def view_def tree_ok_reset abs_reset empty_view_def)
qed

text \<open>(C21) Excluded paths are never tracked: in every state reached from the start by any batches of
  events, loss reports, rediscoveries and resets, under any environments, the tree holds no
  statistics and no process entry at an excluded path. (Paths of a container carry its name in
  brackets in front and are compared without it.)\<close>

theorem excluded_paths_untracked:
  assumes "reached ex window s" and "canonical_path path" and "is_excluded ex path" and "\<not> starts_with ''/['' path"
  shows "stats_at (root (as_tree s)) (path_components path) = 0 \<and>
    process_at (root (as_tree s)) (path_components path) = Map.empty"
proof -
  have "\<not> allowed ex (path_components path)"
  proof
    assume "allowed ex (path_components path)"
    then obtain container p where p: "canonical_path p" "\<not> is_excluded ex p"
      "path_components path = path_components (decorated container p)" by (auto simp: allowed_def)
    show False
    proof (cases container)
      case None
      with p(1,3) assms(2) have "p = path" by (simp add: decorated_def) (metis canonical_path_def)
      with p(2) assms(3) show False by simp
    next
      case (Some nm)
      have brk: "path_components (CHR ''/'' # CHR ''['' # t) \<noteq> [] \<and> (\<exists>u. hd (path_components (CHR ''/'' # CHR ''['' # t)) = CHR ''['' # u)" for t
        by (cases "split_on (CHR ''/'') t") (auto simp: path_components_def)
      from p(3) Some have "path_components path = path_components (CHR ''/'' # CHR ''['' # nm @ '']'' @ p)"
        by (simp add: decorated_def)
      with brk [of "nm @ '']'' @ p"] obtain u cs where cs: "path_components path = (CHR ''['' # u) # cs"
        by (metis list.collapse)
      have "path = CHR ''/'' # join_with ''/'' ((CHR ''['' # u) # cs)"
        using assms(2) by (simp only: canonical_path_def cs)
      then have "starts_with ''/['' path" by (cases cs) (simp_all add: starts_with_def)
      with assms(4) show False by simp
    qed
  qed
  then have "view_stats (abs_tree (as_tree s)) (path_components path) = 0 \<and>
      view_process (abs_tree (as_tree s)) (path_components path) = Map.empty"
    using reached_clean [OF assms(1), of sample_env] by (simp add: clean_view_def view_def)
  then show ?thesis by (simp add: abs_tree_def)
qed

theorem excluded_paths_untracked_witness:
  "\<exists>s. ingest sample_env rev 0 sample_batch (new_app_state 5 [''/tmp/'']) = Some s \<and>
     stats_at (root (as_tree s)) [''tmp'', ''file''] = 0"
proof -
  obtain s where s: "ingest sample_env rev 0 sample_batch (new_app_state 5 [''/tmp/'']) = Some s"
    using ingest_view [of rev "new_app_state 5 [''/tmp/'']" sample_env 0 sample_batch]
    by (auto simp: new_app_state_def tree_ok_new)
  have r: "reached [''/tmp/''] 5 s" by (rule reached_ingest [OF reached_new s]) simp
  have c: "path_components ''/tmp/file'' = [''tmp'', ''file'']" by (simp add: path_components_def)
  have "canonical_path ''/tmp/file''" unfolding canonical_path_def c by simp
  moreover have "is_excluded [''/tmp/''] ''/tmp/file''"
    by (simp add: is_excluded_def trim_end_slashes_def starts_with_def)
  ultimately have "stats_at (root (as_tree s)) (path_components ''/tmp/file'') = 0"
    using excluded_paths_untracked [OF r, of "''/tmp/file''"] by (simp add: starts_with_def)
  with s c show ?thesis by auto
qed

subsection \<open>Loss\<close>

text \<open>A loss report or a reset; what the header shows is counted from the last reset.\<close>

datatype loss_op = Report u64 | Reset_All

fun loss_step :: "loss_op \<Rightarrow> app_state \<Rightarrow> app_state" where
  "loss_step (Report n) s = update_drop_total n s"
| "loss_step Reset_All s = app_reset s"

text \<open>The totals reported, which a reader's counters never decrease.\<close>

fun loss_spec :: "loss_op \<Rightarrow> nat \<times> nat \<Rightarrow> nat \<times> nat" where
  "loss_spec (Report n) (latest, base) = (unat n, base)"
| "loss_spec Reset_All (latest, base) = (latest, latest)"

fun growing :: "nat \<Rightarrow> loss_op list \<Rightarrow> bool" where
  "growing m [] = True"
| "growing m (Report n # ops) = (m \<le> unat n \<and> growing (unat n) ops)"
| "growing m (Reset_All # ops) = growing m ops"

lemma loss_run:
  "growing (unat (as_drop_total s)) ops \<Longrightarrow> as_drop_baseline s \<le> as_drop_total s \<Longrightarrow>
   unat (as_dropped_events s) = unat (as_drop_total s) - unat (as_drop_baseline s) \<Longrightarrow>
   let s' = fold loss_step ops s; (latest, base) = fold loss_spec ops (unat (as_drop_total s), unat (as_drop_baseline s))
   in unat (as_dropped_events s') = latest - base \<and> base \<le> latest \<and> unat (as_drop_total s') = latest"
proof (induction ops arbitrary: s)
  case Nil
  then show ?case by (simp add: word_le_nat_alt)
next
  case (Cons op ops)
  show ?case
  proof (cases op)
    case (Report n)
    let ?s = "update_drop_total n s"
    have f: "as_drop_total ?s = n" "as_drop_baseline ?s = as_drop_baseline s"
      "unat (as_dropped_events ?s) = unat n - unat (as_drop_baseline s)"
      by (simp_all add: update_drop_total_def Let_def sat_simps)
    then show ?thesis
      using Cons.IH [of ?s] Cons.prems Report by (simp add: word_le_nat_alt)
  next
    case Reset_All
    then show ?thesis using Cons.IH [of "app_reset s"] Cons.prems by (simp add: app_reset_def)
  qed
qed

text \<open>Loss is accounted from the last reset and breaks no attribution: as long as the reported
  totals do not decrease, the number shown is the latest total minus the total at the last reset,
  without wrapping; and a report of new loss leaves no cached descriptor, so no later event is
  filed under a path learnt before it.\<close>

theorem loss_accounted:
  assumes "growing 0 ops"
  shows "let s = fold loss_step ops (new_app_state window ex); (latest, base) = fold loss_spec ops (0, 0)
         in unat (as_dropped_events s) = latest - base \<and> base \<le> latest \<and>
            (latest < unat n \<longrightarrow> fd_lookup pid fd (as_fds (update_drop_total n s)) = None)"
proof -
  have "let s' = fold loss_step ops (new_app_state window ex); (latest, base) = fold loss_spec ops (0, 0)
   in unat (as_dropped_events s') = latest - base \<and> base \<le> latest \<and> unat (as_drop_total s') = latest"
    using loss_run [of "new_app_state window ex" ops] assms by (simp add: new_app_state_def)
  then show ?thesis
    by (auto simp: Let_def update_drop_total_def word_less_nat_alt fd_lookup_def invalidate_all_def)
qed

theorem loss_accounted_witness:
  "unat (as_dropped_events (fold loss_step [Report 3, Reset_All, Report 10] (new_app_state 5 []))) = 7"
  using loss_accounted [of "[Report 3, Reset_All, Report 10]" 5 "[]" 0 0 0] by (simp add: Let_def)

end
