(* ===== verification/Views.thy ===== *)
theory Views
  imports Filters
begin

section \<open>The displayed lists (ncda/src/tui/flat_view.rs, tree_view.rs, mod.rs)\<close>

text \<open>
  What the terminal interface lists: the rows of one directory (\<open>visible_rows\<close>), the unfolded
  tree (\<open>flatten\<close>) and the processes (\<open>visible_processes\<close>). Drawing the rows is left aside;
  these are the functions that decide which rows there are and in which order.

  \<open>HashSet<Vec<String>>\<close> of expanded paths is a set. \<open>flatten_recurse\<close> pushes the lines of a
  subtree on one vector: its model returns them as a list, and its \<open>path.push\<close> and
  \<open>path.pop\<close> pair is the argument \<open>path\<close> of the recursive call.
\<close>

subsection \<open>Definitions\<close>

record flat_row =
  fr_name :: string
  fr_path :: string
  fr_is_dir :: bool
  fr_stats :: node_stats

text \<open>The comparison closure both lists sort by.\<close>

fun row_key_order :: "sort_criterion \<Rightarrow> string \<times> node_stats \<Rightarrow> string \<times> node_stats \<Rightarrow> ordering" where
  "row_key_order TotalBytes a b = cmp (total_bytes (snd a)) (total_bytes (snd b))"
| "row_key_order ReadBytes a b = cmp (read_bytes (snd a)) (read_bytes (snd b))"
| "row_key_order WriteBytes a b = cmp (write_bytes (snd a)) (write_bytes (snd b))"
| "row_key_order Frequency a b = cmp (total_ops (snd a)) (total_ops (snd b))"
| "row_key_order Latency a b = cmp (avg_latency_ns (snd a)) (avg_latency_ns (snd b))"
| "row_key_order Name a b = cmp (fst a) (fst b)"

definition row_order :: "sort_criterion \<Rightarrow> bool \<Rightarrow> string \<times> node_stats \<Rightarrow> string \<times> node_stats \<Rightarrow> ordering" where
  "row_order key descending a b =
     (let order = row_key_order key a b;
          order = (if descending then ord_reverse order else order)
      in then_with order (cmp (fst a) (fst b)))"

definition cwd_path :: "string list \<Rightarrow> string" where
  "cwd_path cwd = (if cwd = [] then ''/'' else ''/'' @ join_with ''/'' cwd)"

definition visible_rows ::
    "(string \<Rightarrow> string) \<Rightarrow> file_tree \<Rightarrow> string list \<Rightarrow> sort_criterion \<Rightarrow> bool \<Rightarrow> filter_query \<Rightarrow> process_table
      \<Rightarrow> flat_row list" where
  "visible_rows lower tree cwd key descending query procs =
     (case tree_get_node tree cwd of
        None \<Rightarrow> []
      | Some node \<Rightarrow>
          let parent_path = cwd_path cwd;
              rows = List.map_filter (\<lambda>child.
                  let path = join_path parent_path (name child)
                  in map_option (\<lambda>st. \<lparr>fr_name = name child, fr_path = path, fr_is_dir = is_dir child, fr_stats = st\<rparr>)
                       (filtered_stats lower procs query path child)) (map snd (children node))
          in sort_by (\<lambda>a b. row_order key descending (fr_name a, fr_stats a) (fr_name b, fr_stats b)) rows)"

record tree_line =
  tl_depth :: nat
  tl_path :: "string list"
  tl_display_path :: string
  tl_name :: string
  tl_is_dir :: bool
  tl_is_expanded :: bool
  tl_read_bytes :: u64
  tl_write_bytes :: u64
  tl_total_ops :: u64
  tl_avg_latency_ns :: u64
  tl_total_bytes :: u64

definition shown_children ::
    "(string \<Rightarrow> string) \<Rightarrow> sort_criterion \<Rightarrow> bool \<Rightarrow> filter_query \<Rightarrow> process_table \<Rightarrow> tree_node \<Rightarrow> string
      \<Rightarrow> (tree_node \<times> string \<times> node_stats) list" where
  "shown_children lower key descending query procs node display_path =
     sort_by (\<lambda>(a, _, a_stats) (b, _, b_stats). row_order key descending (name a, a_stats) (name b, b_stats))
       (List.map_filter (\<lambda>child.
          let child_path = join_path display_path (name child)
          in map_option (\<lambda>st. (child, child_path, st)) (filtered_stats lower procs query child_path child))
        (map snd (children node)))"

definition new_line :: "nat \<Rightarrow> string list \<Rightarrow> string \<Rightarrow> bool \<Rightarrow> tree_node \<Rightarrow> node_stats \<Rightarrow> tree_line" where
  "new_line depth path display_path is_expanded child st =
     \<lparr>tl_depth = depth, tl_path = path, tl_display_path = display_path, tl_name = name child,
      tl_is_dir = is_dir child, tl_is_expanded = is_expanded, tl_read_bytes = read_bytes st,
      tl_write_bytes = write_bytes st, tl_total_ops = total_ops st,
      tl_avg_latency_ns = avg_latency_ns st, tl_total_bytes = total_bytes st\<rparr>"

lemma size_shown_child:
  assumes "(child, p, st) \<in> set (shown_children lower key descending query procs node dp)"
  shows "size child < size node"
proof -
  from assms obtain k where "(k, child) \<in> set (children node)"
    by (auto simp: shown_children_def List.map_filter_def Let_def split: option.splits)
  then show ?thesis using size_child by force
qed

function flatten_recurse ::
    "(string \<Rightarrow> string) \<Rightarrow> string list set \<Rightarrow> sort_criterion \<Rightarrow> bool \<Rightarrow> filter_query \<Rightarrow> process_table
      \<Rightarrow> tree_node \<Rightarrow> string list \<Rightarrow> string \<Rightarrow> nat \<Rightarrow> tree_line list" where
  "flatten_recurse lower expanded key descending query procs node path display_path depth =
     concat (map (\<lambda>(child, child_display_path, st).
         let path = path @ [name child];
             is_expanded = path \<in> expanded
         in new_line depth path child_display_path is_expanded child st
            # (if is_dir child \<and> is_expanded
               then flatten_recurse lower expanded key descending query procs child path child_display_path (depth + 1)
               else []))
       (shown_children lower key descending query procs node display_path))"
  by pat_completeness auto

termination flatten_recurse
  by (relation "measure (\<lambda>(_, _, _, _, _, _, node, _). size node)") (auto dest: size_shown_child)

declare flatten_recurse.simps [simp del]

definition flatten ::
    "(string \<Rightarrow> string) \<Rightarrow> file_tree \<Rightarrow> string list set \<Rightarrow> sort_criterion \<Rightarrow> bool \<Rightarrow> filter_query \<Rightarrow> process_table
      \<Rightarrow> tree_line list" where
  "flatten lower tree expanded key descending query procs =
     flatten_recurse lower expanded key descending query procs (root tree) [] ''/'' 0"

definition visible_processes ::
    "(string \<Rightarrow> string) \<Rightarrow> file_tree \<Rightarrow> filter_query \<Rightarrow> process_table \<Rightarrow> process_sort \<Rightarrow> bool \<Rightarrow> process_info list" where
  "visible_processes lower tree query procs key descending =
     (let matching = matching_pids lower tree query procs
      in filter (\<lambda>process. pi_pid process \<in> matching) (sorted_processes key descending procs))"

subsection \<open>The order of the rows\<close>

lemma comparison_row_key: "comparison (row_key_order key)"
  by (cases key) (simp_all add: comparison_key row_key_order.simps [abs_def])

interpretation row_cmp: comparison "row_order key descending"
  for key :: sort_criterion and descending :: bool
proof -
  have "comparison (\<lambda>a b. if descending then ord_reverse (row_key_order key a b) else row_key_order key a b)"
    using comparison_row_key comparison_reverse by (cases descending) auto
  then have "comparison (\<lambda>a b. then_with (if descending then ord_reverse (row_key_order key a b)
      else row_key_order key a b) (cmp (fst a) (fst b)))"
    by (intro comparison_then_with comparison_key)
  then show "comparison (row_order key descending)"
    by (simp add: row_order_def [abs_def] Let_def)
qed

lemma comparison_on: "comparison c \<Longrightarrow> comparison (\<lambda>a b. c (f a) (f b))"
  unfolding comparison_def by blast

lemma row_order_eq: "row_order key descending a b = Eq \<Longrightarrow> fst a = fst b"
  by (simp add: row_order_def Let_def)

text \<open>Rows with different names are never tied, so the displayed order is strict.\<close>

lemma sorted_wrt_refine:
  "sorted_wrt P xs \<Longrightarrow> distinct (map f xs) \<Longrightarrow> (\<And>a b. P a b \<Longrightarrow> f a \<noteq> f b \<Longrightarrow> Q a b) \<Longrightarrow> sorted_wrt Q xs"
  by (induction xs) auto

lemma distinct_sort_by: "distinct (map f (sort_by c xs)) \<longleftrightarrow> distinct (map f xs)"
  by (metis mset_map mset_sort_by mset_eq_imp_distinct_iff)

lemma sort_by_strict:
  assumes "comparison c" and "\<And>a b. c a b = Eq \<Longrightarrow> f a = f b" and "distinct (map f xs)"
  shows "sorted_wrt (\<lambda>a b. c a b = Lt) (sort_by c xs)"
proof (rule sorted_wrt_refine)
  show "distinct (map f (sort_by c xs))"
    using assms(3) by (simp only: distinct_sort_by)
  show "sorted_wrt (\<lambda>a b. c a b \<noteq> Gt) (sort_by c xs)"
    by (rule comparison.sorted_sort_by [OF assms(1)])
  show "c a b = Lt" if "c a b \<noteq> Gt" "f a \<noteq> f b" for a b
    using that assms(2) by (cases "c a b") auto
qed

subsection \<open>The rows of a directory\<close>

lemma child_by_name:
  "node_ok n \<Longrightarrow> (k, child) \<in> set (children n) \<longleftrightarrow> k = name child \<and> map_of (children n) (name child) = Some child"
  using map_of_mem [of "children n" k child] by (auto simp: node_ok_def list_all_iff)

lemma child_component: "node_ok n \<Longrightarrow> map_of (children n) c = Some child \<Longrightarrow> is_component c \<and> name child = c"
  by (drule map_of_SomeD) (auto simp: node_ok_def list_all_iff)

lemma distinct_child_names: "node_ok n \<Longrightarrow> distinct (map name (map snd (children n)))"
proof -
  assume "node_ok n"
  then have "distinct (map fst (children n))" and "map fst (children n) = map name (map snd (children n))"
    by (auto simp: node_ok_def distinct_keys_def list_all_iff)
  then show ?thesis by simp
qed

lemma distinct_map_filter:
  assumes "distinct (map g xs)" and "\<And>x y. f x = Some y \<Longrightarrow> h y = g x"
  shows "distinct (map h (List.map_filter f xs))"
  using assms(1)
proof (induction xs)
  case (Cons x xs)
  have "g x \<notin> h ` set (List.map_filter f xs)"
    using Cons.prems assms(2) by (fastforce simp: List.map_filter_def)
  with Cons assms(2) show ?case
    by (cases "f x") (auto simp: List.map_filter_simps)
qed (simp add: List.map_filter_simps)

lemma set_map_filter: "y \<in> set (List.map_filter f xs) \<longleftrightarrow> (\<exists>x \<in> set xs. f x = Some y)"
  by (force simp: List.map_filter_def)

lemma map_filter_children:
  assumes "node_ok n"
  shows "y \<in> set (List.map_filter f (map snd (children n))) \<longleftrightarrow>
    (\<exists>c child. map_of (children n) c = Some child \<and> name child = c \<and> f child = Some y)"
proof -
  have "y \<in> set (List.map_filter f (map snd (children n))) \<longleftrightarrow>
      (\<exists>c child. (c, child) \<in> set (children n) \<and> f child = Some y)"
    by (force simp: set_map_filter)
  then show ?thesis by (simp add: child_by_name [OF assms])
qed

lemma row_of_child:
  "map_option (\<lambda>st. \<lparr>fr_name = n, fr_path = p, fr_is_dir = d, fr_stats = st\<rparr>) f = Some row \<longleftrightarrow>
     fr_name row = n \<and> fr_path row = p \<and> fr_is_dir row = d \<and> f = Some (fr_stats row)"
  by (cases row) auto

lemma get_node_append: "get_node n (p @ q) = (case get_node n p of None \<Rightarrow> None | Some m \<Rightarrow> get_node m q)"
  by (induction p arbitrary: n) (auto split: option.split)

text \<open>(C33) The rows of a directory, in the tree any sequence of operations builds: each row is a
  child of the current directory with matching activity, under its own path, kind and filtered
  statistics; every such child has exactly one row; and the rows are in strict order under the
  chosen key and direction with the name as tie-break, so the list does not depend on the
  iteration order of the hash tables. A directory that does not exist has no rows.\<close>

theorem visible_rows_exact:
  "let tree = tree_run ops new_tree;
       rows = visible_rows lower tree cwd key descending query procs
   in sorted_wrt (\<lambda>a b. row_order key descending (fr_name a, fr_stats a) (fr_name b, fr_stats b) = Lt) rows \<and>
      distinct (map fr_name rows) \<and>
      (\<forall>row. row \<in> set rows \<longleftrightarrow>
         (\<exists>child. tree_get_node tree (cwd @ [fr_name row]) = Some child \<and>
            fr_path row = join_path (cwd_path cwd) (fr_name row) \<and> fr_is_dir row = is_dir child \<and>
            filtered_stats lower procs query (fr_path row) child = Some (fr_stats row)))"
proof (cases "tree_get_node (tree_run ops new_tree) cwd")
  case None
  then show ?thesis
    by (simp add: visible_rows_def tree_get_node_def get_node_append)
next
  case (Some node)
  let ?tree = "tree_run ops new_tree"
  let ?path = "\<lambda>child. join_path (cwd_path cwd) (name child)"
  let ?row = "\<lambda>child. map_option (\<lambda>st. \<lparr>fr_name = name child, fr_path = ?path child, fr_is_dir = is_dir child, fr_stats = st\<rparr>)
      (filtered_stats lower procs query (?path child) child)"
  let ?rows = "List.map_filter ?row (map snd (children node))"
  let ?c = "\<lambda>a b. row_order key descending (fr_name a, fr_stats a) (fr_name b, fr_stats b)"
  have rows: "visible_rows lower ?tree cwd key descending query procs = sort_by ?c ?rows"
    using Some by (simp add: visible_rows_def Let_def)
  have ok: "node_ok node"
    using Some tree_ok_run [OF tree_ok_new, of ops] by (auto simp: tree_ok_def all_nodes_def tree_get_node_def)
  have names: "distinct (map fr_name ?rows)"
    by (rule distinct_map_filter [OF distinct_child_names [OF ok]]) (auto simp: Let_def)
  have strict: "sorted_wrt (\<lambda>a b. ?c a b = Lt) (sort_by ?c ?rows)"
    by (rule sort_by_strict [OF comparison_on [OF row_cmp.comparison_axioms] _ names]) (auto dest: row_order_eq)
  have "distinct (map fr_name (sort_by ?c ?rows))"
    using names by (simp only: distinct_sort_by)
  moreover have "row \<in> set ?rows \<longleftrightarrow>
      (\<exists>child. map_of (children node) (fr_name row) = Some child \<and>
         fr_path row = join_path (cwd_path cwd) (fr_name row) \<and> fr_is_dir row = is_dir child \<and>
         filtered_stats lower procs query (fr_path row) child = Some (fr_stats row))" (is "?in \<longleftrightarrow> ?listed") for row
    unfolding map_filter_children [OF ok] Let_def row_of_child
    using child_component [OF ok, of "fr_name row"] by (metis (no_types))
  moreover have "tree_get_node ?tree (cwd @ [c]) = map_of (children node) c" for c
    using Some by (simp add: tree_get_node_def get_node_append split: option.split)
  ultimately show ?thesis
    using strict unfolding Let_def rows by (simp only: set_sort_by simp_thms)
qed

subsection \<open>The unfolded tree\<close>

text \<open>The proper, nonempty prefixes of a path: the directories a line is nested in.\<close>

fun ancestors :: "string list \<Rightarrow> string list list" where
  "ancestors [] = []"
| "ancestors [c] = []"
| "ancestors (c # d # q) = [c] # map ((#) c) (ancestors (d # q))"

lemma ancestors_Cons: "q \<noteq> [] \<Longrightarrow> ancestors (c # q) = [c] # map ((#) c) (ancestors q)"
  by (cases q) simp_all

lemma ancestors_nonempty: "r \<in> set (ancestors q) \<Longrightarrow> r \<noteq> []"
  by (induction q rule: ancestors.induct) auto

text \<open>The displayed path of the node \<open>q\<close> below a directory displayed as \<open>dp\<close>.\<close>

definition display_below :: "string \<Rightarrow> string list \<Rightarrow> string" where
  "display_below dp q = foldl join_path dp q"

text \<open>A directory the user has unfolded and that the filter lets through.\<close>

definition unfolded ::
    "(string \<Rightarrow> string) \<Rightarrow> string list set \<Rightarrow> filter_query \<Rightarrow> process_table \<Rightarrow> tree_node \<Rightarrow> string list \<Rightarrow> string
      \<Rightarrow> string list \<Rightarrow> bool" where
  "unfolded lower expanded query procs node path dp r \<longleftrightarrow>
     path @ r \<in> expanded \<and>
     (\<exists>m. get_node node r = Some m \<and> is_dir m \<and> filtered_stats lower procs query (display_below dp r) m \<noteq> None)"

definition listed ::
    "(string \<Rightarrow> string) \<Rightarrow> string list set \<Rightarrow> filter_query \<Rightarrow> process_table \<Rightarrow> tree_node \<Rightarrow> string list \<Rightarrow> string
      \<Rightarrow> nat \<Rightarrow> string list \<Rightarrow> tree_line \<Rightarrow> bool" where
  "listed lower expanded query procs node path dp depth q line \<longleftrightarrow>
     q \<noteq> [] \<and> list_all (unfolded lower expanded query procs node path dp) (ancestors q) \<and>
     (\<exists>n st. get_node node q = Some n \<and>
        filtered_stats lower procs query (display_below dp q) n = Some st \<and>
        line = new_line (depth + length q - 1) (path @ q) (display_below dp q) (path @ q \<in> expanded) n st)"

lemma set_shown_children:
  assumes "node_ok node"
  shows "(child, p, st) \<in> set (shown_children lower key descending query procs node dp) \<longleftrightarrow>
    map_of (children node) (name child) = Some child \<and> p = join_path dp (name child) \<and>
    filtered_stats lower procs query p child = Some st"
  unfolding shown_children_def set_sort_by map_filter_children [OF assms]
  by (auto simp: Let_def)

lemma unfolded_below:
  assumes "map_of (children node) c = Some child"
  shows "unfolded lower expanded query procs node path dp (c # r) =
    unfolded lower expanded query procs child (path @ [c]) (join_path dp c) r"
  using assms by (simp add: unfolded_def display_below_def)

lemma listed_below:
  assumes "map_of (children node) c = Some child" and "q \<noteq> []"
  shows "listed lower expanded query procs node path dp depth (c # q) line \<longleftrightarrow>
    is_dir child \<and> path @ [c] \<in> expanded \<and> filtered_stats lower procs query (join_path dp c) child \<noteq> None \<and>
    listed lower expanded query procs child (path @ [c]) (join_path dp c) (depth + 1) q line"
proof -
  have "unfolded lower expanded query procs node path dp [c] \<longleftrightarrow>
      is_dir child \<and> path @ [c] \<in> expanded \<and> filtered_stats lower procs query (join_path dp c) child \<noteq> None"
    using assms(1) by (auto simp: unfolded_def display_below_def)
  moreover have "depth + length q = Suc (depth + length q) - 1" by simp
  ultimately show ?thesis
    using assms(2)
    by (simp add: listed_def ancestors_Cons list.pred_map comp_def unfolded_below [OF assms(1)] assms(1)
        display_below_def)
qed

lemma listed_child:
  assumes "node_ok node"
  shows "listed lower expanded query procs node path dp depth [c] line \<longleftrightarrow>
    (\<exists>child st. (child, join_path dp c, st) \<in> set (shown_children lower key descending query procs node dp) \<and>
       name child = c \<and> line = new_line depth (path @ [c]) (join_path dp c) (path @ [c] \<in> expanded) child st)"
proof -
  have "listed lower expanded query procs node path dp depth [c] line \<longleftrightarrow>
      (\<exists>child st. map_of (children node) c = Some child \<and> filtered_stats lower procs query (join_path dp c) child = Some st \<and>
         line = new_line depth (path @ [c]) (join_path dp c) (path @ [c] \<in> expanded) child st)"
    by (cases "map_of (children node) c") (simp_all add: listed_def display_below_def)
  also have "\<dots> \<longleftrightarrow> (\<exists>child st. (child, join_path dp c, st) \<in> set (shown_children lower key descending query procs node dp) \<and>
      name child = c \<and> line = new_line depth (path @ [c]) (join_path dp c) (path @ [c] \<in> expanded) child st)"
    unfolding set_shown_children [OF assms] by (intro ex_cong1) (metis child_component [OF assms])
  finally show ?thesis .
qed

lemma listed_cases:
  assumes "node_ok node"
  shows "(\<exists>q. listed lower expanded query procs node path dp depth q line) \<longleftrightarrow>
    (\<exists>child p st. (child, p, st) \<in> set (shown_children lower key descending query procs node dp) \<and>
       (line = new_line depth (path @ [name child]) p (path @ [name child] \<in> expanded) child st \<or>
        is_dir child \<and> path @ [name child] \<in> expanded \<and>
        (\<exists>q. listed lower expanded query procs child (path @ [name child]) p (depth + 1) q line)))"
    (is "?L \<longleftrightarrow> ?R")
proof
  assume ?L
  then obtain q where q: "listed lower expanded query procs node path dp depth q line" ..
  then obtain c r where cr: "q = c # r" by (cases q) (auto simp: listed_def)
  show ?R
  proof (cases "r = []")
    case True
    with q cr have "listed lower expanded query procs node path dp depth [c] line" by simp
    then show ?thesis
      unfolding listed_child [OF assms, where key = key and descending = descending] by blast
  next
    case False
    obtain child where child: "map_of (children node) c = Some child"
      using q cr by (auto simp: listed_def split: option.splits)
    have c: "name child = c" using child_component [OF assms child] by blast
    from q obtain st where st: "filtered_stats lower procs query (join_path dp c) child = Some st"
      and deep: "is_dir child \<and> path @ [c] \<in> expanded" "listed lower expanded query procs child (path @ [c]) (join_path dp c) (depth + 1) r line"
      unfolding cr listed_below [OF child False] by blast
    have "(child, join_path dp c, st) \<in> set (shown_children lower key descending query procs node dp)"
      using child st unfolding set_shown_children [OF assms] c by blast
    with deep c show ?thesis by blast
  qed
next
  assume ?R
  then obtain child p st
    where sh: "(child, p, st) \<in> set (shown_children lower key descending query procs node dp)" and
      here: "line = new_line depth (path @ [name child]) p (path @ [name child] \<in> expanded) child st \<or>
        is_dir child \<and> path @ [name child] \<in> expanded \<and>
        (\<exists>q. listed lower expanded query procs child (path @ [name child]) p (depth + 1) q line)"
    by blast
  from sh have child: "map_of (children node) (name child) = Some child" and p: "p = join_path dp (name child)"
    and fs: "filtered_stats lower procs query p child = Some st"
    unfolding set_shown_children [OF assms] by blast+
  from here show ?L
  proof
    assume "line = new_line depth (path @ [name child]) p (path @ [name child] \<in> expanded) child st"
    with sh p show ?thesis
      using listed_child [OF assms, where key = key and descending = descending] by blast
  next
    assume "is_dir child \<and> path @ [name child] \<in> expanded \<and>
      (\<exists>q. listed lower expanded query procs child (path @ [name child]) p (depth + 1) q line)"
    moreover have "q \<noteq> []" if "listed lower expanded query procs child path' p d q line" for q path' d
      using that by (simp add: listed_def)
    ultimately show ?thesis
      using listed_below [OF child] p fs by blast
  qed
qed

lemma flatten_recurse_listed:
  assumes "all_nodes node_ok node"
  shows "line \<in> set (flatten_recurse lower expanded key descending query procs node path dp depth) \<longleftrightarrow>
    (\<exists>q. listed lower expanded query procs node path dp depth q line)"
  using assms
proof (induction "size node" arbitrary: node path dp depth rule: less_induct)
  case less
  have ok: "node_ok node" by (rule all_nodes_here [OF less.prems])
  have below: "all_nodes node_ok child \<and> size child < size node"
    if "(child, p, st) \<in> set (shown_children lower key descending query procs node dp)" for child p st
    using that all_nodes_child [OF less.prems] size_shown_child [OF that]
    unfolding set_shown_children [OF ok] by blast
  show ?case
    unfolding listed_cases [OF ok, where key = key and descending = descending]
    by (subst flatten_recurse.simps) (fastforce simp: Let_def less.hyps below split: if_splits)
qed

text \<open>No path is listed twice.\<close>

lemma distinct_concat_map:
  assumes "distinct (map g xs)"
    and "\<And>x. x \<in> set xs \<Longrightarrow> distinct (map f (h x))"
    and "\<And>x y. x \<in> set xs \<Longrightarrow> y \<in> set (h x) \<Longrightarrow> k (f y) = g x"
  shows "distinct (map f (concat (map h xs)))"
  using assms
proof (induction xs)
  case (Cons x xs)
  have "f ` set (h x) \<inter> f ` set (concat (map h xs)) = {}"
  proof (rule ccontr)
    assume "f ` set (h x) \<inter> f ` set (concat (map h xs)) \<noteq> {}"
    then obtain y z x' where "y \<in> set (h x)" "x' \<in> set xs" "z \<in> set (h x')" "f y = f z" by auto
    with Cons.prems(3) [of x y] Cons.prems(3) [of x' z] have "g x = g x'" by simp
    with Cons.prems(1) \<open>x' \<in> set xs\<close> show False by auto
  qed
  with Cons show ?case by (simp add: Int_Un_distrib)
qed simp

lemma distinct_shown_names:
  "node_ok node \<Longrightarrow> distinct (map (\<lambda>(child, p, st). name child) (shown_children lower key descending query procs node dp))"
  unfolding shown_children_def distinct_sort_by
  by (rule distinct_map_filter [OF distinct_child_names]) (auto simp: Let_def)

lemma distinct_flatten_recurse:
  assumes "all_nodes node_ok node"
  shows "distinct (map tl_path (flatten_recurse lower expanded key descending query procs node path dp depth))"
  using assms
proof (induction "size node" arbitrary: node path dp depth rule: less_induct)
  case less
  have ok: "node_ok node" by (rule all_nodes_here [OF less.prems])
  let ?line = "\<lambda>(child, p, st). let path = path @ [name child]; is_expanded = path \<in> expanded
     in new_line depth path p is_expanded child st
        # (if is_dir child \<and> is_expanded
           then flatten_recurse lower expanded key descending query procs child path p (depth + 1) else [])"
  have longer: "\<exists>q. q \<noteq> [] \<and> tl_path line = path' @ q"
    if "all_nodes node_ok child"
      and "line \<in> set (flatten_recurse lower expanded key descending query procs child path' p d)"
    for line child path' p d
    using that by (auto simp: flatten_recurse_listed listed_def new_line_def)
  have below: "all_nodes node_ok child \<and> size child < size node"
    if "(child, p, st) \<in> set (shown_children lower key descending query procs node dp)" for child p st
    using that all_nodes_child [OF less.prems] size_shown_child [OF that]
    unfolding set_shown_children [OF ok] by blast
  show ?case
    unfolding flatten_recurse.simps [of lower expanded key descending query procs node]
  proof (rule distinct_concat_map [OF distinct_shown_names [OF ok], where k = "\<lambda>p. p ! length path"])
    fix x
    assume x: "x \<in> set (shown_children lower key descending query procs node dp)"
    obtain child p st where [simp]: "x = (child, p, st)" by (cases x)
    show "distinct (map tl_path (?line x))"
      using below x less.hyps longer by (fastforce simp: Let_def new_line_def)
    fix line
    assume "line \<in> set (?line x)"
    then show "tl_path line ! length path = (case x of (child, p, st) \<Rightarrow> name child)"
      using below x longer by (fastforce simp: Let_def new_line_def split: if_splits)
  qed
qed

text \<open>Every line comes after the line of the directory it is in.\<close>

fun nested :: "string list list \<Rightarrow> tree_line list \<Rightarrow> bool" where
  "nested seen [] \<longleftrightarrow> True"
| "nested seen (line # lines) \<longleftrightarrow> butlast (tl_path line) \<in> set seen \<and> nested (tl_path line # seen) lines"

lemma nested_mono: "nested seen lines \<Longrightarrow> set seen \<subseteq> set seen' \<Longrightarrow> nested seen' lines"
proof (induction seen lines arbitrary: seen' rule: nested.induct)
  case (2 seen line lines)
  have "nested (tl_path line # seen') lines"
    by (rule "2.IH") (use "2.prems" in \<open>simp_all add: subset_insertI2\<close>)
  with "2.prems" show ?case by auto
qed simp

lemma nested_append: "nested seen (xs @ ys) \<longleftrightarrow> nested seen xs \<and> nested (rev (map tl_path xs) @ seen) ys"
  by (induction seen xs rule: nested.induct) auto

lemma nested_concat: "(\<And>x. x \<in> set xs \<Longrightarrow> nested seen (h x)) \<Longrightarrow> nested seen (concat (map h xs))"
proof (induction xs)
  case (Cons x xs)
  then have "nested seen (concat (map h xs))" by simp
  then have "nested (rev (map tl_path (h x)) @ seen) (concat (map h xs))"
    by (rule nested_mono) simp
  with Cons.prems show ?case by (simp add: nested_append)
qed simp

lemma nested_flatten_recurse:
  "path \<in> set seen \<Longrightarrow> nested seen (flatten_recurse lower expanded key descending query procs node path dp depth)"
proof (induction "size node" arbitrary: node path dp depth seen rule: less_induct)
  case less
  show ?case
    by (subst flatten_recurse.simps, rule nested_concat)
      (use less in \<open>auto simp: Let_def new_line_def split: prod.split dest: size_shown_child\<close>)
qed

lemma flatten_recurse_paths:
  "list_all (\<lambda>line. tl_path line \<noteq> [])
     (flatten_recurse lower expanded key descending query procs node path dp depth)"
proof (induction "size node" arbitrary: node path dp depth rule: less_induct)
  case less
  show ?case
    by (subst flatten_recurse.simps)
      (use less in \<open>auto simp: Let_def new_line_def list_all_iff dest: size_shown_child\<close>)
qed

lemma flatten_paths: "list_all (\<lambda>line. tl_path line \<noteq> []) (flatten lower tree expanded key descending query procs)"
  by (simp add: flatten_def flatten_recurse_paths)

lemma nested_parent_index:
  "nested seen lines \<Longrightarrow> i < length lines \<Longrightarrow> butlast (tl_path (lines ! i)) \<notin> set seen \<Longrightarrow>
   \<exists>j < i. tl_path (lines ! j) = butlast (tl_path (lines ! i))"
proof (induction seen lines arbitrary: i rule: nested.induct)
  case (2 seen line lines)
  show ?case
  proof (cases i)
    case 0
    with "2.prems" show ?thesis by simp
  next
    case (Suc k)
    show ?thesis
    proof (cases "tl_path line = butlast (tl_path (lines ! k))")
      case True
      with Suc show ?thesis by (intro exI [of _ 0]) simp
    next
      case False
      with "2.IH" [of k] "2.prems" Suc obtain j where "j < k" "tl_path (lines ! j) = butlast (tl_path (lines ! k))"
        by auto
      with Suc show ?thesis by (intro exI [of _ "Suc j"]) simp
    qed
  qed
qed simp

lemma get_node_components: "all_nodes node_ok n \<Longrightarrow> get_node n q = Some m \<Longrightarrow> list_all is_component q"
proof (induction q arbitrary: n)
  case (Cons c q)
  then obtain child where child: "map_of (children n) c = Some child" "get_node child q = Some m"
    by (auto split: option.splits)
  have "is_component c"
    using child_component [OF all_nodes_here [OF Cons.prems(1)] child(1)] by blast
  moreover have "list_all is_component q"
    by (rule Cons.IH [OF all_nodes_child [OF Cons.prems(1) child(1)] child(2)])
  ultimately show ?case by simp
qed simp

lemma display_below_root: "list_all is_component q \<Longrightarrow> display_below ''/'' q = cwd_path q"
proof (induction q rule: rev_induct)
  case (snoc c q)
  have "join_with ''/'' q \<noteq> []" if "q \<noteq> []"
    using that snoc.prems by (cases q rule: ancestors.cases) (auto simp: is_component_def)
  with snoc show ?case
    by (cases "q = []") (auto simp: display_below_def cwd_path_def join_path_def join_with_append)
qed (simp add: display_below_def cwd_path_def)

definition open_directory ::
    "(string \<Rightarrow> string) \<Rightarrow> string list set \<Rightarrow> filter_query \<Rightarrow> process_table \<Rightarrow> file_tree \<Rightarrow> string list \<Rightarrow> bool" where
  "open_directory lower expanded query procs tree r \<longleftrightarrow>
     r \<in> expanded \<and>
     (\<exists>m. tree_get_node tree r = Some m \<and> is_dir m \<and> filtered_stats lower procs query (cwd_path r) m \<noteq> None)"

lemma unfolded_root:
  "all_nodes node_ok (root tree) \<Longrightarrow>
   unfolded lower expanded query procs (root tree) [] ''/'' = open_directory lower expanded query procs tree"
  by (rule ext) (auto dest: get_node_components simp: unfolded_def open_directory_def tree_get_node_def display_below_root)

text \<open>(C32) The unfolded tree, in the tree any sequence of operations builds: a line is shown for a
  path exactly when the path leads to a node with matching activity and every directory above it
  is unfolded, is a directory and has matching activity itself; the line then carries the node's
  depth, displayed path, kind and filtered statistics. No path is shown twice, and every line
  comes after the line of its directory.\<close>

theorem flatten_exact:
  "let tree = tree_run ops new_tree;
       lines = flatten lower tree expanded key descending query procs
   in distinct (map tl_path lines) \<and> nested [[]] lines \<and>
      (\<forall>line. line \<in> set lines \<longleftrightarrow>
         (let p = tl_path line in p \<noteq> [] \<and>
            list_all (open_directory lower expanded query procs tree) (ancestors p) \<and>
            (\<exists>n st. tree_get_node tree p = Some n \<and>
               filtered_stats lower procs query (cwd_path p) n = Some st \<and>
               line = new_line (length p - 1) p (cwd_path p) (p \<in> expanded) n st)))"
proof -
  let ?t = "tree_run ops new_tree"
  let ?lines = "flatten lower ?t expanded key descending query procs"
  have ok: "all_nodes node_ok (root ?t)"
    using tree_ok_run [OF tree_ok_new, of ops] by (simp add: tree_ok_def)
  have "line \<in> set ?lines \<longleftrightarrow>
      (let p = tl_path line in p \<noteq> [] \<and> list_all (open_directory lower expanded query procs ?t) (ancestors p) \<and>
         (\<exists>n st. tree_get_node ?t p = Some n \<and> filtered_stats lower procs query (cwd_path p) n = Some st \<and>
            line = new_line (length p - 1) p (cwd_path p) (p \<in> expanded) n st))" for line
  proof -
    have "line \<in> set ?lines \<longleftrightarrow> (\<exists>q. q = tl_path line \<and> listed lower expanded query procs (root ?t) [] ''/'' 0 q line)"
      unfolding flatten_def flatten_recurse_listed [OF ok] by (auto simp: listed_def new_line_def)
    then show ?thesis
      using get_node_components [OF ok]
      by (auto simp: listed_def Let_def unfolded_root [OF ok] tree_get_node_def display_below_root)
  qed
  then show ?thesis
    by (simp add: Let_def flatten_def distinct_flatten_recurse [OF ok] nested_flatten_recurse)
qed

end
