(* ===== verification/Input.thy ===== *)
theory Input
  imports Views Paths
begin

section \<open>Keyboard input (ncda/src/tui/input.rs, ViewState of tui/app.rs)\<close>

text \<open>
  The view state the render loop owns and the effect of one key press on it. The sources match on
  crossterm's \<open>KeyCode\<close> and test two modifier bits; the codes they name are constructors here and
  every other code is \<open>OtherKey\<close>. A \<open>char\<close> is its code point, and pushing it on a \<open>String\<close>
  appends its UTF-8 encoding.

  A handler returns \<open>None\<close> where the source would panic: the \<open>unwrap\<close> of a parsed \<open>pid:\<close> filter
  and the slice \<open>..len - 1\<close> of an empty path. The out-parameter \<open>should_reset\<close> is returned.
\<close>

subsection \<open>View state\<close>

datatype view_mode = FlatMode | TreeMode

datatype pane_focus = FilesPane | ProcessesPane

record view_state =
  vs_mode :: view_mode
  vs_cwd :: "string list"
  vs_cursor :: nat
  vs_scroll_offset :: nat
  vs_expanded :: "string list set"
  vs_sort_by :: sort_criterion
  vs_sort_desc :: bool
  vs_show_processes :: bool
  vs_focus :: pane_focus
  vs_process_cursor :: nat
  vs_selected_process :: "u32 option"
  vs_process_sort :: process_sort
  vs_process_sort_desc :: bool
  vs_show_help :: bool
  vs_filter :: filter_query
  vs_filter_input :: "string option"
  vs_filter_error :: "string option"

definition new_view_state :: view_state where
  "new_view_state =
     \<lparr>vs_mode = FlatMode, vs_cwd = [], vs_cursor = 0, vs_scroll_offset = 0, vs_expanded = {},
      vs_sort_by = TotalBytes, vs_sort_desc = True, vs_show_processes = False, vs_focus = FilesPane,
      vs_process_cursor = 0, vs_selected_process = None, vs_process_sort = ByTotalBytes,
      vs_process_sort_desc = True, vs_show_help = False, vs_filter = empty_query,
      vs_filter_input = None, vs_filter_error = None\<rparr>"

text \<open>\<open>iter().position(...)\<close>: the first index at which a predicate holds.\<close>

fun position :: "('a \<Rightarrow> bool) \<Rightarrow> 'a list \<Rightarrow> nat option" where
  "position P [] = None"
| "position P (x # xs) = (if P x then Some 0 else map_option Suc (position P xs))"

text \<open>\<open>get(i)\<close> of a slice.\<close>

definition get_at :: "nat \<Rightarrow> 'a list \<Rightarrow> 'a option" where
  "get_at i xs = (if i < length xs then Some (xs ! i) else None)"

definition reconcile_process_selection :: "u32 list \<Rightarrow> view_state \<Rightarrow> view_state" where
  "reconcile_process_selection pids v =
     (if pids = [] then v\<lparr>vs_process_cursor := 0, vs_selected_process := None\<rparr>
      else case (case vs_selected_process v of None \<Rightarrow> None | Some selected \<Rightarrow> position (\<lambda>pid. pid = selected) pids) of
             Some index \<Rightarrow> v\<lparr>vs_process_cursor := index\<rparr>
           | None \<Rightarrow>
               let c = min (vs_process_cursor v) (length pids - 1)
               in v\<lparr>vs_process_cursor := c, vs_selected_process := Some (pids ! c)\<rparr>)"

subsection \<open>Keys and editing\<close>

datatype key_code =
  UpKey | DownKey | LeftKey | RightKey | HomeKey | EndKey | PageUpKey | PageDownKey
| EnterKey | BackspaceKey | TabKey | EscKey | CharKey nat | OtherKey nat

record key_event =
  k_code :: key_code
  k_control :: bool
  k_alt :: bool

definition typed :: "char \<Rightarrow> key_code" where
  "typed c = CharKey (of_char c)"

definition encode_utf8 :: "nat \<Rightarrow> string" where
  "encode_utf8 n =
     map char_of
       (if n < 0x80 then [n]
        else if n < 0x800 then [0xC0 + n div 64, 0x80 + n mod 64]
        else if n < 0x10000 then [0xE0 + n div 4096, 0x80 + n div 64 mod 64, 0x80 + n mod 64]
        else [0xF0 + n div 262144 mod 8, 0x80 + n div 4096 mod 64, 0x80 + n div 64 mod 64, 0x80 + n mod 64 :: nat])"

text \<open>\<open>String::pop\<close> removes the last character: its continuation bytes and its first byte.\<close>

definition pop_char :: "string \<Rightarrow> string" where
  "pop_char s = rev (tl (dropWhile cont_byte (rev s)))"

definition handle_filter_input :: "(string \<Rightarrow> string) \<Rightarrow> key_event \<Rightarrow> view_state \<Rightarrow> view_state" where
  "handle_filter_input lower key v =
     (case k_code key of
        EscKey \<Rightarrow> v\<lparr>vs_filter_input := None, vs_filter_error := None\<rparr>
      | EnterKey \<Rightarrow>
          (let input = (case vs_filter_input v of None \<Rightarrow> [] | Some s \<Rightarrow> s)
           in case parse_query lower input of
                Inr fq \<Rightarrow> v\<lparr>vs_filter := fq, vs_filter_input := None, vs_filter_error := None, vs_cursor := 0\<rparr>
              | Inl e \<Rightarrow> v\<lparr>vs_filter_error := Some e\<rparr>)
      | BackspaceKey \<Rightarrow>
          v\<lparr>vs_filter_input := map_option pop_char (vs_filter_input v), vs_filter_error := None\<rparr>
      | CharKey c \<Rightarrow>
          (if c = of_char (CHR ''u'') \<and> k_control key then
             v\<lparr>vs_filter_input := map_option (\<lambda>_. []) (vs_filter_input v), vs_filter_error := None\<rparr>
           else if \<not> (k_control key \<or> k_alt key) then
             v\<lparr>vs_filter_input := map_option (\<lambda>s. s @ encode_utf8 c) (vs_filter_input v), vs_filter_error := None\<rparr>
           else v)
      | _ \<Rightarrow> v)"

definition open_filter_editor :: "view_state \<Rightarrow> view_state" where
  "open_filter_editor v = v\<lparr>vs_filter_input := Some (fq_raw (vs_filter v)), vs_filter_error := None\<rparr>"

subsection \<open>The process pane\<close>

text \<open>\<open>FilterQuery::parse(&format!("pid:{pid}")).unwrap()\<close>.\<close>

definition pid_filter :: "(string \<Rightarrow> string) \<Rightarrow> u32 \<Rightarrow> filter_query option" where
  "pid_filter lower pid =
     (case parse_query lower (''pid:'' @ show_word pid) of Inr q \<Rightarrow> Some q | Inl _ \<Rightarrow> None)"

definition process_key_effect ::
    "(string \<Rightarrow> string) \<Rightarrow> key_event \<Rightarrow> u32 list \<Rightarrow> nat \<Rightarrow> view_state \<Rightarrow> view_state option" where
  "process_key_effect lower key process_pids page_height v =
     (let page_height = max page_height 1; last = length process_pids - 1; code = k_code key
      in if code = typed (CHR ''P'') then Some (v\<lparr>vs_focus := FilesPane\<rparr>)
         else if code = typed (CHR ''p'') then Some (v\<lparr>vs_show_processes := False, vs_focus := FilesPane\<rparr>)
         else if code = UpKey \<or> code = typed (CHR ''k'') then
           Some (v\<lparr>vs_process_cursor := vs_process_cursor v - 1\<rparr>)
         else if code = DownKey \<or> code = typed (CHR ''j'') then
           Some (v\<lparr>vs_process_cursor := min (vs_process_cursor v + 1) last\<rparr>)
         else if code = HomeKey \<or> code = typed (CHR ''g'') then Some (v\<lparr>vs_process_cursor := 0\<rparr>)
         else if code = EndKey \<or> code = typed (CHR ''G'') then Some (v\<lparr>vs_process_cursor := last\<rparr>)
         else if code = PageUpKey then Some (v\<lparr>vs_process_cursor := vs_process_cursor v - page_height\<rparr>)
         else if code = PageDownKey then
           Some (v\<lparr>vs_process_cursor := min (usize_sat_add (vs_process_cursor v) page_height) last\<rparr>)
         else if code = typed (CHR ''s'') then Some (v\<lparr>vs_process_sort := process_sort_next (vs_process_sort v)\<rparr>)
         else if code = typed (CHR ''S'') then Some (v\<lparr>vs_process_sort_desc := \<not> vs_process_sort_desc v\<rparr>)
         else if code = EnterKey then
           (case get_at (vs_process_cursor v) process_pids of
              None \<Rightarrow> Some v
            | Some pid \<Rightarrow>
                (case pid_filter lower pid of
                   None \<Rightarrow> None
                 | Some fq \<Rightarrow> Some (v\<lparr>vs_filter := fq, vs_cursor := 0, vs_focus := FilesPane\<rparr>)))
         else if code = typed (CHR ''/'') then Some (open_filter_editor v)
         else if code = typed (CHR ''?'') then Some (v\<lparr>vs_show_help := True\<rparr>)
         else Some v)"

definition handle_process_key ::
    "(string \<Rightarrow> string) \<Rightarrow> key_event \<Rightarrow> u32 list \<Rightarrow> nat \<Rightarrow> view_state \<Rightarrow> view_state option" where
  "handle_process_key lower key process_pids page_height v =
     (case process_key_effect lower key process_pids page_height v of
        None \<Rightarrow> None
      | Some v \<Rightarrow> Some (v\<lparr>vs_selected_process := get_at (vs_process_cursor v) process_pids\<rparr>))"

subsection \<open>The file pane and the global keys\<close>

definition last_file_row :: "nat \<Rightarrow> tree_line list \<Rightarrow> view_state \<Rightarrow> nat" where
  "last_file_row flat_child_count tree_lines v =
     (case vs_mode v of FlatMode \<Rightarrow> flat_child_count - 1 | TreeMode \<Rightarrow> length tree_lines - 1)"

text \<open>In flat mode drilling in is left to the render loop.\<close>

definition expand_line :: "tree_line list \<Rightarrow> view_state \<Rightarrow> view_state" where
  "expand_line tree_lines v =
     (case vs_mode v of
        FlatMode \<Rightarrow> v
      | TreeMode \<Rightarrow>
          (case get_at (vs_cursor v) tree_lines of
             None \<Rightarrow> v
           | Some line \<Rightarrow>
               if tl_is_dir line then
                 if tl_is_expanded line then v\<lparr>vs_expanded := vs_expanded v - {tl_path line}\<rparr>
                 else v\<lparr>vs_expanded := insert (tl_path line) (vs_expanded v)\<rparr>
               else v))"

definition go_up :: "tree_line list \<Rightarrow> view_state \<Rightarrow> view_state option" where
  "go_up tree_lines v =
     (case vs_mode v of
        FlatMode \<Rightarrow> Some (if vs_cwd v \<noteq> [] then v\<lparr>vs_cwd := butlast (vs_cwd v), vs_cursor := 0\<rparr> else v)
      | TreeMode \<Rightarrow>
          (case get_at (vs_cursor v) tree_lines of
             None \<Rightarrow> Some v
           | Some line \<Rightarrow>
               if tl_is_dir line \<and> tl_is_expanded line then
                 Some (v\<lparr>vs_expanded := vs_expanded v - {tl_path line}\<rparr>)
               else if 0 < tl_depth line then
                 if tl_path line = [] then None
                 else (let parent_path = butlast (tl_path line)
                       in case position (\<lambda>l. tl_path l = parent_path) tree_lines of
                            Some idx \<Rightarrow> Some (v\<lparr>vs_cursor := idx\<rparr>)
                          | None \<Rightarrow> Some v)
               else Some v))"

definition file_key_effect ::
    "key_event \<Rightarrow> nat \<Rightarrow> tree_line list \<Rightarrow> u32 list \<Rightarrow> nat \<Rightarrow> view_state \<Rightarrow> view_state option" where
  "file_key_effect key flat_child_count tree_lines process_pids page_height v =
     (let page_height = max page_height 1; last = last_file_row flat_child_count tree_lines v; code = k_code key
      in if code = UpKey \<or> code = typed (CHR ''k'') then
           Some (if 0 < vs_cursor v then v\<lparr>vs_cursor := vs_cursor v - 1\<rparr> else v)
         else if code = DownKey \<or> code = typed (CHR ''j'') then
           Some (if vs_cursor v < last then v\<lparr>vs_cursor := vs_cursor v + 1\<rparr> else v)
         else if code = HomeKey \<or> code = typed (CHR ''g'') then Some (v\<lparr>vs_cursor := 0\<rparr>)
         else if code = EndKey \<or> code = typed (CHR ''G'') then Some (v\<lparr>vs_cursor := last\<rparr>)
         else if code = PageUpKey then Some (v\<lparr>vs_cursor := vs_cursor v - page_height\<rparr>)
         else if code = PageDownKey then
           Some (v\<lparr>vs_cursor := min (usize_sat_add (vs_cursor v) page_height) last\<rparr>)
         else if code = EnterKey \<or> code = RightKey \<or> code = typed (CHR ''l'') then Some (expand_line tree_lines v)
         else if code = LeftKey \<or> code = typed (CHR ''h'') \<or> code = BackspaceKey then go_up tree_lines v
         else if code = typed (CHR ''s'') then Some (v\<lparr>vs_sort_by := sort_next (vs_sort_by v)\<rparr>)
         else if code = typed (CHR ''S'') then Some (v\<lparr>vs_sort_desc := \<not> vs_sort_desc v\<rparr>)
         else if code = typed (CHR ''/'') then Some (open_filter_editor v)
         else if code = typed (CHR ''p'') then
           Some (let v = v\<lparr>vs_show_processes := \<not> vs_show_processes v\<rparr>
                 in if \<not> vs_show_processes v then v\<lparr>vs_focus := FilesPane\<rparr> else v)
         else if code = typed (CHR ''P'') then
           Some (reconcile_process_selection process_pids (v\<lparr>vs_show_processes := True, vs_focus := ProcessesPane\<rparr>))
         else if code = typed (CHR ''?'') then Some (v\<lparr>vs_show_help := True\<rparr>)
         else Some v)"

text \<open>
  The controls that work in every pane and in the filter editor: \<open>Some\<close> the answer, the view and
  the reset flag when the key is one of them.
\<close>

definition global_key :: "key_event \<Rightarrow> view_state \<Rightarrow> bool \<Rightarrow> (bool \<times> view_state \<times> bool) option" where
  "global_key key v should_reset =
     (let code = k_code key
      in if code = typed (CHR ''q'') then Some (True, v, should_reset)
         else if code = typed (CHR ''c'') \<and> k_control key then Some (True, v, should_reset)
         else if code = typed (CHR ''r'') then Some (False, v, True)
         else if code = TabKey then
           Some (False,
             v\<lparr>vs_mode := (case vs_mode v of FlatMode \<Rightarrow> TreeMode | TreeMode \<Rightarrow> FlatMode), vs_cursor := 0\<rparr>,
             should_reset)
         else if code = EscKey then
           Some (False,
             (if vs_filter_input v \<noteq> None then v\<lparr>vs_filter_input := None, vs_filter_error := None\<rparr>
              else if vs_focus v = ProcessesPane then v\<lparr>vs_focus := FilesPane\<rparr>
              else v\<lparr>vs_filter := empty_query, vs_filter_error := None, vs_cursor := 0\<rparr>),
             should_reset)
         else None)"

definition handle_key_with_page_height ::
    "(string \<Rightarrow> string) \<Rightarrow> key_event \<Rightarrow> view_state \<Rightarrow> nat \<Rightarrow> tree_line list \<Rightarrow> u32 list \<Rightarrow> nat \<Rightarrow> bool
      \<Rightarrow> (bool \<times> view_state \<times> bool) option" where
  "handle_key_with_page_height lower key v flat_child_count tree_lines process_pids page_height should_reset =
     (if vs_show_help v then Some (False, v\<lparr>vs_show_help := False\<rparr>, should_reset)
      else case global_key key v should_reset of
             Some r \<Rightarrow> Some r
           | None \<Rightarrow>
               map_option (\<lambda>v. (False, v, should_reset))
                 (if vs_filter_input v \<noteq> None then Some (handle_filter_input lower key v)
                  else if vs_focus v = ProcessesPane then handle_process_key lower key process_pids page_height v
                  else file_key_effect key flat_child_count tree_lines process_pids page_height v))"

definition handle_key ::
    "(string \<Rightarrow> string) \<Rightarrow> key_event \<Rightarrow> view_state \<Rightarrow> nat \<Rightarrow> tree_line list \<Rightarrow> u32 list \<Rightarrow> bool
      \<Rightarrow> (bool \<times> view_state \<times> bool) option" where
  "handle_key lower key v flat_child_count tree_lines process_pids should_reset =
     handle_key_with_page_height lower key v flat_child_count tree_lines process_pids 20 should_reset"

subsection \<open>No key press panics\<close>

lemma pid_filter_eq:
  "pid_filter lower pid = Some \<lparr>fq_raw = ''pid:'' @ show_word pid, fq_terms = [PidTerm pid]\<rparr>"
  by (simp only: pid_filter_def parse_pid_query sum.case)

text \<open>A branch that returns in both cases returns.\<close>

lemma some_branches:
  "(if c then Some a else Some b) = Some (if c then a else b)"
  "(case x of None \<Rightarrow> Some d | Some y \<Rightarrow> Some (f y)) = Some (case x of None \<Rightarrow> d | Some y \<Rightarrow> f y)"
  by (simp_all split: option.split)

lemma process_key_total: "\<exists>v'. process_key_effect lower key process_pids page_height v = Some v'"
  unfolding process_key_effect_def Let_def pid_filter_eq option.case some_branches by blast

lemma handle_process_key_total: "\<exists>v'. handle_process_key lower key process_pids page_height v = Some v'"
  using process_key_total [of lower key process_pids page_height v] by (auto simp: handle_process_key_def)

lemma go_up_total:
  assumes "list_all (\<lambda>line. tl_path line \<noteq> []) tree_lines"
  shows "\<exists>v'. go_up tree_lines v = Some v'"
proof -
  have "tl_path line \<noteq> []" if "get_at i tree_lines = Some line" for i line
    using that assms by (auto simp: get_at_def list_all_length split: if_splits)
  then show ?thesis
    by (auto simp: go_up_def Let_def split: view_mode.split option.split)
qed

lemma file_key_total:
  assumes "list_all (\<lambda>line. tl_path line \<noteq> []) tree_lines"
  shows "\<exists>v'. file_key_effect key flat_count tree_lines process_pids page_height v = Some v'"
proof -
  obtain u where "go_up tree_lines v = Some u" using go_up_total [OF assms] by blast
  then show ?thesis unfolding file_key_effect_def Let_def some_branches by (simp only: some_branches) blast
qed

lemma handle_key_total:
  assumes "list_all (\<lambda>line. tl_path line \<noteq> []) tree_lines"
  shows "\<exists>quit v' reset'. handle_key_with_page_height lower key v flat_count tree_lines process_pids page_height reset = Some (quit, v', reset')"
proof -
  obtain v1 where v1: "handle_process_key lower key process_pids page_height v = Some v1"
    using handle_process_key_total by blast
  obtain v2 where v2: "file_key_effect key flat_count tree_lines process_pids page_height v = Some v2"
    using file_key_total [OF assms] by blast
  show ?thesis
    by (cases "global_key key v reset") (auto simp: handle_key_with_page_height_def v1 v2)
qed

subsection \<open>Going up in the tree\<close>

lemma position_Some:
  "position P xs = Some i \<longleftrightarrow> i < length xs \<and> P (xs ! i) \<and> (\<forall>j < i. \<not> P (xs ! j))"
proof (induction xs arbitrary: i)
  case (Cons x xs)
  then show ?case by (cases i) (auto simp: nth_Cons split: nat.split)
qed simp

lemma position_exists: "i < length xs \<Longrightarrow> P (xs ! i) \<Longrightarrow> \<exists>j \<le> i. position P xs = Some j \<and> P (xs ! j)"
proof (induction xs arbitrary: i)
  case (Cons x xs)
  show ?case
  proof (cases "P x \<or> i = 0")
    case True
    with Cons.prems show ?thesis by (cases i) auto
  next
    case False
    then obtain k where "i = Suc k" by (cases i) auto
    with Cons False obtain j where "j \<le> k" "position P xs = Some j" "P (xs ! j)" by auto
    with False \<open>i = Suc k\<close> show ?thesis by (intro exI [of _ "Suc j"]) simp
  qed
qed simp

text \<open>On a nested line that is not an unfolded directory, going up selects the line of its directory.\<close>

lemma go_up_selects_directory:
  assumes "nested [[]] tree_lines" and "vs_mode v = TreeMode" and "vs_cursor v < length tree_lines"
    and "line = tree_lines ! vs_cursor v" and "\<not> (tl_is_dir line \<and> tl_is_expanded line)"
    and "0 < tl_depth line" and "tl_depth line = length (tl_path line) - 1"
  shows "\<exists>j < vs_cursor v. go_up tree_lines v = Some (v\<lparr>vs_cursor := j\<rparr>) \<and>
    tl_path (tree_lines ! j) = butlast (tl_path line)"
proof -
  have "tl_path line \<noteq> []" "butlast (tl_path line) \<noteq> []"
    using assms(6,7) by (cases "tl_path line" rule: rev_cases; auto)+
  with nested_parent_index [OF assms(1,3)] assms(4) obtain i
    where i: "i < vs_cursor v" "tl_path (tree_lines ! i) = butlast (tl_path line)" by auto
  then obtain j where "j \<le> i" "position (\<lambda>l. tl_path l = butlast (tl_path line)) tree_lines = Some j"
      "tl_path (tree_lines ! j) = butlast (tl_path line)"
    using position_exists [of i tree_lines "\<lambda>l. tl_path l = butlast (tl_path line)"] assms(3) by auto
  with i(1) assms(2-6) \<open>tl_path line \<noteq> []\<close> show ?thesis
    by (intro exI [of _ j]) (auto simp: go_up_def get_at_def Let_def)
qed

subsection \<open>What can be typed into the filter editor\<close>

lemma encode_utf8_ascii:
  assumes "c \<in> set (encode_utf8 n)" and "(of_char c :: nat) < 128"
  shows "n = of_char c"
proof -
  obtain k where k: "c = char_of k" "k \<in> set
      (if n < 0x80 then [n]
       else if n < 0x800 then [0xC0 + n div 64, 0x80 + n mod 64]
       else if n < 0x10000 then [0xE0 + n div 4096, 0x80 + n div 64 mod 64, 0x80 + n mod 64]
       else [0xF0 + n div 262144 mod 8, 0x80 + n div 4096 mod 64, 0x80 + n div 64 mod 64, 0x80 + n mod 64 :: nat])"
    using assms(1) by (auto simp: encode_utf8_def)
  have small: "k < 256"
    using k(2) by (auto split: if_splits intro: less_le_trans [OF mod_less_divisor])
  then have "(of_char c :: nat) = k" by (simp add: k(1))
  with assms(2) k(2) show ?thesis by (auto split: if_splits)
qed

lemma set_trim_start: "set (trim_start s) \<subseteq> set s"
proof (induction s rule: trim_start.induct)
  case (1 s)
  then show ?case by (subst trim_start.simps) (auto dest: in_set_dropD)
qed

lemma set_trim_end: "set (trim_end s) \<subseteq> set s"
proof (induction s rule: trim_end.induct)
  case (1 s)
  then show ?case by (subst trim_end.simps) (auto dest: in_set_takeD)
qed

lemma set_trim: "set (trim s) \<subseteq> set s"
  using set_trim_end [of "trim_start s"] set_trim_start [of s] by (simp add: trim_def)

lemma set_pop_char: "set (pop_char s) \<subseteq> set s"
proof -
  have "set (tl xs) \<subseteq> set xs" for xs :: string
    by (cases xs) auto
  from this [of "dropWhile cont_byte (rev s)"] show ?thesis
    using set_dropWhileD [of _ cont_byte "rev s"] unfolding pop_char_def by auto
qed

lemma parse_query_raw: "parse_query lower input = Inr q \<Longrightarrow> fq_raw q = trim input"
  by (auto simp: parse_query_def split: sum.splits)

text \<open>The texts of a view: the applied filter's and the one being edited.\<close>

definition filter_texts :: "view_state \<Rightarrow> string list" where
  "filter_texts v = fq_raw (vs_filter v) # (case vs_filter_input v of None \<Rightarrow> [] | Some s \<Rightarrow> [s])"

definition without :: "char set \<Rightarrow> view_state \<Rightarrow> bool" where
  "without cs v \<longleftrightarrow> list_all (\<lambda>s. set s \<inter> cs = {}) (filter_texts v)"

lemma without_alt:
  "without cs v \<longleftrightarrow> set (fq_raw (vs_filter v)) \<inter> cs = {} \<and>
     (case vs_filter_input v of None \<Rightarrow> True | Some s \<Rightarrow> set s \<inter> cs = {})"
  by (auto simp: without_def filter_texts_def split: option.split)

lemma without_cong:
  "vs_filter v' = vs_filter v \<Longrightarrow> vs_filter_input v' = vs_filter_input v \<Longrightarrow> without cs v' = without cs v"
  by (simp add: without_alt)

lemma without_frames [simp]:
  "without cs (v\<lparr>vs_mode := m\<rparr>) = without cs v" "without cs (v\<lparr>vs_cwd := w\<rparr>) = without cs v"
  "without cs (v\<lparr>vs_cursor := n\<rparr>) = without cs v" "without cs (v\<lparr>vs_expanded := e\<rparr>) = without cs v"
  "without cs (v\<lparr>vs_sort_by := k\<rparr>) = without cs v" "without cs (v\<lparr>vs_sort_desc := b\<rparr>) = without cs v"
  "without cs (v\<lparr>vs_show_processes := b\<rparr>) = without cs v" "without cs (v\<lparr>vs_focus := f\<rparr>) = without cs v"
  "without cs (v\<lparr>vs_process_cursor := n\<rparr>) = without cs v" "without cs (v\<lparr>vs_selected_process := p\<rparr>) = without cs v"
  "without cs (v\<lparr>vs_process_sort := ps\<rparr>) = without cs v" "without cs (v\<lparr>vs_process_sort_desc := b\<rparr>) = without cs v"
  "without cs (v\<lparr>vs_show_help := b\<rparr>) = without cs v" "without cs (v\<lparr>vs_filter_error := e'\<rparr>) = without cs v"
  by (simp_all add: without_alt)

lemma without_editor: "without cs v \<Longrightarrow> without cs (open_filter_editor v)"
  by (simp add: without_alt open_filter_editor_def)

lemma without_reconcile [simp]: "without cs (reconcile_process_selection pids v) = without cs v"
  by (rule without_cong) (auto simp: reconcile_process_selection_def Let_def split: option.split)

lemma without_filter_input:
  assumes "without cs v" and "\<And>n. k_code key = CharKey n \<Longrightarrow> set (encode_utf8 n) \<inter> cs = {}"
  shows "without cs (handle_filter_input lower key v)"
proof (cases "k_code key")
  case EnterKey
  let ?input = "case vs_filter_input v of None \<Rightarrow> [] | Some s \<Rightarrow> s"
  have "set (trim ?input) \<inter> cs = {}"
    using assms(1) set_trim [of ?input] by (auto simp: without_alt split: option.splits)
  with EnterKey assms(1) show ?thesis
    by (auto simp: handle_filter_input_def without_alt parse_query_raw Let_def split: sum.split)
next
  case BackspaceKey
  with assms(1) set_pop_char show ?thesis
    by (fastforce simp: handle_filter_input_def without_alt split: option.splits)
next
  case (CharKey n)
  with assms show ?thesis
    by (auto simp: handle_filter_input_def without_alt split: option.splits)
qed (use assms(1) in \<open>simp_all add: handle_filter_input_def without_alt\<close>)

lemma without_go_up: "without cs v \<Longrightarrow> go_up tree_lines v = Some v' \<Longrightarrow> without cs v'"
  by (auto simp: go_up_def Let_def split: view_mode.splits option.splits if_splits)

lemma without_expand: "without cs (expand_line tree_lines v) = without cs v"
  by (rule without_cong) (auto simp: expand_line_def split: view_mode.splits option.splits)

lemma without_file_key:
  "without cs v \<Longrightarrow> file_key_effect key flat_count tree_lines process_pids page_height v = Some v' \<Longrightarrow> without cs v'"
  unfolding file_key_effect_def Let_def
  by (auto simp: without_expand without_editor split: if_splits dest: without_go_up)

lemma show_nat_text: "c \<in> set (show_nat n) \<Longrightarrow> 48 \<le> (of_char c :: nat) \<and> (of_char c :: nat) \<le> 57"
  using show_nat_digits [of c n] by (auto simp: digit_value_def split: if_splits)

lemma pid_text: "set (''pid:'' @ show_word pid) \<inter> {CHR ''q'', CHR ''r''} = {}"
  using show_nat_text by (fastforce simp: show_word_def)

lemma without_process_key:
  assumes "without {CHR ''q'', CHR ''r''} v"
    and "handle_process_key lower key process_pids page_height v = Some v'"
  shows "without {CHR ''q'', CHR ''r''} v'"
proof -
  have "without {CHR ''q'', CHR ''r''} (v\<lparr>vs_filter := \<lparr>fq_raw = ''pid:'' @ show_word pid, fq_terms = [PidTerm pid]\<rparr>,
      vs_cursor := 0, vs_focus := FilesPane\<rparr>)" for pid
    using assms(1) pid_text [of pid] by (simp add: without_alt del: append.simps)
  then have "without {CHR ''q'', CHR ''r''} u"
    if "process_key_effect lower key process_pids page_height v = Some u" for u
    using that assms(1) unfolding process_key_effect_def Let_def pid_filter_eq
    by (auto simp: without_editor split: if_splits option.splits)
  with assms(2) show ?thesis
    by (auto simp: handle_process_key_def split: option.splits)
qed

text \<open>One key press in an arbitrary state of the lists it is handled against.\<close>

record key_press =
  kp_key :: key_event
  kp_flat_count :: nat
  kp_lines :: "tree_line list"
  kp_pids :: "u32 list"
  kp_page_height :: nat

fun type_keys :: "(string \<Rightarrow> string) \<Rightarrow> key_press list \<Rightarrow> view_state \<Rightarrow> view_state option" where
  "type_keys lower [] v = Some v"
| "type_keys lower (p # ps) v =
     (case handle_key_with_page_height lower (kp_key p) v (kp_flat_count p) (kp_lines p) (kp_pids p)
             (kp_page_height p) False of
        None \<Rightarrow> None
      | Some (quit, v, reset) \<Rightarrow> if quit then Some v else type_keys lower ps v)"

lemma without_global_key:
  "without cs v \<Longrightarrow> global_key key v reset = Some (quit, v', reset') \<Longrightarrow> without cs v'"
  unfolding global_key_def Let_def
  by (auto simp: without_alt empty_query_def split: if_splits)

lemma typed_char_neq: "global_key key v reset = None \<Longrightarrow> k_code key = CharKey n \<Longrightarrow>
    set (encode_utf8 n) \<inter> {CHR ''q'', CHR ''r''} = {}"
  using encode_utf8_ascii [of "CHR ''q''" n] encode_utf8_ascii [of "CHR ''r''" n]
  by (auto simp: global_key_def Let_def typed_def split: if_splits)

lemma without_handle_key:
  assumes "without {CHR ''q'', CHR ''r''} v"
    and "handle_key_with_page_height lower key v flat_count tree_lines process_pids page_height reset = Some (quit, v', reset')"
  shows "without {CHR ''q'', CHR ''r''} v'"
proof (cases "vs_show_help v")
  case True
  with assms show ?thesis by (auto simp: handle_key_with_page_height_def)
next
  case False
  show ?thesis
  proof (cases "global_key key v reset")
    case None
    with False assms without_filter_input [OF assms(1) typed_char_neq [OF None]]
      without_process_key [OF assms(1)] without_file_key [OF assms(1)]
    show ?thesis by (auto simp: handle_key_with_page_height_def split: if_splits)
  next
    case (Some r)
    with False assms without_global_key [OF assms(1)] show ?thesis
      by (auto simp: handle_key_with_page_height_def)
  qed
qed

lemma contains_proc: "contains ''proc:'' s \<Longrightarrow> CHR ''r'' \<in> set s"
  by (auto simp: contains_iff)

text \<open>(C40) The keys \<open>q\<close> and \<open>r\<close> act before the filter editor sees them, so whatever is typed from
  the start of the program, in whatever state of the lists, neither character ever stands in the
  edited text or in the text of an applied filter: the filter fields \<open>proc:\<close>, \<open>process:\<close> and
  \<open>container:\<close> cannot be entered as the parser spells them.\<close>

theorem filter_text_never_has_q_or_r:
  assumes "type_keys lower presses new_view_state = Some v"
  shows "list_all (\<lambda>s. CHR ''q'' \<notin> set s \<and> CHR ''r'' \<notin> set s \<and>
     \<not> contains ''proc:'' s \<and> \<not> contains ''process:'' s \<and> \<not> contains ''container:'' s) (filter_texts v)"
proof -
  have run: "without {CHR ''q'', CHR ''r''} u \<Longrightarrow> type_keys lower ps u = Some w \<Longrightarrow> without {CHR ''q'', CHR ''r''} w" for ps u w
  proof (induction ps arbitrary: u)
    case (Cons p ps)
    then show ?case by (auto split: option.splits if_splits dest: without_handle_key)
  qed simp
  have "without {CHR ''q'', CHR ''r''} new_view_state"
    by (simp add: without_alt new_view_state_def empty_query_def)
  from run [OF this assms] show ?thesis
    by (auto simp: without_def list_all_iff contains_iff)
qed

definition plain_press :: "char \<Rightarrow> key_press" where
  "plain_press c =
     \<lparr>kp_key = \<lparr>k_code = typed c, k_control = False, k_alt = False\<rparr>, kp_flat_count = 0, kp_lines = [],
      kp_pids = [], kp_page_height = 20\<rparr>"

lemma filter_text_never_has_q_or_r_witness:
  "\<exists>v. type_keys (\<lambda>s. s) (map plain_press ''/proc:'') new_view_state = Some v \<and>
     vs_filter_input v = Some ''poc:'' \<and> list_all (\<lambda>s. CHR ''r'' \<notin> set s) (filter_texts v)"
proof -
  have "map_option vs_filter_input (type_keys (\<lambda>s. s) (map plain_press ''/proc:'') new_view_state) = Some (Some ''poc:'')"
    by code_simp
  then obtain v where v: "type_keys (\<lambda>s. s) (map plain_press ''/proc:'') new_view_state = Some v"
      "vs_filter_input v = Some ''poc:''"
    by blast
  with filter_text_never_has_q_or_r [OF v(1)] show ?thesis
    by (auto simp: list_all_iff)
qed

end
