(* ===== verification/Session.thy ===== *)
theory Session
  imports Input App_State
begin

section \<open>The render loop (ncda/src/tui/mod.rs)\<close>

text \<open>
  \<open>run_with_shutdown\<close> as a sequence of turns. A turn reconciles the selection with the shared
  state and draws, then handles at most one key press. The aggregator changes the shared state
  whenever the loop does not hold its lock, so every lock acquisition of a turn sees a snapshot of
  its own: \<open>tn_drawn\<close> when the frame is drawn, then \<open>kt_rows\<close>, \<open>kt_selection\<close> and \<open>kt_processes\<close>
  while a key is handled. The terminal's page height is an input of the turn. Polling, drawing
  and the terminal itself are left aside.
\<close>

subsection \<open>Definitions\<close>

definition rows_shown :: "(string \<Rightarrow> string) \<Rightarrow> app_state \<Rightarrow> view_state \<Rightarrow> flat_row list" where
  "rows_shown lower s v =
     visible_rows lower (as_tree s) (vs_cwd v) (vs_sort_by v) (vs_sort_desc v) (vs_filter v) (as_procs s)"

definition lines_shown :: "(string \<Rightarrow> string) \<Rightarrow> app_state \<Rightarrow> view_state \<Rightarrow> tree_line list" where
  "lines_shown lower s v =
     flatten lower (as_tree s) (vs_expanded v) (vs_sort_by v) (vs_sort_desc v) (vs_filter v) (as_procs s)"

definition pids_shown :: "(string \<Rightarrow> string) \<Rightarrow> app_state \<Rightarrow> view_state \<Rightarrow> u32 list" where
  "pids_shown lower s v =
     map pi_pid (visible_processes lower (as_tree s) (vs_filter v) (as_procs s) (vs_process_sort v) (vs_process_sort_desc v))"

definition displayed_paths :: "(string \<Rightarrow> string) \<Rightarrow> app_state \<Rightarrow> view_state \<Rightarrow> string list" where
  "displayed_paths lower s v =
     (case vs_mode v of
        FlatMode \<Rightarrow> map fr_path (rows_shown lower s v)
      | TreeMode \<Rightarrow> map tl_display_path (lines_shown lower s v))"

definition is_flat_drill_key :: "key_event \<Rightarrow> bool" where
  "is_flat_drill_key key \<longleftrightarrow> k_code key \<in> {EnterKey, RightKey, typed (CHR ''l'')}"

definition is_file_navigation_key :: "key_event \<Rightarrow> bool" where
  "is_file_navigation_key key \<longleftrightarrow>
     k_code key \<in> {UpKey, DownKey, LeftKey, RightKey, HomeKey, EndKey, PageUpKey, PageDownKey, BackspaceKey, EnterKey} \<or>
     k_code key \<in> typed ` {CHR ''j'', CHR ''k'', CHR ''g'', CHR ''G'', CHR ''h'', CHR ''l''}"

definition selection_identity :: "(string \<Rightarrow> string) \<Rightarrow> app_state \<Rightarrow> view_state \<Rightarrow> string option" where
  "selection_identity lower s v =
     (case vs_mode v of
        FlatMode \<Rightarrow> map_option fr_path (get_at (vs_cursor v) (rows_shown lower s v))
      | TreeMode \<Rightarrow> map_option tl_display_path (get_at (vs_cursor v) (lines_shown lower s v)))"

type_synonym ui = "view_state \<times> string option"

definition reconcile_file_selection :: "(string \<Rightarrow> string) \<Rightarrow> app_state \<Rightarrow> ui \<Rightarrow> ui" where
  "reconcile_file_selection lower s u =
     (case u of (v, selected_path) \<Rightarrow>
        let paths = displayed_paths lower s v
        in if paths = [] then (v\<lparr>vs_cursor := 0\<rparr>, None)
           else case (case selected_path of None \<Rightarrow> None | Some selected \<Rightarrow> position (\<lambda>path. path = selected) paths) of
                  Some index \<Rightarrow> (v\<lparr>vs_cursor := index\<rparr>, selected_path)
                | None \<Rightarrow>
                    let c = min (vs_cursor v) (length paths - 1)
                    in (v\<lparr>vs_cursor := c\<rparr>, Some (paths ! c)))"

text \<open>Drilling into the directory under the cursor, which needs the tree.\<close>

definition drill_in :: "(string \<Rightarrow> string) \<Rightarrow> app_state \<Rightarrow> ui \<Rightarrow> ui" where
  "drill_in lower s u =
     (case u of (v, selected_path) \<Rightarrow>
        (case get_at (vs_cursor v) (rows_shown lower s v) of
           None \<Rightarrow> u
         | Some row \<Rightarrow>
             if fr_is_dir row then
               let v = v\<lparr>vs_cwd := vs_cwd v @ [fr_name row], vs_cursor := 0\<rparr>
               in (v, selection_identity lower s v)
             else u))"

record key_turn =
  kt_key :: key_event
  kt_page_height :: nat
  kt_rows :: app_state
  kt_selection :: app_state
  kt_processes :: app_state

text \<open>What follows the key handler: the selection and the process cursor are reconciled.\<close>

definition settle :: "(string \<Rightarrow> string) \<Rightarrow> key_turn \<Rightarrow> view_mode \<Rightarrow> bool \<Rightarrow> bool \<Rightarrow> ui \<Rightarrow> ui" where
  "settle lower k old_mode file_navigation should_reset u =
     (case u of (v, selected_path) \<Rightarrow>
        let (v, selected_path) =
              (if should_reset then (v\<lparr>vs_cursor := 0\<rparr>, None)
               else let selected_path = (if vs_mode v \<noteq> old_mode then None else selected_path)
                    in if file_navigation then (v, selection_identity lower (kt_selection k) v)
                       else reconcile_file_selection lower (kt_selection k) (v, selected_path))
        in (reconcile_process_selection (pids_shown lower (kt_processes k) v) v, selected_path))"

definition press_key :: "(string \<Rightarrow> string) \<Rightarrow> key_turn \<Rightarrow> ui \<Rightarrow> (bool \<times> bool \<times> ui) option" where
  "press_key lower k u =
     (case u of (v, selected_path) \<Rightarrow>
        if is_flat_drill_key (kt_key k) \<and> \<not> vs_show_help v \<and> vs_mode v = FlatMode \<and>
           vs_focus v = FilesPane \<and> vs_filter_input v = None
        then Some (False, False, drill_in lower (kt_rows k) u)
        else
          let flat_count = length (rows_shown lower (kt_rows k) v);
              tree_lines = lines_shown lower (kt_rows k) v;
              process_pids = pids_shown lower (kt_rows k) v;
              v = reconcile_process_selection process_pids v;
              file_navigation = (vs_focus v = FilesPane \<and> vs_filter_input v = None \<and> is_file_navigation_key (kt_key k));
              old_mode = vs_mode v
          in case handle_key_with_page_height lower (kt_key k) v flat_count tree_lines process_pids (kt_page_height k) False of
               None \<Rightarrow> None
             | Some (quit, v, should_reset) \<Rightarrow>
                 Some (quit, should_reset, settle lower k old_mode file_navigation should_reset (v, selected_path)))"

record turn =
  tn_drawn :: app_state
  tn_key :: "key_turn option"

text \<open>
  The frames a sequence of turns draws, the state and the selection each one shows, and whether
  the user has quit.
\<close>

fun render_loop :: "(string \<Rightarrow> string) \<Rightarrow> turn list \<Rightarrow> ui \<Rightarrow> ((app_state \<times> ui) list \<times> bool) option" where
  "render_loop lower [] u = Some ([], False)"
| "render_loop lower (t # ts) u =
     (let u = reconcile_file_selection lower (tn_drawn t) u; frame = (tn_drawn t, u)
      in case tn_key t of
           None \<Rightarrow> map_option (\<lambda>(frames, quit). (frame # frames, quit)) (render_loop lower ts u)
         | Some k \<Rightarrow>
             (case press_key lower k u of
                None \<Rightarrow> None
              | Some (quit, reset, u) \<Rightarrow>
                  if quit then Some ([frame], True)
                  else map_option (\<lambda>(frames, quit). (frame # frames, quit)) (render_loop lower ts u)))"

subsection \<open>Every frame is drawn with a valid selection\<close>

definition frame_ok :: "(string \<Rightarrow> string) \<Rightarrow> app_state \<times> ui \<Rightarrow> bool" where
  "frame_ok lower frame =
     (case frame of (s, v, selected_path) \<Rightarrow>
        let paths = displayed_paths lower s v
        in if paths = [] then vs_cursor v = 0 \<and> selected_path = None
           else vs_cursor v < length paths \<and> selected_path = Some (paths ! vs_cursor v))"

lemma displayed_paths_cursor [simp]: "displayed_paths lower s (v\<lparr>vs_cursor := n\<rparr>) = displayed_paths lower s v"
  by (simp add: displayed_paths_def rows_shown_def lines_shown_def split: view_mode.split)

lemma reconcile_frame_ok: "frame_ok lower (s, reconcile_file_selection lower s u)"
proof (cases u)
  case (Pair v sel)
  have "length paths - 1 < length paths" if "paths \<noteq> []" for paths :: "string list"
    using that by (cases paths) auto
  with Pair show ?thesis
    by (auto simp: reconcile_file_selection_def frame_ok_def Let_def position_Some min_def split: option.split)
      (metis Suc_pred length_greater_0_conv less_Suc_eq_le linorder_not_le)+
qed

lemma press_key_total: "\<exists>quit reset u'. press_key lower k u = Some (quit, reset, u')"
proof -
  obtain v sel where u: "u = (v, sel)" by (cases u)
  let ?v = "reconcile_process_selection (pids_shown lower (kt_rows k) v) v"
  have "list_all (\<lambda>line. tl_path line \<noteq> []) (lines_shown lower (kt_rows k) v)"
    by (simp add: lines_shown_def flatten_paths)
  from handle_key_total [OF this] obtain q v' r
    where "handle_key_with_page_height lower (kt_key k) ?v (length (rows_shown lower (kt_rows k) v))
      (lines_shown lower (kt_rows k) v) (pids_shown lower (kt_rows k) v) (kt_page_height k) False = Some (q, v', r)"
    by blast
  then show ?thesis by (auto simp: press_key_def u Let_def intro: exI [of _ False])
qed

text \<open>(C19) The render loop never panics, whatever keys are pressed and however the shared state
  changes between any two of its lock acquisitions, and every frame it draws highlights a row
  that exists: the cursor is inside the drawn list and the remembered path is the path of the
  highlighted row, or the list is empty and nothing is selected. Every turn draws its frame
  unless the user has quit before.\<close>

theorem render_loop_sound:
  "\<exists>frames quit. render_loop lower turns u = Some (frames, quit) \<and> list_all (frame_ok lower) frames \<and>
     map fst frames = map tn_drawn (take (length frames) turns) \<and> (quit \<or> length frames = length turns)"
proof (induction turns arbitrary: u)
  case (Cons t ts)
  let ?u = "reconcile_file_selection lower (tn_drawn t) u"
  show ?case
  proof (cases "tn_key t")
    case None
    obtain frames quit where "render_loop lower ts ?u = Some (frames, quit)" "list_all (frame_ok lower) frames"
      "map fst frames = map tn_drawn (take (length frames) ts)" "quit \<or> length frames = length ts"
      using Cons.IH by blast
    with None reconcile_frame_ok [of lower "tn_drawn t" u] show ?thesis by (simp add: Let_def)
  next
    case (Some k)
    obtain stop reset u' where p: "press_key lower k ?u = Some (stop, reset, u')"
      using press_key_total by blast
    obtain frames quit where "render_loop lower ts u' = Some (frames, quit)" "list_all (frame_ok lower) frames"
      "map fst frames = map tn_drawn (take (length frames) ts)" "quit \<or> length frames = length ts"
      using Cons.IH by blast
    with Some p reconcile_frame_ok [of lower "tn_drawn t" u] show ?thesis
      by (cases stop) (auto simp: Let_def)
  qed
qed (auto intro: exI [of _ False])

subsection \<open>The selection follows its file\<close>

text \<open>The keys that may select another file: navigation in the file pane, and the change of view.\<close>

definition selects :: "key_event \<Rightarrow> view_state \<Rightarrow> bool" where
  "selects key v \<longleftrightarrow> vs_focus v = FilesPane \<and> vs_filter_input v = None \<and> is_file_navigation_key key \<or> k_code key = TabKey"

lemma mode_frames [simp]:
  "vs_mode (reconcile_process_selection pids v) = vs_mode v"
  "vs_focus (reconcile_process_selection pids v) = vs_focus v"
  "vs_filter_input (reconcile_process_selection pids v) = vs_filter_input v"
  "vs_cursor (reconcile_process_selection pids v) = vs_cursor v"
  "displayed_paths lower s (reconcile_process_selection pids v) = displayed_paths lower s v"
  by (auto simp: reconcile_process_selection_def displayed_paths_def rows_shown_def lines_shown_def Let_def
      split: option.split view_mode.split)

lemma mode_editor: "vs_mode (open_filter_editor v) = vs_mode v" "vs_mode (handle_filter_input lower key v) = vs_mode v"
  by (auto simp: open_filter_editor_def handle_filter_input_def Let_def split: key_code.split sum.split)

lemma mode_go_up: "go_up tree_lines v = Some v' \<Longrightarrow> vs_mode v' = vs_mode v"
  by (auto simp: go_up_def Let_def split: view_mode.splits option.splits if_splits)

lemma mode_expand: "vs_mode (expand_line tree_lines v) = vs_mode v"
  by (auto simp: expand_line_def split: view_mode.splits option.splits)

lemma mode_file_key:
  "file_key_effect key flat_count tree_lines process_pids page_height v = Some v' \<Longrightarrow> vs_mode v' = vs_mode v"
  unfolding file_key_effect_def Let_def
  by (auto simp: mode_editor mode_expand split: if_splits dest: mode_go_up)

lemma mode_process_key:
  "handle_process_key lower key process_pids page_height v = Some v' \<Longrightarrow> vs_mode v' = vs_mode v"
  unfolding handle_process_key_def process_key_effect_def Let_def pid_filter_eq
  by (auto simp: mode_editor split: if_splits option.splits)

lemma mode_handle_key:
  assumes "handle_key_with_page_height lower key v flat_count tree_lines process_pids page_height reset = Some (quit, v', reset')"
    and "k_code key \<noteq> TabKey"
  shows "vs_mode v' = vs_mode v"
proof (cases "vs_show_help v")
  case True
  with assms(1) show ?thesis by (auto simp: handle_key_with_page_height_def)
next
  case False
  show ?thesis
  proof (cases "global_key key v reset")
    case None
    with False assms(1) show ?thesis
      by (auto simp: handle_key_with_page_height_def mode_editor split: if_splits
          dest: mode_process_key mode_file_key)
  next
    case (Some r)
    with assms(2) have "vs_mode (fst (snd r)) = vs_mode v"
      unfolding global_key_def Let_def by (auto split: if_splits)
    with False Some assms(1) show ?thesis
      by (simp add: handle_key_with_page_height_def)
  qed
qed

lemma reconcile_found:
  assumes "p \<in> set (displayed_paths lower s v)"
  shows "\<exists>i < length (displayed_paths lower s v). displayed_paths lower s v ! i = p \<and>
    reconcile_file_selection lower s (v, Some p) = (v\<lparr>vs_cursor := i\<rparr>, Some p)"
proof -
  obtain k where "k < length (displayed_paths lower s v)" "displayed_paths lower s v ! k = p"
    using assms by (auto simp: in_set_conv_nth)
  then obtain i where "position (\<lambda>path. path = p) (displayed_paths lower s v) = Some i" "i \<le> k"
      "displayed_paths lower s v ! i = p"
    using position_exists [of k "displayed_paths lower s v" "\<lambda>path. path = p"] by auto
  with \<open>k < length (displayed_paths lower s v)\<close> assms show ?thesis
    by (intro exI [of _ i]) (auto simp: reconcile_file_selection_def Let_def)
qed

text \<open>(C25) The selection follows its file: after any key that does not navigate the file pane, change
  the view or reset the counters, whatever filter or sort order it sets and whatever the shared
  state becomes meanwhile, a selected path that is still listed when the key is handled and when
  the next frame is drawn is highlighted in that frame.\<close>

theorem selection_follows_file:
  assumes "press_key lower k (v, Some p) = Some (quit, False, (v', selected'))"
    and "\<not> selects (kt_key k) v"
    and "p \<in> set (displayed_paths lower (kt_selection k) v')"
    and "p \<in> set (displayed_paths lower s' v')"
  shows "case reconcile_file_selection lower s' (v', selected') of (v'', selected'') \<Rightarrow>
     selected'' = Some p \<and> vs_cursor v'' < length (displayed_paths lower s' v'') \<and>
     displayed_paths lower s' v'' ! vs_cursor v'' = p"
proof -
  let ?v = "reconcile_process_selection (pids_shown lower (kt_rows k) v) v"
  have "\<not> is_flat_drill_key (kt_key k) \<or> vs_focus v \<noteq> FilesPane \<or> vs_filter_input v \<noteq> None"
    using assms(2) by (auto simp: selects_def is_flat_drill_key_def is_file_navigation_key_def)
  with assms(1) obtain u where
    h: "handle_key_with_page_height lower (kt_key k) ?v (length (rows_shown lower (kt_rows k) v))
          (lines_shown lower (kt_rows k) v) (pids_shown lower (kt_rows k) v) (kt_page_height k) False = Some (quit, u, False)"
    and st: "settle lower k (vs_mode v) (vs_focus v = FilesPane \<and> vs_filter_input v = None \<and> is_file_navigation_key (kt_key k))
          False (u, Some p) = (v', selected')"
    by (auto simp: press_key_def Let_def split: if_splits option.splits)
  have mode: "vs_mode u = vs_mode v"
    using mode_handle_key [OF h] assms(2) by (simp add: selects_def)
  have nav: "\<not> (vs_focus v = FilesPane \<and> vs_filter_input v = None \<and> is_file_navigation_key (kt_key k))"
    using assms(2) by (auto simp: selects_def)
  obtain w sel where w: "reconcile_file_selection lower (kt_selection k) (u, Some p) = (w, sel)"
    by (cases "reconcile_file_selection lower (kt_selection k) (u, Some p)")
  have v': "v' = reconcile_process_selection (pids_shown lower (kt_processes k) w) w" "selected' = sel"
    using st w mode nav by (simp_all add: settle_def Let_def)
  have "displayed_paths lower (kt_selection k) w = displayed_paths lower (kt_selection k) u"
    using w by (auto simp: reconcile_file_selection_def Let_def split: if_splits option.splits)
  with assms(3) v' have "p \<in> set (displayed_paths lower (kt_selection k) u)" by simp
  from reconcile_found [OF this] w have "sel = Some p" by auto
  with reconcile_found [OF assms(4)] v'(2) show ?thesis by auto
qed

definition sample_app :: "u64 \<Rightarrow> u64 \<Rightarrow> app_state" where
  "sample_app a b = (new_app_state 1 [])\<lparr>as_tree :=
     record_op ''/b'' 1 Write b 1 (record_op ''/a'' 1 Read a 1 new_tree)\<rparr>"

definition sort_turn :: key_turn where
  "sort_turn =
     \<lparr>kt_key = \<lparr>k_code = typed (CHR ''s''), k_control = False, k_alt = False\<rparr>, kt_page_height = 20,
      kt_rows = sample_app 5 3, kt_selection = sample_app 5 9, kt_processes = sample_app 7 9\<rparr>"

lemma sample_children:
  "children (root (as_tree (sample_app a b))) =
     [(''a'', TreeNode ''a'' False (for_operations Read a 1 1 1) (for_operations Read a 1 1 1) [] [(1, for_operations Read a 1 1 1)]),
      (''b'', TreeNode ''b'' False (for_operations Write b 1 1 1) (for_operations Write b 1 1 1) [] [(1, for_operations Write b 1 1 1)])]"
  by (simp add: sample_app_def record_op_def record_stats_def path_components_def index_path_def new_node_def
      new_tree_def Let_def stats_monoid new_app_state_def entered_def del: for_operations.simps)

lemma sample_paths:
  assumes "vs_mode v = FlatMode" "vs_cwd v = []" "vs_filter v = empty_query" "vs_sort_desc v"
  shows "vs_sort_by v = TotalBytes \<Longrightarrow> displayed_paths lower (sample_app a b) v = (if a < b then [''/b'', ''/a''] else [''/a'', ''/b''])"
    and "vs_sort_by v = ReadBytes \<Longrightarrow> displayed_paths lower (sample_app a b) v = [''/a'', ''/b'']"
  using assms
  by (auto simp: displayed_paths_def rows_shown_def visible_rows_def tree_get_node_def sample_children filtered_stats.simps
      query_is_empty_def empty_query_def List.map_filter_simps sort_by_def row_order_def cwd_path_def join_path_def
      total_bytes_def cmp_def default_stats_def then_with_def)

text \<open>
  The selected \<open>/a\<close> is drawn first; then \<open>/b\<close> overtakes it, and sorting by reads puts it first
  again: the highlighted row is \<open>/a\<close> throughout.
\<close>

lemma selection_follows_file_witness:
  "displayed_paths (\<lambda>s. s) (sample_app 5 3) new_view_state = [''/a'', ''/b''] \<and>
   displayed_paths (\<lambda>s. s) (sample_app 5 9) new_view_state = [''/b'', ''/a''] \<and>
   (\<exists>v' sel'. press_key (\<lambda>s. s) sort_turn (new_view_state, Some ''/a'') = Some (False, False, (v', sel')) \<and>
      vs_sort_by v' = ReadBytes \<and>
      snd (reconcile_file_selection (\<lambda>s. s) (sample_app 7 9) (v', sel')) = Some ''/a'')"
proof -
  let ?v = "new_view_state"
  have pids: "pids_shown lower (sample_app a b) v = []" for lower a b v
    by (simp add: pids_shown_def visible_processes_def sample_app_def new_app_state_def new_table_def
        sorted_processes_def sort_by_def Let_def)
  have v0: "vs_mode ?v = FlatMode" "vs_cwd ?v = []" "vs_filter ?v = empty_query" "vs_sort_desc ?v"
    "vs_sort_by ?v = TotalBytes" by (simp_all add: new_view_state_def)
  obtain v' sel' where p: "press_key (\<lambda>s. s) sort_turn (?v, Some ''/a'') = Some (False, False, (v', sel'))"
    and v': "vs_mode v' = FlatMode" "vs_cwd v' = []" "vs_filter v' = empty_query" "vs_sort_desc v'" "vs_sort_by v' = ReadBytes"
    by (simp add: press_key_def sort_turn_def is_flat_drill_key_def typed_def pids reconcile_process_selection_def
        handle_key_with_page_height_def global_key_def file_key_effect_def settle_def Let_def
        is_file_navigation_key_def new_view_state_def reconcile_file_selection_def sample_paths)
  have "\<not> selects (kt_key sort_turn) ?v"
    by (simp add: selects_def sort_turn_def is_file_navigation_key_def typed_def)
  then show ?thesis
    using selection_follows_file [OF p, of "sample_app 7 9"] sample_paths [OF v'(1-4)] v'(5) sample_paths(1) [OF v0] p
    by (auto simp: sort_turn_def)
qed

end
