(* ===== verification/Pipeline.thy ===== *)
theory Pipeline
  imports Reader App_Safety
begin

section \<open>From the kernel to the displayed state (ncda/src/main.rs)\<close>

text \<open>
  The aggregator task and its composition with the kernel programs and the reader. The task takes
  the reader's batches off the channel in order; each finds the discard flag of the shutdown as it
  is at that moment, its own time and its own iteration order of the pending groups.
\<close>

subsection \<open>The aggregator task\<close>

record delivery =
  dv_order :: "io_key list \<Rightarrow> io_key list"
  dv_now :: int
  dv_discard :: bool
  dv_batch :: "bpf_event list"

text \<open>None when a batch panics, which ends the task.\<close>

fun aggregator_loop :: "env \<Rightarrow> delivery list \<Rightarrow> app_state \<times> reader_drops \<Rightarrow> (app_state \<times> reader_drops) option" where
  "aggregator_loop e [] sd = Some sd"
| "aggregator_loop e (d # ds) sd =
     do { sd \<leftarrow> handle_aggregator_batch e (dv_order d) (dv_now d) (dv_batch d) (dv_discard d) sd;
          aggregator_loop e ds sd }"

text \<open>The orders are those of a hash table: some permutation of its keys.\<close>

definition hash_order :: "(io_key list \<Rightarrow> io_key list) \<Rightarrow> bool" where
  "hash_order order \<longleftrightarrow> (\<forall>ks. mset (order ks) = mset ks)"

subsection \<open>Batching is invisible\<close>

text \<open>The time of a batch reaches the rates only.\<close>

lemma group_step_now: "group_step ex e (new_io_group k b l t) v = group_step ex e (new_io_group k b l t') v"
  by (simp add: group_step_def new_io_group_def io_group_stats_def Let_def split: option.split)

lemma event_view_now: "event_view ex e now ev v = event_view ex e now' ev v"
  by (cases ev) (simp_all add: group_step_now [where t = now and t' = now'] del: lifecycle_step.simps)

lemma events_view_now: "fold (event_view ex e now) evs v = fold (event_view ex e now') evs v"
  by (induction evs arbitrary: v) (simp_all add: event_view_now [where now = now and now' = now'])

lemma aggregator_view:
  assumes "\<forall>d \<in> set ds. hash_order (dv_order d) \<and> \<not> dv_discard d" and "tree_ok (as_tree s)"
  shows "\<exists>s'. aggregator_loop e ds (s, c) = Some (s', c) \<and> as_exclude s' = as_exclude s \<and> tree_ok (as_tree s') \<and>
    view e s' = fold (event_view (as_exclude s) e 0) (concat (map dv_batch ds)) (view e s)"
  using assms
proof (induction ds arbitrary: s)
  case (Cons d ds)
  have d: "\<And>ks. mset (dv_order d ks) = mset ks" "\<not> dv_discard d" using Cons.prems(1) by (simp_all add: hash_order_def)
  obtain s1 where 1: "ingest e (dv_order d) (dv_now d) (dv_batch d) s = Some s1" "as_exclude s1 = as_exclude s"
    "tree_ok (as_tree s1)" "view e s1 = fold (event_view (as_exclude s) e 0) (dv_batch d) (view e s)"
    using ingest_view [OF d(1) Cons.prems(2), of e "dv_now d" "dv_batch d"]
    by (metis events_view_now)
  obtain s2 where "aggregator_loop e ds (s1, c) = Some (s2, c)" "as_exclude s2 = as_exclude s1" "tree_ok (as_tree s2)"
    "view e s2 = fold (event_view (as_exclude s1) e 0) (concat (map dv_batch ds)) (view e s1)"
    using Cons.IH [OF _ 1(3)] Cons.prems(1) by auto
  with 1 d(2) show ?case by (simp add: handle_aggregator_batch_def)
qed simp

text \<open>The events of a machine, in the order of submission.\<close>

definition submitted :: "kstate \<Rightarrow> bpf_event list" where
  "submitted k = List.map_filter parse_event (ks_ring k)"

lemma reader_sends_submitted:
  assumes "captured a k" and "concat turns @ late = ks_ring k"
  shows "concat (rs_sent (reader_loop turns late reader_start)) = submitted k"
  using reader_loop_delivers [of reader_start turns late] assms(2)
  by (simp add: reader_start_def delivered_def submitted_def)


subsection \<open>Every event is counted once\<close>

lemma events_frame_group: "as_total_events (record_io_group e g s) = as_total_events s"
  by (simp add: record_io_group_def resolve_fd_path_def Let_def case_prod_unfold
      split: option.split path_resolution.split)

lemma events_frame_groups: "as_total_events (fold (record_io_group e) gs s) = as_total_events s"
  by (induction gs arbitrary: s) (simp_all add: events_frame_group)

lemma events_frame_flush_key:
  "flush_io_key e k (p, s) = Some (p', s') \<Longrightarrow> as_total_events s' = as_total_events s"
  by (auto simp: flush_io_key_def case_prod_unfold events_frame_group split: option.splits if_splits)

lemma events_frame_flush: "flush_keys e ks (p, s) = Some (p', s') \<Longrightarrow> as_total_events s' = as_total_events s"
proof (induction ks arbitrary: p s)
  case (Cons k ks)
  then obtain p1 s1 where "flush_io_key e k (p, s) = Some (p1, s1)" "flush_keys e ks (p1, s1) = Some (p', s')"
    by (auto simp: bind_eq_Some_conv)
  with Cons.IH events_frame_flush_key show ?case by metis
qed simp

lemma events_frame_lifecycle:
  assumes "ingest_lifecycle e ev s = Some s'"
  shows "as_total_events s' = as_total_events s"
proof -
  have op: "as_total_events (record_process e pid op 0 0 x) = as_total_events x" for pid op x
    by (simp add: record_process_def case_prod_unfold Let_def)
  have dec: "as_total_events (snd (decorate_path e pid path x)) = as_total_events x" for pid path x
    by (simp add: decorate_path_def case_prod_unfold Let_def)
  have res: "as_total_events (snd (resolve_fd_path e pid fd x)) = as_total_events x" for pid fd x
    by (simp add: resolve_fd_path_def Let_def case_prod_unfold split: option.split path_resolution.split)
  show ?thesis
    using assms res
    by (cases ev) (auto simp: Let_def case_prod_unfold op dec split: option.splits path_resolution.splits if_splits)
qed

lemma events_frame_event:
  assumes "ingest_event e order now ev (p, s) = Some (p', s')"
  shows "as_total_events s' = as_total_events s"
proof (cases "is_io ev")
  case True
  then show ?thesis
    using assms by (cases ev) (auto simp: ingest_io_def record_io_outcome_def Let_def bind_eq_Some_conv split: if_splits)
next
  case False
  then obtain p1 s1 where "flush_lifecycle_groups e order ev (p, s) = Some (p1, s1)" "ingest_lifecycle e ev s1 = Some s'"
    using assms by (auto simp: ingest_lifecycle_event bind_eq_Some_conv)
  moreover from this(1) have "as_total_events s1 = as_total_events s"
    by (clarsimp simp: flush_lifecycle_groups_def bind_eq_Some_conv) (rule events_frame_flush)
  ultimately show ?thesis using events_frame_lifecycle by metis
qed

lemma events_frame_events: "ingest_events e order now evs (p, s) = Some (p', s') \<Longrightarrow> as_total_events s' = as_total_events s"
proof (induction evs arbitrary: p s)
  case (Cons ev evs)
  then obtain p1 s1 where "ingest_event e order now ev (p, s) = Some (p1, s1)" "ingest_events e order now evs (p1, s1) = Some (p', s')"
    by (auto simp: bind_eq_Some_conv)
  with Cons.IH events_frame_event show ?case by metis
qed simp

lemma ingest_counts:
  "ingest e order now evs s = Some s' \<Longrightarrow> as_total_events s' = sat_add (as_total_events s) (of_nat (length evs))"
  using events_frame_events
  by (fastforce simp: ingest_def bind_eq_Some_conv flush_io_groups_def events_frame_groups)

text \<open>What is counted, in a state and in the reader's counters together.\<close>

definition accounted :: "app_state \<times> reader_drops \<Rightarrow> nat" where
  "accounted sd = unat (as_total_events (fst sd)) + unat (shutdown_discarded (snd sd))"

lemma aggregator_accounts:
  assumes "\<forall>d \<in> set ds. hash_order (dv_order d)" and "tree_ok (as_tree s)"
    and "accounted (s, c) + length (concat (map dv_batch ds)) < 2 ^ 64"
  shows "\<exists>s' c'. aggregator_loop e ds (s, c) = Some (s', c') \<and>
    accounted (s', c') = accounted (s, c) + length (concat (map dv_batch ds))"
  using assms
proof (induction ds arbitrary: s c)
  case (Cons d ds)
  let ?n = "length (dv_batch d)"
  have sum: "unat (sat_add x (of_nat ?n)) = unat x + ?n" if "unat x + ?n < 2 ^ 64" for x :: u64
    using that by (simp add: sat_simps unat_of_nat take_bit_nat_eq_self)
  have "\<exists>s1 c1. handle_aggregator_batch e (dv_order d) (dv_now d) (dv_batch d) (dv_discard d) (s, c) = Some (s1, c1) \<and>
      tree_ok (as_tree s1) \<and> accounted (s1, c1) = accounted (s, c) + ?n"
  proof (cases "dv_discard d")
    case True
    have "unat (shutdown_discarded c) + ?n < 2 ^ 64" using Cons.prems(3) by (simp add: accounted_def)
    with True Cons.prems(2) sum show ?thesis
      by (simp add: handle_aggregator_batch_def record_shutdown_discarded_def accounted_def)
  next
    case False
    have "\<And>ks. mset (dv_order d ks) = mset ks" using Cons.prems(1) by (simp add: hash_order_def)
    then obtain s1 where s1: "ingest e (dv_order d) (dv_now d) (dv_batch d) s = Some s1" "tree_ok (as_tree s1)"
      using ingest_view [OF _ Cons.prems(2)] by blast
    have "unat (as_total_events s) + ?n < 2 ^ 64" using Cons.prems(3) by (simp add: accounted_def)
    with False s1 sum ingest_counts [OF s1(1)] show ?thesis by (simp add: handle_aggregator_batch_def accounted_def)
  qed
  then obtain s1 c1 where 1: "handle_aggregator_batch e (dv_order d) (dv_now d) (dv_batch d) (dv_discard d) (s, c) = Some (s1, c1)"
    "tree_ok (as_tree s1)" "accounted (s1, c1) = accounted (s, c) + ?n" by blast
  then obtain s' c' where "aggregator_loop e ds (s1, c1) = Some (s', c')"
    "accounted (s', c') = accounted (s1, c1) + length (concat (map dv_batch ds))"
    using Cons.IH [of s1 c1] Cons.prems(1,3) by auto
  with 1 show ?case by (auto simp del: split_paired_Ex)
qed simp

text \<open>No event is lost or counted twice, shutdown included: whatever the machine captured and
  however it is read, when the aggregator has worked through the reader's batches, some ingested and
  some discarded because the output had closed, the events counted in the state and those counted as
  discarded at shutdown are together exactly the records the kernel programs submitted.\<close>

theorem events_conserved:
  assumes "captured a k" and "concat turns @ late = ks_ring k" and "length (ks_ring k) < 2 ^ 64"
    and "map dv_batch ds = rs_sent (reader_loop turns late reader_start)"
    and "\<forall>d \<in> set ds. hash_order (dv_order d)"
  shows "\<exists>s c. aggregator_loop e ds (new_app_state window ex, no_drops) = Some (s, c) \<and>
    unat (as_total_events s) + unat (shutdown_discarded c) = length (ks_ring k)"
proof -
  have "submitted k = concat (map dv_batch ds)" using reader_sends_submitted [OF assms(1,2)] assms(4) by simp
  moreover have "length (submitted k) = length (ks_ring k)"
  proof -
    have "map Some (submitted k) = map parse_event (ks_ring k)"
      unfolding submitted_def by (rule map_filter_all) (use captured_record_parses [OF assms(1)] in auto)
    then show ?thesis by (metis length_map)
  qed
  moreover have "accounted (new_app_state window ex, no_drops) = 0" "tree_ok (as_tree (new_app_state window ex))"
    by (simp_all add: accounted_def new_app_state_def no_drops_def tree_ok_new)
  ultimately show ?thesis
    using aggregator_accounts [OF assms(5), of "new_app_state window ex" no_drops e] assms(3)
    by (simp add: accounted_def)
qed

subsection \<open>A concrete run\<close>

definition sample_record :: string where
  "sample_record = encode_io \<lparr>ie_kind = EVENT_READ, ie_pid = 0, ie_tid = 1, ie_fd = 7, ie_result = 5,
     ie_latency_ns = 20, ie_emitted_ns = 30\<rparr>"

definition delivered_late :: "bool \<Rightarrow> bpf_event list \<Rightarrow> delivery" where
  "delivered_late discard batch = \<lparr>dv_order = rev, dv_now = 4, dv_discard = discard, dv_batch = batch\<rparr>"

lemma sample_ring_record: "concat [[], []] @ [sample_record] = ks_ring (kstep x86_64 (Sys_Exit 5) (sample_ctx 1 30)
    (kstep x86_64 (Sys_Enter 0) (sample_ctx 1 10) init_kstate))"
  by (simp only: sample_ring sample_record_def append_Nil concat.simps)


theorem events_conserved_witness:
  "\<exists>s c. aggregator_loop sample_env
       (map (delivered_late True) (rs_sent (reader_loop [[], []] [sample_record] reader_start)))
       (new_app_state 5 [], no_drops) = Some (s, c) \<and>
     unat (as_total_events s) + unat (shutdown_discarded c) = 1"
proof -
  have len: "length (ks_ring (kstep x86_64 (Sys_Exit 5) (sample_ctx 1 30)
      (kstep x86_64 (Sys_Enter 0) (sample_ctx 1 10) init_kstate))) = 1"
    unfolding sample_ring_record [symmetric] by simp
  show ?thesis
    using events_conserved [OF sample_captured sample_ring_record, of "map (delivered_late True) _" sample_env 5 "[]"]
    unfolding len by (simp add: delivered_late_def hash_order_def comp_def)
qed

end
