(* ===== verification/App_Invariant.thy ===== *)
theory App_Invariant
  imports App_Safety
begin

section \<open>The application state is well formed\<close>

text \<open>
  The invariants of the components, for the state that holds them together: everything one
  component assumes of what another hands it (canonical paths in the descriptor table, paths with
  a single leading slash in the activity log, no more bytes in a window than were transferred)
  holds in every state the aggregator and the screen reach.
\<close>

subsection \<open>The invariant\<close>

definition fds_ok :: "fd_cache \<Rightarrow> bool" where
  "fds_ok c \<longleftrightarrow> distinct_keys (fc_map c) \<and> (\<forall>k p. map_of (fc_map c) k = Some p \<longrightarrow> canonical_path p)"

definition windows_ok :: "nat \<Rightarrow> nat \<Rightarrow> app_state \<Rightarrow> bool" where
  "windows_ok window bound s \<longleftrightarrow>
     event_log_ok bound (as_log s) \<and> el_window (as_log s) = window \<and> el_width (as_log s) = bucket_width window \<and>
     tracker_ok bound (as_rate s) \<and> rt_window (as_rate s) = window \<and> rt_width (as_rate s) = bucket_width window"

text \<open>\<open>bound\<close> is a bound on the bytes transferred so far.\<close>

definition state_ok :: "string list \<Rightarrow> nat \<Rightarrow> nat \<Rightarrow> app_state \<Rightarrow> bool" where
  "state_ok ex window bound s \<longleftrightarrow>
     as_exclude s = ex \<and> tree_ok (as_tree s) \<and> table_ok (as_procs s) \<and> fds_ok (as_fds s) \<and>
     windows_ok window bound s \<and> as_dropped_events s = sat_sub (as_drop_total s) (as_drop_baseline s)"

text \<open>The parts that no event of a batch touches but by recording a group.\<close>

definition frame_of :: "app_state \<Rightarrow> event_log \<times> rate_tracker \<times> u64 \<times> u64 \<times> u64" where
  "frame_of s = (as_log s, as_rate s, as_dropped_events s, as_drop_total s, as_drop_baseline s)"

lemma frame_of_eq: "frame_of s = frame_of s' \<longleftrightarrow> as_log s = as_log s' \<and> as_rate s = as_rate s' \<and>
    as_dropped_events s = as_dropped_events s' \<and> as_drop_total s = as_drop_total s' \<and> as_drop_baseline s = as_drop_baseline s'"
  by (auto simp: frame_of_def)

lemma windows_frame: "frame_of s = frame_of s' \<Longrightarrow> windows_ok window bound s = windows_ok window bound s'"
  by (simp add: windows_ok_def frame_of_eq)

lemma windows_mono: "windows_ok window b s \<Longrightarrow> b \<le> b' \<Longrightarrow> windows_ok window b' s"
  by (auto simp: windows_ok_def event_log_ok_def tracker_ok_def)

subsection \<open>Paths recorded have one leading slash\<close>

lemma component_no_slash: "c \<in> set (path_components p) \<Longrightarrow> c \<noteq> [] \<and> hd c \<noteq> CHR ''/''"
  using path_components_are_components [of c p] by (cases c) (auto simp: is_component_def)

lemma single_root_canonical:
  assumes "canonical_path p"
  shows "single_root p"
proof (cases "path_components p")
  case Nil
  with assms have "p = ''/''" by (simp add: canonical_path_def)
  then show ?thesis by (simp add: single_root_def)
next
  case (Cons c cs)
  then have c: "c \<noteq> []" "hd c \<noteq> CHR ''/''" using component_no_slash [of c p] by simp_all
  then obtain d t where d: "c = d # t" "d \<noteq> CHR ''/''" by (cases c) simp_all
  have "\<exists>u. join_with ''/'' (c # cs) = d # u" using d(1) by (cases cs) simp_all
  then obtain u where "p = CHR ''/'' # d # u" using assms Cons by (auto simp: canonical_path_def)
  with d(2) show ?thesis by (simp add: single_root_def)
qed

lemma single_root_decorated: "canonical_path p \<Longrightarrow> single_root (decorated c p)"
  using single_root_canonical by (cases c) (simp_all add: decorated_def, simp add: single_root_def)

subsection \<open>Recording a group\<close>

lemma event_record_fields:
  "el_window (event_record_at now path pid b s) = el_window s" "el_width (event_record_at now path pid b s) = el_width s"
  using trim_events_ok by (simp_all add: event_record_at_eq Let_def expire_event_fields trim_event_buckets_def)

lemma rate_record_fields:
  "rt_window (rate_record_at now b t) = rt_window t" "rt_width (rate_record_at now b t) = rt_width t"
  by (simp_all add: rate_record_at_eq Let_def expire_rate_buckets_fields trim_rate_fields)

text \<open>A resolution changes the descriptor table and two counters.\<close>

lemma resolve_fd_frame:
  "frame_of (snd (resolve_fd_path e pid fd s)) = frame_of s" "as_procs (snd (resolve_fd_path e pid fd s)) = as_procs s"
  by (simp_all add: resolve_fd_path_def frame_of_def Let_def case_prod_unfold split: option.split path_resolution.split)

lemma distinct_fds:
  "distinct_keys (fc_map c) \<Longrightarrow> distinct_keys (fc_map (fd_store pid fd p c))"
  "distinct_keys (fc_map c) \<Longrightarrow> distinct_keys (fc_map (on_close pid fd c))"
  "distinct_keys (fc_map c) \<Longrightarrow> distinct_keys (fc_map (on_close_range pid a b flags c))"
  "distinct_keys (fc_map c) \<Longrightarrow> distinct_keys (fc_map (on_process_reset pid c))"
  by (simp_all add: fd_store_def on_close_def on_close_range_def on_process_reset_def)

lemma distinct_resolve_fd: "distinct_keys (fc_map (as_fds s)) \<Longrightarrow> distinct_keys (fc_map (as_fds (snd (resolve_fd_path e pid fd s))))"
  using resolve_map(2) [of "e_link e" pid fd "as_fds s"]
  by (auto simp: resolve_fd_path_def Let_def case_prod_unfold distinct_fds split: option.split path_resolution.split)

text \<open>The invariant within a batch, with the facts of the view that carry the canonical paths.\<close>

definition batch_ok :: "env \<Rightarrow> string list \<Rightarrow> nat \<Rightarrow> nat \<Rightarrow> app_state \<Rightarrow> bool" where
  "batch_ok e ex window bound s \<longleftrightarrow> state_ok ex window bound s \<and> clean_view ex (view e s)"

lemma batch_okI:
  assumes "as_exclude s = ex" and "tree_ok (as_tree s)" and "table_ok (as_procs s)" and "distinct_keys (fc_map (as_fds s))"
    and "windows_ok window bound s" and "as_dropped_events s = sat_sub (as_drop_total s) (as_drop_baseline s)"
    and "clean_view ex (view e s)"
  shows "batch_ok e ex window bound s"
  using assms by (auto simp: batch_ok_def state_ok_def fds_ok_def clean_view_def view_def)

lemma batch_okD:
  assumes "batch_ok e ex window bound s"
  shows "as_exclude s = ex" "tree_ok (as_tree s)" "table_ok (as_procs s)" "distinct_keys (fc_map (as_fds s))"
    "windows_ok window bound s" "as_dropped_events s = sat_sub (as_drop_total s) (as_drop_baseline s)"
    "clean_view ex (view e s)" "state_ok ex window bound s"
  using assms by (simp_all add: batch_ok_def state_ok_def fds_ok_def)

lemma windows_record:
  assumes "windows_ok window b s" and "b + unat n < 2 ^ 64" and "single_root path"
  shows "windows_ok window (b + unat n)
    (s\<lparr>as_rate := rate_record_at now n (as_rate s), as_log := event_record_at now path pid n (as_log s)\<rparr>)"
  using assms by (simp add: windows_ok_def event_log_ok_record tracker_ok_record event_record_fields rate_record_fields)

lemma batch_ok_group:
  assumes ok: "batch_ok e ex window b s" and "ig_operations g \<noteq> 0" and "b + unat (ig_bytes g) < 2 ^ 64"
  shows "batch_ok e ex window (b + unat (ig_bytes g)) (record_io_group e g s)"
proof -
  let ?pid = "ik_pid (ig_key g)" and ?fd = "ik_fd (ig_key g)" and ?b = "b + unat (ig_bytes g)"
  obtain path s1 where r: "resolve_fd_path e ?pid ?fd s = (path, s1)" by fastforce
  have s1: "frame_of s1 = frame_of s" "as_procs s1 = as_procs s" "distinct_keys (fc_map (as_fds s1))"
    using resolve_fd_frame [of e ?pid ?fd s] distinct_resolve_fd [of s e ?pid ?fd] batch_okD [OF ok] r by simp_all
  have win: "windows_ok window b s1" using windows_frame [OF s1(1)] batch_okD [OF ok] by simp
  have view: "view e (record_io_group e g s) = group_step ex e g (view e s)" "as_exclude (record_io_group e g s) = ex"
    using view_record_io_group [OF assms(2), of e s] batch_okD [OF ok] by simp_all
  have win': "windows_ok window ?b (record_io_group e g s)"
  proof (cases path)
    case None
    then show ?thesis
      using windows_mono [OF win, of ?b] by (simp add: record_io_group_def r windows_ok_def)
  next
    case (Some p)
    have "canonical_path p"
      using clean_outcome [OF batch_okD(7) [OF ok], of e ?pid ?fd p] view_resolve_fd_path(1) [of e ?pid ?fd s] r Some by simp
    then have root: "single_root (decorated c p)" for c by (rule single_root_decorated)
    from windows_record [OF win assms(3) root] Some show ?thesis
      using windows_mono [OF win, of ?b]
      by (simp add: record_io_group_def r windows_ok_def Let_def case_prod_unfold)
  qed
  show ?thesis
  proof (rule batch_okI)
    show "tree_ok (as_tree (record_io_group e g s))" using batch_okD(2) [OF ok] by (rule tree_ok_group)
    show "table_ok (as_procs (record_io_group e g s))" "distinct_keys (fc_map (as_fds (record_io_group e g s)))"
      using s1 batch_okD(3) [OF ok]
      by (simp_all add: record_io_group_def r Let_def case_prod_unfold split: option.split)
    show "as_dropped_events (record_io_group e g s) = sat_sub (as_drop_total (record_io_group e g s)) (as_drop_baseline (record_io_group e g s))"
      using s1(1) batch_okD(6) [OF ok]
      by (simp add: record_io_group_def r Let_def case_prod_unfold frame_of_eq split: option.split)
    show "clean_view ex (view e (record_io_group e g s))" unfolding view(1) using batch_okD(7) [OF ok] by (rule clean_group)
  qed (fact view(2) win')+
qed

text \<open>The bytes of a list of groups, and a list of groups recorded one after another.\<close>

definition group_bytes :: "io_group list \<Rightarrow> nat" where
  "group_bytes gs = sum_list (map (\<lambda>g. unat (ig_bytes g)) gs)"

lemma batch_ok_groups:
  "batch_ok e ex window b s \<Longrightarrow> \<forall>g \<in> set gs. ig_operations g \<noteq> 0 \<Longrightarrow> b + group_bytes gs < 2 ^ 64 \<Longrightarrow>
   batch_ok e ex window (b + group_bytes gs) (fold (record_io_group e) gs s)"
proof (induction gs arbitrary: s b)
  case (Cons g gs)
  then have "batch_ok e ex window (b + unat (ig_bytes g)) (record_io_group e g s)"
    by (intro batch_ok_group) (simp_all add: group_bytes_def)
  from Cons.IH [OF this] Cons.prems show ?case by (simp add: group_bytes_def add.assoc)
qed (simp add: group_bytes_def)

subsection \<open>Lifecycle events\<close>

lemma lifecycle_shape:
  assumes "ingest_lifecycle e ev s = Some s'"
  shows "frame_of s' = frame_of s" "table_ok (as_procs s) \<Longrightarrow> table_ok (as_procs s')"
    "distinct_keys (fc_map (as_fds s)) \<Longrightarrow> distinct_keys (fc_map (as_fds s'))"
proof -
  have op: "frame_of (record_process e pid op 0 0 x) = frame_of x" "as_fds (record_process e pid op 0 0 x) = as_fds x"
    "table_ok (as_procs x) \<Longrightarrow> table_ok (as_procs (record_process e pid op 0 0 x))" for pid op x
    by (simp_all add: record_process_def table_record_context_def case_prod_unfold Let_def frame_of_def)
  have dec: "frame_of (snd (decorate_path e pid path x)) = frame_of x" "as_fds (snd (decorate_path e pid path x)) = as_fds x"
    "as_procs (snd (decorate_path e pid path x)) = as_procs x" for pid path x
    by (simp_all add: decorate_path_def case_prod_unfold Let_def frame_of_def)
  have upd: "frame_of (x\<lparr>as_tree := t\<rparr>) = frame_of x" "frame_of (x\<lparr>as_fds := c\<rparr>) = frame_of x"
    "frame_of (x\<lparr>as_attribution_failures := n\<rparr>) = frame_of x" "frame_of (x\<lparr>as_ignored := n\<rparr>) = frame_of x"
    "frame_of (x\<lparr>as_containers := r\<rparr>) = frame_of x" "frame_of (x\<lparr>as_procs := q\<rparr>) = frame_of x" for x t c n r q
    by (simp_all add: frame_of_def)
  have res: "fc_map (snd (resolve (e_link e) pid fd dirfd path flags c)) = fc_map c" for pid fd dirfd path flags c
    using resolve_map(1) .
  note simps = Let_def case_prod_unfold op dec upd res resolve_fd_frame distinct_fds distinct_resolve_fd
  show "frame_of s' = frame_of s"
    using assms by (cases ev) (auto simp: simps split: option.splits path_resolution.splits if_splits)
  show "table_ok (as_procs s')" if "table_ok (as_procs s)"
    using assms that by (cases ev) (auto simp: simps split: option.splits path_resolution.splits if_splits)
  show "distinct_keys (fc_map (as_fds s'))" if "distinct_keys (fc_map (as_fds s))"
    using assms that by (cases ev) (auto simp: simps split: option.splits path_resolution.splits if_splits)
qed

lemma batch_ok_lifecycle:
  assumes ok: "batch_ok e ex window b s" and ev: "ingest_lifecycle e ev s = Some s'"
  shows "batch_ok e ex window b s'"
proof -
  note v = view_lifecycle [OF ev batch_okD(2) [OF ok]]
  have f: "frame_of s' = frame_of s" by (rule lifecycle_shape(1) [OF ev])
  show ?thesis
  proof (rule batch_okI)
    show "as_exclude s' = ex" using v batch_okD(1) [OF ok] by simp
    show "clean_view ex (view e s')" using v batch_okD(1,7) [OF ok] by (simp add: clean_lifecycle)
    show "windows_ok window b s'" using windows_frame [OF f] batch_okD(5) [OF ok] by simp
    show "as_dropped_events s' = sat_sub (as_drop_total s') (as_drop_baseline s')"
      using f batch_okD(6) [OF ok] by (simp add: frame_of_eq)
  qed (use lifecycle_shape(2,3) [OF ev] tree_ok_lifecycle [OF ev] batch_okD [OF ok] in simp_all)
qed

subsection \<open>Batches\<close>

text \<open>The bytes an event transfers.\<close>

fun event_bytes :: "bpf_event \<Rightarrow> nat" where
  "event_bytes (ReadEv pid tid fd bytes result latency_ns emitted_ns) = (if sint result > 0 then unat bytes else 0)"
| "event_bytes (WriteEv pid tid fd bytes result latency_ns emitted_ns) = (if sint result > 0 then unat bytes else 0)"
| "event_bytes ev = 0"

definition batch_bytes :: "bpf_event list \<Rightarrow> nat" where
  "batch_bytes evs = sum_list (map event_bytes evs)"

lemma group_bytes_mset: "group_bytes gs = sum_mset (image_mset (\<lambda>g. unat (ig_bytes g)) (mset gs))"
  by (simp add: group_bytes_def flip: mset_map sum_mset_sum_list)

lemma accumulate_bytes:
  assumes "pending_ok p" and "group_bytes (active p) + unat b < 2 ^ 64"
  shows "\<exists>p'. accumulate_io_group key b l t p = Some p' \<and> pending_ok p' \<and>
    group_bytes (active p') = group_bytes (active p) + unat b"
proof (cases "map_of (snd p) key")
  case None
  from accumulate_miss [OF assms(1) None, of b l t] show ?thesis by (auto simp: group_bytes_def new_io_group_def)
next
  case (Some i)
  from accumulate_hit [OF assms(1) Some, of b l t] obtain p' g M where
    p': "accumulate_io_group key b l t p = Some p'" "pending_ok p'"
    "mset (active p) = add_mset g M" "mset (active p') = add_mset (io_group_record b l g) M" by blast
  then have "unat (ig_bytes g) + unat b < 2 ^ 64" using assms(2) by (simp add: group_bytes_mset)
  then have "unat (ig_bytes (io_group_record b l g)) = unat (ig_bytes g) + unat b"
    by (simp add: io_group_record_def sat_simps)
  with p' show ?thesis by (simp add: group_bytes_mset)
qed

lemma batch_ok_outcome: "batch_ok e ex window b s \<Longrightarrow> batch_ok e ex window b (record_io_outcome r s)"
  by (simp add: record_io_outcome_def batch_ok_def state_ok_def windows_ok_def clean_view_def view_def)

lemma batch_ok_io:
  assumes "pending_ok p" and "batch_ok e ex window b s" and "group_bytes (active p) + n < 2 ^ 64"
    and "n = (if sint r > 0 then unat bytes else 0)"
  shows "\<exists>p' s'. ingest_io op pid fd bytes r l now (p, s) = Some (p', s') \<and> pending_ok p' \<and>
    batch_ok e ex window b s' \<and> group_bytes (active p') = group_bytes (active p) + n"
proof (cases "sint r > 0")
  case True
  with assms(3,4) have "group_bytes (active p) + unat bytes < 2 ^ 64" by simp
  from accumulate_bytes [OF assms(1) this, of "\<lparr>ik_pid = pid, ik_fd = fd, ik_op = op\<rparr>" l now]
  show ?thesis using True assms(4) batch_ok_outcome [OF assms(2), of r] by (auto simp: ingest_io_def Let_def)
next
  case False
  with assms batch_ok_outcome [OF assms(2), of r] show ?thesis by (simp add: ingest_io_def Let_def)
qed

lemma batch_ok_event:
  assumes "pending_ok p" and "batch_ok e ex window b s"
    and "b + group_bytes (active p) + event_bytes ev < 2 ^ 64"
  shows "\<exists>p' s' b'. ingest_event e order now ev (p, s) = Some (p', s') \<and> pending_ok p' \<and>
    batch_ok e ex window b' s' \<and> b' + group_bytes (active p') = b + group_bytes (active p) + event_bytes ev"
proof (cases "is_io ev")
  case True
  have io: "\<exists>p' s' b'. ingest_io op pid fd bytes r l now (p, s) = Some (p', s') \<and> pending_ok p' \<and>
      batch_ok e ex window b' s' \<and> b' + group_bytes (active p') = b + group_bytes (active p) + event_bytes ev"
    if "event_bytes ev = (if sint r > 0 then unat bytes else 0)" for op pid fd bytes r l
    using batch_ok_io [OF assms(1,2) _ that, of op pid fd l now] assms(3) by (auto simp: add.assoc)
  show ?thesis
  proof (cases ev)
    case (ReadEv pid tid fd bytes r l t)
    show ?thesis using io [of r bytes] unfolding ReadEv by simp
  next
    case (WriteEv pid tid fd bytes r l t)
    show ?thesis using io [of r bytes] unfolding WriteEv by simp
  qed (use True in simp_all)
next
  case False
  obtain ks where ks: "barrier_keys order (map fst (snd p)) ev = Some ks" using lifecycle_total(1) [OF False] by blast
  obtain p' out where f: "flush_keys e ks (p, s) = Some (p', fold (record_io_group e) out s)" "pending_ok p'"
    "mset (active p) = mset (active p') + mset out" "\<forall>g \<in> set out. ig_operations g \<noteq> 0"
    using flush_keys_spec [OF assms(1), of e ks s] by blast
  obtain s' where s': "ingest_lifecycle e ev (fold (record_io_group e) out s) = Some s'" using lifecycle_total(2) [OF False] by blast
  have bytes: "group_bytes (active p) = group_bytes (active p') + group_bytes out" using f(3) by (simp add: group_bytes_mset)
  then have "batch_ok e ex window (b + group_bytes out) (fold (record_io_group e) out s)"
    using assms(2,3) f(4) by (intro batch_ok_groups) simp_all
  then have "batch_ok e ex window (b + group_bytes out) s'" using s' by (rule batch_ok_lifecycle)
  moreover have "ingest_event e order now ev (p, s) = Some (p', s')"
    using ks f(1) s' by (simp add: ingest_lifecycle_event [OF False] flush_lifecycle_groups_def)
  moreover have "event_bytes ev = 0" using False by (cases ev) simp_all
  ultimately show ?thesis using f(2) bytes
    by (intro exI [of _ p'] exI [of _ s'] exI [of _ "b + group_bytes out"]) simp
qed

lemma batch_ok_events:
  "pending_ok p \<Longrightarrow> batch_ok e ex window b s \<Longrightarrow> b + group_bytes (active p) + batch_bytes evs < 2 ^ 64 \<Longrightarrow>
   \<exists>p' s' b'. ingest_events e order now evs (p, s) = Some (p', s') \<and> pending_ok p' \<and> batch_ok e ex window b' s' \<and>
     b' + group_bytes (active p') = b + group_bytes (active p) + batch_bytes evs"
proof (induction evs arbitrary: p s b)
  case (Cons ev evs)
  obtain p1 s1 b1 where 1: "ingest_event e order now ev (p, s) = Some (p1, s1)" "pending_ok p1" "batch_ok e ex window b1 s1"
    "b1 + group_bytes (active p1) = b + group_bytes (active p) + event_bytes ev"
    using batch_ok_event [OF Cons.prems(1,2), of ev order now] Cons.prems(3) by (auto simp: batch_bytes_def)
  then have "b1 + group_bytes (active p1) + batch_bytes evs < 2 ^ 64" using Cons.prems(3) by (simp add: batch_bytes_def)
  from Cons.IH [OF 1(2,3) this] 1(1,4) show ?case by (auto simp: batch_bytes_def add.assoc)
qed (auto simp: batch_bytes_def)

lemma pending_nonzero: "pending_ok p \<Longrightarrow> \<forall>g \<in> set (active p). ig_operations g \<noteq> 0"
  using active_key by (cases p) auto

lemma batch_ok_ingest:
  assumes "batch_ok e ex window b s" and "b + batch_bytes evs < 2 ^ 64"
  shows "\<exists>s'. ingest e order now evs s = Some s' \<and> batch_ok e ex window (b + batch_bytes evs) s'"
proof -
  let ?s = "s\<lparr>as_total_events := sat_add (as_total_events s) (of_nat (length evs))\<rparr>"
  have start: "batch_ok e ex window b ?s"
    using assms(1) by (simp add: batch_ok_def state_ok_def windows_ok_def clean_view_def view_def)
  obtain p' s' b' where i: "ingest_events e order now evs (([], []), ?s) = Some (p', s')" "pending_ok p'" "batch_ok e ex window b' s'"
    "b' + group_bytes (active p') = b + batch_bytes evs"
    using batch_ok_events [OF pending_ok_empty(1) start, of evs order now] assms(2) by (auto simp: group_bytes_def)
  have "batch_ok e ex window (b' + group_bytes (active p')) (fold (record_io_group e) (active p') s')"
    using i(2-4) assms(2) pending_nonzero by (intro batch_ok_groups) simp_all
  with i show ?thesis by (simp add: ingest_def flush_io_groups_def active_def)
qed

subsection \<open>Every state of a run\<close>

text \<open>
  The states of a run, with the bytes transferred so far: the aggregator's batches under any
  environments, the loss reports, the container rediscoveries, the resets, and the rates a frame
  asks for, which expire buckets.
\<close>

inductive running :: "string list \<Rightarrow> nat \<Rightarrow> nat \<Rightarrow> app_state \<Rightarrow> bool" for ex window where
  running_new: "running ex window 0 (new_app_state window ex)"
| running_ingest: "running ex window b s \<Longrightarrow> ingest e order now evs s = Some s' \<Longrightarrow>
    running ex window (b + batch_bytes evs) s'"
| running_drops: "running ex window b s \<Longrightarrow> running ex window b (update_drop_total n s)"
| running_discovery: "running ex window b s \<Longrightarrow>
    running ex window b (s\<lparr>as_containers := replace_discovery d (as_containers s)\<rparr>)"
| running_reset: "running ex window b s \<Longrightarrow> running ex window b (app_reset s)"
| running_rate: "running ex window b s \<Longrightarrow> running ex window b (s\<lparr>as_rate := snd (rate_bps_at now (as_rate s))\<rparr>)"
| running_path_rate: "running ex window b s \<Longrightarrow>
    running ex window b (s\<lparr>as_log := snd (rate_for_prefix_at lower now pfx query (as_procs s) (as_log s))\<rparr>)"

lemma tracker_ok_queries:
  assumes "tracker_ok b t"
  shows "tracker_ok b (snd (rate_bps_at now t))" "tracker_ok b (rate_reset t)"
proof -
  show "tracker_ok b (rate_reset t)" by (simp add: tracker_ok_def rate_reset_def)
  then show "tracker_ok b (snd (rate_bps_at now t))"
    using tracker_ok_expire [OF assms] by (simp add: rate_bps_at_def Let_def rate_reset_def)
qed

lemma query_fields:
  "rt_window (snd (rate_bps_at now t)) = rt_window t" "rt_width (snd (rate_bps_at now t)) = rt_width t"
  "el_window (snd (rate_for_prefix_at lower now pfx query procs l)) = el_window l"
  "el_width (snd (rate_for_prefix_at lower now pfx query procs l)) = el_width l"
  by (simp_all add: rate_bps_at_def rate_for_prefix_at_def Let_def expire_rate_buckets_fields expire_event_fields event_log_reset_def)

lemma event_log_ok_query: "event_log_ok b l \<Longrightarrow> event_log_ok b (snd (rate_for_prefix_at lower now pfx query procs l))"
  by (simp add: rate_for_prefix_at_def Let_def event_log_ok_expire event_log_ok_empty)

lemma windows_ok_queries:
  assumes "windows_ok window b s"
  shows "windows_ok window b (s\<lparr>as_rate := snd (rate_bps_at now (as_rate s))\<rparr>)"
    "windows_ok window b (s\<lparr>as_log := snd (rate_for_prefix_at lower now pfx query procs (as_log s))\<rparr>)"
    "windows_ok window b (app_reset s)"
  using assms
  by (simp_all add: windows_ok_def tracker_ok_queries query_fields event_log_ok_query event_log_ok_empty app_reset_def,
    simp_all add: rate_reset_def event_log_reset_def)

lemma clean_restart: "clean_view ex (view e s) \<Longrightarrow> clean_view ex (view e (app_reset s))"
  by (simp add: app_reset_def clean_view_def view_def abs_reset empty_view_def)

lemma running_batch_ok: "running ex window b s \<Longrightarrow> b < 2 ^ 64 \<Longrightarrow> batch_ok e ex window b s"
proof (induction arbitrary: e rule: running.induct)
  case running_new
  show ?case
    by (rule batch_okI)
      (simp_all add: new_app_state_def tree_ok_new windows_ok_def event_log_ok_empty tracker_ok_new new_event_log_def
        new_tracker_def clean_view_def view_def new_fd_cache_def abs_new empty_view_def tracker_ok_def
        event_log_ok_empty(2) [unfolded new_event_log_def] sat_sub_def)
next
  case (running_ingest b s e' order now evs s')
  then have "batch_ok e' ex window b s" by simp
  from batch_ok_ingest [OF this, of evs order now] running_ingest.hyps(2) running_ingest.prems
  have "batch_ok e' ex window (b + batch_bytes evs) s'" by auto
  then show ?case using clean_env by (auto simp: batch_ok_def)
next
  case (running_drops b s n)
  then have "batch_ok e ex window b s" by simp
  then show ?case
    by (auto simp: batch_ok_def state_ok_def fds_ok_def windows_ok_def update_drop_total_def Let_def clean_view_def
        view_def invalidate_all_def)
next
  case (running_discovery b s d)
  then have "batch_ok e ex window b s" by simp
  then show ?case by (simp add: batch_ok_def state_ok_def windows_ok_def clean_view_def view_def)
next
  case (running_reset b s)
  then have ok: "batch_ok e ex window b s" by simp
  show ?case
    by (rule batch_okI)
      (use windows_ok_queries(3) [OF batch_okD(5) [OF ok]] clean_restart [OF batch_okD(7) [OF ok]] batch_okD [OF ok]
        in \<open>simp_all add: app_reset_def tree_ok_reset sat_sub_def\<close>)
next
  case (running_rate b s now)
  then have ok: "batch_ok e ex window b s" by simp
  then have "clean_view ex (view e (s\<lparr>as_rate := t\<rparr>))" for t by (simp add: batch_ok_def clean_view_def view_def)
  with windows_ok_queries(1) [OF batch_okD(5) [OF ok]] batch_okD [OF ok] show ?case by (intro batch_okI) simp_all
next
  case (running_path_rate b s lower now pfx query)
  then have ok: "batch_ok e ex window b s" by simp
  then have "clean_view ex (view e (s\<lparr>as_log := t\<rparr>))" for t by (simp add: batch_ok_def clean_view_def view_def)
  with windows_ok_queries(2) [OF batch_okD(5) [OF ok]] batch_okD [OF ok] show ?case by (intro batch_okI) simp_all
qed

text \<open>(C14) The state is well formed in every moment of a run: whatever batches it ingests under
  whatever environments, whatever losses, rediscoveries, resets and screen refreshes come between
  them, as long as fewer than 2^64 bytes were transferred, the tree, the process table, the
  descriptor table, the activity log and the rate tracker satisfy their invariants together: the
  process table files each process once under its own pid, every cached path is canonical, the
  log's tables are what its buckets determine, both windows keep at most 64 buckets and hold no
  more bytes than were transferred, so no sum in them saturates, and the loss shown is the loss
  reported above the baseline.\<close>

theorem run_well_formed:
  assumes "running ex window b s" and "b < 2 ^ 64"
  shows "state_ok ex window b s"
  using running_batch_ok [OF assms, of sample_env] by (rule batch_okD)

theorem run_well_formed_witness:
  "\<exists>s. ingest sample_env rev 0 sample_batch (new_app_state 5 [''/proc'']) = Some s \<and>
     state_ok [''/proc''] 5 12 (app_reset s) \<and> state_ok [''/proc''] 5 12 (s\<lparr>as_rate := snd (rate_bps_at 9 (as_rate s))\<rparr>)"
proof -
  obtain s where s: "ingest sample_env rev 0 sample_batch (new_app_state 5 [''/proc'']) = Some s"
    using ingest_view [of rev "new_app_state 5 [''/proc'']" sample_env 0 sample_batch]
    by (auto simp: new_app_state_def tree_ok_new)
  have "batch_bytes sample_batch = 12" by (simp add: batch_bytes_def sample_batch_def)
  then have "running [''/proc''] 5 12 s" using running_ingest [OF running_new s] by simp
  from run_well_formed [OF running_reset [OF this]] run_well_formed [OF running_rate [OF this, of 9]] s
  show ?thesis by auto
qed

end
