(* ===== verification/Interleaving.thy ===== *)
theory Interleaving
  imports Pipeline App_Invariant
begin

section \<open>The tasks interleaved (ncda/src/main.rs)\<close>

text \<open>
  The running program as one system: the machine with its ring, the reader, the bounded channel, the
  aggregator, the loss monitor, the other tasks that take the lock of the state, and \<open>main\<close> with the
  order of its shutdown. Each action is one step of one task: reading what the ring holds, sending a
  batch, receiving one and reading the flag, handling it, and so on; any interleaving of them is a
  run. A drain takes effect when it ends, the handling of a batch while it holds the lock of the
  state, the sampling of the counters at once. A turn of the reader that finds nothing changes
  nothing and is left out. The joins of the discovery and of the output task are taken to return by
  their own flags, and \<open>main\<close> to leave its wait in order.
\<close>

subsection \<open>The system\<close>

definition CHANNEL_CAPACITY :: nat where
  "CHANNEL_CAPACITY = 512"

text \<open>
  Where the reader is: waiting in its \<open>select\<close>, at the top of the final drain, or sending a batch, with
  whether it belongs to the final drain and whether the ring was emptied; then how it ended.
\<close>

datatype reader_phase =
    Rd_Waiting
  | Rd_Draining
  | Rd_Sending "bpf_event list" bool bool
  | Rd_Ended
  | Rd_Failed

text \<open>The aggregator handles a batch with the flag it read after receiving it.\<close>

datatype aggregator_phase = Agg_Receiving | Agg_Handling bool "bpf_event list" | Agg_Ended | Agg_Panicked

datatype monitor_phase =
    Mo_Waiting
  | Mo_Sampled drop_snapshot
  | Mo_Published drop_snapshot
  | Mo_Ended drop_snapshot
  | Mo_Failed

text \<open>How far \<open>main\<close> has come.\<close>

datatype main_phase =
    Running | Output_Stopped | Discarding | Detached | Reader_Stopped | Reader_Joined
  | Aggregator_Joined | Stats_Stopped | Finished

fun rank :: "main_phase \<Rightarrow> nat" where
  "rank Running = 0"
| "rank Output_Stopped = 1"
| "rank Discarding = 2"
| "rank Detached = 3"
| "rank Reader_Stopped = 4"
| "rank Reader_Joined = 5"
| "rank Aggregator_Joined = 6"
| "rank Stats_Stopped = 7"
| "rank Finished = 8"

text \<open>\<open>sy_read\<close> counts the records the reader has taken from the ring; \<open>sy_taken\<close> is the history of the
  batches the aggregator has taken, each with whether it was discarded.\<close>

record system =
  sy_kernel :: kstate
  sy_read :: nat
  sy_reader :: reader_phase
  sy_channel :: "bpf_event list list"
  sy_aggregator :: aggregator_phase
  sy_taken :: "(bool \<times> bpf_event list) list"
  sy_state :: app_state
  sy_drops :: reader_drops
  sy_monitor :: monitor_phase
  sy_main :: main_phase

definition init_system :: "nat \<Rightarrow> string list \<Rightarrow> system" where
  "init_system window ex =
     \<lparr>sy_kernel = init_kstate, sy_read = 0, sy_reader = Rd_Waiting, sy_channel = [], sy_aggregator = Agg_Receiving,
      sy_taken = [], sy_state = new_app_state window ex, sy_drops = no_drops, sy_monitor = Mo_Waiting, sy_main = Running\<rparr>"

text \<open>The flags of the shutdown, as the other tasks read them.\<close>

definition discarding :: "system \<Rightarrow> bool" where
  "discarding s \<longleftrightarrow> 2 \<le> rank (sy_main s)"

definition detached :: "system \<Rightarrow> bool" where
  "detached s \<longleftrightarrow> 3 \<le> rank (sy_main s)"

definition reader_stopped :: "system \<Rightarrow> bool" where
  "reader_stopped s \<longleftrightarrow> 4 \<le> rank (sy_main s)"

definition stats_stopped :: "system \<Rightarrow> bool" where
  "stats_stopped s \<longleftrightarrow> 7 \<le> rank (sy_main s)"

definition unread :: "system \<Rightarrow> string list" where
  "unread s = drop (sy_read s) (ks_ring (sy_kernel s))"

definition reader_over :: "system \<Rightarrow> bool" where
  "reader_over s \<longleftrightarrow> sy_reader s = Rd_Ended \<or> sy_reader s = Rd_Failed"

definition aggregator_over :: "system \<Rightarrow> bool" where
  "aggregator_over s \<longleftrightarrow> sy_aggregator s = Agg_Ended \<or> sy_aggregator s = Agg_Panicked"

subsection \<open>The steps\<close>

text \<open>What the other tasks do to the state under its lock: the keys of the terminal, the frames and the
  container discovery.\<close>

datatype state_op =
    Op_Reset
  | Op_Discovery resolver
  | Op_Rate int
  | Op_Path_Rate "string \<Rightarrow> string" int string filter_query

fun apply_state_op :: "state_op \<Rightarrow> app_state \<Rightarrow> app_state" where
  "apply_state_op Op_Reset s = app_reset s"
| "apply_state_op (Op_Discovery d) s = s\<lparr>as_containers := replace_discovery d (as_containers s)\<rparr>"
| "apply_state_op (Op_Rate now) s = s\<lparr>as_rate := snd (rate_bps_at now (as_rate s))\<rparr>"
| "apply_state_op (Op_Path_Rate lower now pfx query) s =
     s\<lparr>as_log := snd (rate_for_prefix_at lower now pfx query (as_procs s) (as_log s))\<rparr>"

datatype action =
    Kernel kprog kctx
  | Read_Ring
  | Begin_Drain
  | Drain
  | Send
  | Reader_Fails
  | Take
  | Handle env "io_key list \<Rightarrow> io_key list" int
  | Close
  | Other_Task state_op
  | Sample
  | Publish
  | Check
  | Monitor_Fails
  | Advance

text \<open>The reader after a batch was sent, or at once when there was none.\<close>

definition after_send :: "bool \<Rightarrow> bool \<Rightarrow> reader_phase" where
  "after_send final drained = (if \<not> final then Rd_Waiting else if drained then Rd_Ended else Rd_Draining)"

definition drain_step :: "bool \<Rightarrow> system \<Rightarrow> system" where
  "drain_step final s =
     (case drain_ring_batch (unread s) (sy_drops s) of
        (batch, rest, drops, drained) \<Rightarrow>
          s\<lparr>sy_read := sy_read s + (length (unread s) - length rest), sy_drops := drops,
            sy_reader := (if batch = [] then after_send final drained else Rd_Sending batch final drained)\<rparr>)"

definition send_step :: "system \<Rightarrow> system option" where
  "send_step s =
     (case sy_reader s of
        Rd_Sending batch final drained \<Rightarrow>
          if sy_aggregator s = Agg_Panicked
          then Some (s\<lparr>sy_drops := record_queue_drops (length batch) (sy_drops s), sy_reader := Rd_Ended\<rparr>)
          else if length (sy_channel s) < CHANNEL_CAPACITY
          then Some (s\<lparr>sy_channel := sy_channel s @ [batch], sy_reader := after_send final drained\<rparr>)
          else None
      | _ \<Rightarrow> None)"

definition take_step :: "system \<Rightarrow> system option" where
  "take_step s =
     (case (sy_aggregator s, sy_channel s) of
        (Agg_Receiving, batch # rest) \<Rightarrow>
          Some (s\<lparr>sy_channel := rest, sy_aggregator := Agg_Handling (discarding s) batch\<rparr>)
      | _ \<Rightarrow> None)"

definition handle_step :: "env \<Rightarrow> (io_key list \<Rightarrow> io_key list) \<Rightarrow> int \<Rightarrow> system \<Rightarrow> system option" where
  "handle_step e order now s =
     (case sy_aggregator s of
        Agg_Handling discard batch \<Rightarrow>
          (case handle_aggregator_batch e order now batch discard (sy_state s, sy_drops s) of
             None \<Rightarrow> Some (s\<lparr>sy_aggregator := Agg_Panicked\<rparr>)
           | Some (state, drops) \<Rightarrow>
               Some (s\<lparr>sy_aggregator := Agg_Receiving, sy_taken := sy_taken s @ [(discard, batch)], sy_state := state,
                       sy_drops := drops\<rparr>))
      | _ \<Rightarrow> None)"

text \<open>\<open>main\<close>: its joins wait for the task.\<close>

definition advance :: "system \<Rightarrow> system option" where
  "advance s =
     (case sy_main s of
        Running \<Rightarrow> Some (s\<lparr>sy_main := Output_Stopped\<rparr>)
      | Output_Stopped \<Rightarrow> Some (s\<lparr>sy_main := Discarding\<rparr>)
      | Discarding \<Rightarrow> Some (s\<lparr>sy_main := Detached\<rparr>)
      | Detached \<Rightarrow> Some (s\<lparr>sy_main := Reader_Stopped\<rparr>)
      | Reader_Stopped \<Rightarrow> if reader_over s then Some (s\<lparr>sy_main := Reader_Joined\<rparr>) else None
      | Reader_Joined \<Rightarrow> if aggregator_over s then Some (s\<lparr>sy_main := Aggregator_Joined\<rparr>) else None
      | Aggregator_Joined \<Rightarrow> Some (s\<lparr>sy_main := Stats_Stopped\<rparr>)
      | Stats_Stopped \<Rightarrow>
          (case sy_monitor s of
             Mo_Ended d \<Rightarrow> Some (s\<lparr>sy_main := Finished\<rparr>)
           | Mo_Failed \<Rightarrow> Some (s\<lparr>sy_main := Finished\<rparr>)
           | _ \<Rightarrow> None)
      | Finished \<Rightarrow> None)"

fun sys_step :: "arch \<Rightarrow> nat \<Rightarrow> action \<Rightarrow> system \<Rightarrow> system option" where
  "sys_step a cpus (Kernel p c) s =
     (if detached s \<or> \<not> probe_ok c then None else Some (s\<lparr>sy_kernel := kstep a p c (sy_kernel s)\<rparr>))"
| "sys_step a cpus Read_Ring s = (if sy_reader s = Rd_Waiting \<and> unread s \<noteq> [] then Some (drain_step False s) else None)"
| "sys_step a cpus Begin_Drain s =
     (if sy_reader s = Rd_Waiting \<and> reader_stopped s then Some (s\<lparr>sy_reader := Rd_Draining\<rparr>) else None)"
| "sys_step a cpus Drain s = (if sy_reader s = Rd_Draining then Some (drain_step True s) else None)"
| "sys_step a cpus Send s = send_step s"
| "sys_step a cpus Reader_Fails s = (if sy_reader s = Rd_Waiting then Some (s\<lparr>sy_reader := Rd_Failed\<rparr>) else None)"
| "sys_step a cpus Take s = take_step s"
| "sys_step a cpus (Handle e order now) s = handle_step e order now s"
| "sys_step a cpus Close s =
     (if sy_aggregator s = Agg_Receiving \<and> sy_channel s = [] \<and> reader_over s
      then Some (s\<lparr>sy_aggregator := Agg_Ended\<rparr>) else None)"
| "sys_step a cpus (Other_Task op) s = Some (s\<lparr>sy_state := apply_state_op op (sy_state s)\<rparr>)"
| "sys_step a cpus Sample s =
     (if sy_monitor s = Mo_Waiting
      then Some (s\<lparr>sy_monitor := Mo_Sampled (take_snapshot (map (ks_stats (sy_kernel s)) [0..<cpus]) (sy_drops s))\<rparr>)
      else None)"
| "sys_step a cpus Publish s =
     (case sy_monitor s of
        Mo_Sampled d \<Rightarrow>
          Some (s\<lparr>sy_monitor := Mo_Published d, sy_state := update_drop_total (snapshot_total d) (sy_state s)\<rparr>)
      | _ \<Rightarrow> None)"
| "sys_step a cpus Check s =
     (case sy_monitor s of
        Mo_Published d \<Rightarrow> Some (s\<lparr>sy_monitor := (if stats_stopped s then Mo_Ended d else Mo_Waiting)\<rparr>)
      | _ \<Rightarrow> None)"
| "sys_step a cpus Monitor_Fails s = (if sy_monitor s = Mo_Waiting then Some (s\<lparr>sy_monitor := Mo_Failed\<rparr>) else None)"
| "sys_step a cpus Advance s = advance s"

inductive interleaved :: "arch \<Rightarrow> nat \<Rightarrow> string list \<Rightarrow> nat \<Rightarrow> system \<Rightarrow> bool" for a cpus ex window where
  interleaved_init: "interleaved a cpus ex window (init_system window ex)"
| interleaved_step: "interleaved a cpus ex window s \<Longrightarrow> sys_step a cpus act s = Some s' \<Longrightarrow> interleaved a cpus ex window s'"

subsection \<open>What every interleaving keeps\<close>

definition in_hand :: "reader_phase \<Rightarrow> bpf_event list list" where
  "in_hand r = (case r of Rd_Sending batch final drained \<Rightarrow> [batch] | _ \<Rightarrow> [])"

definition held :: "aggregator_phase \<Rightarrow> bpf_event list list" where
  "held g = (case g of Agg_Handling discard batch \<Rightarrow> [batch] | _ \<Rightarrow> [])"

definition ingested :: "system \<Rightarrow> bpf_event list list" where
  "ingested s = map snd (filter (\<lambda>t. \<not> fst t) (sy_taken s))"

definition discarded :: "system \<Rightarrow> bpf_event list list" where
  "discarded s = map snd (filter fst (sy_taken s))"

text \<open>The flow: what the aggregator took, the channel and the reader's hand are the records read.\<close>

definition flow_ok :: "arch \<Rightarrow> system \<Rightarrow> bool" where
  "flow_ok a s \<longleftrightarrow> captured a (sy_kernel s) \<and> sy_read s \<le> length (ks_ring (sy_kernel s)) \<and>
     concat (map snd (sy_taken s) @ held (sy_aggregator s) @ sy_channel s @ in_hand (sy_reader s)) =
       List.map_filter parse_event (take (sy_read s) (ks_ring (sy_kernel s)))"

text \<open>The phases: who has ended and why.\<close>

fun in_final_drain :: "reader_phase \<Rightarrow> bool" where
  "in_final_drain (Rd_Sending batch final drained) = final"
| "in_final_drain r = (r = Rd_Draining \<or> r = Rd_Ended)"

fun has_emptied :: "reader_phase \<Rightarrow> bool" where
  "has_emptied (Rd_Sending batch final drained) = (final \<and> drained)"
| "has_emptied r = (r = Rd_Ended)"

definition monitor_over :: "system \<Rightarrow> bool" where
  "monitor_over s \<longleftrightarrow> (\<exists>d. sy_monitor s = Mo_Ended d) \<or> sy_monitor s = Mo_Failed"

definition phases_ok :: "system \<Rightarrow> bool" where
  "phases_ok s \<longleftrightarrow> sy_aggregator s \<noteq> Agg_Panicked \<and>
     batches_ok (held (sy_aggregator s) @ sy_channel s @ in_hand (sy_reader s)) \<and> length (sy_channel s) \<le> CHANNEL_CAPACITY \<and>
     (in_final_drain (sy_reader s) \<longrightarrow> reader_stopped s) \<and> (has_emptied (sy_reader s) \<longrightarrow> unread s = []) \<and>
     (sy_aggregator s = Agg_Ended \<longrightarrow> sy_channel s = [] \<and> reader_over s) \<and>
     (5 \<le> rank (sy_main s) \<longrightarrow> reader_over s) \<and> (6 \<le> rank (sy_main s) \<longrightarrow> sy_aggregator s = Agg_Ended) \<and>
     (sy_main s = Finished \<longrightarrow> monitor_over s)"

text \<open>The counters, the order of discarding, and the state.\<close>

definition counts_ok :: "system \<Rightarrow> bool" where
  "counts_ok s \<longleftrightarrow> parse_drops (sy_drops s) = 0 \<and> queue_drops (sy_drops s) = 0 \<and>
     unat (shutdown_discarded (sy_drops s)) = min (length (concat (discarded s))) (2 ^ 64 - 1) \<and>
     sy_taken s = map (Pair False) (ingested s) @ map (Pair True) (discarded s) \<and>
     (\<not> discarding s \<longrightarrow> discarded s = []) \<and>
     (\<forall>batch. sy_aggregator s = Agg_Handling True batch \<longrightarrow> discarding s) \<and>
     (\<forall>batch. sy_aggregator s = Agg_Handling False batch \<longrightarrow> discarded s = [])"

definition state_running :: "string list \<Rightarrow> nat \<Rightarrow> system \<Rightarrow> bool" where
  "state_running ex window s \<longleftrightarrow> running ex window (sum_list (map batch_bytes (ingested s))) (sy_state s)"

lemmas flags = discarding_def detached_def reader_stopped_def stats_stopped_def

lemmas overs = reader_over_def aggregator_over_def

text \<open>A drain, when every record of the machine parses.\<close>

lemma full_ring_prefix:
  "full_ring_step c s roomy full \<Longrightarrow> (\<exists>rs. ks_ring roomy = ks_ring s @ rs) \<and> (\<exists>rs. ks_ring full = ks_ring s @ rs)"
  unfolding full_ring_step_def by (elim disjE conjE exE) (simp_all add: counter_defs)

lemma kstep_ring: "\<exists>rs. ks_ring (kstep a p c s) = ks_ring s @ rs"
proof -
  have "with_output True c = c \<or> with_output False c = c"
    by (cases "k_output c") (simp_all add: with_output_def)
  with full_ring_prefix [OF full_ring_kstep [of c s a p]] show ?thesis by auto
qed

lemma unread_parse:
  assumes "captured a (sy_kernel s)" and "r \<in> set (unread s)"
  shows "parse_event r \<noteq> None"
  using captured_record_parses [OF assms(1), of r] assms(2) by (auto simp: unread_def dest: in_set_dropD)

lemma drain_step_eq:
  assumes "captured a (sy_kernel s)"
  shows "drain_step final s =
    s\<lparr>sy_read := sy_read s + min MAX_BATCH_EVENTS (length (unread s)),
      sy_reader := (if unread s = [] then after_send final True
                    else Rd_Sending (List.map_filter parse_event (take MAX_BATCH_EVENTS (unread s))) final
                           (length (unread s) < MAX_BATCH_EVENTS))\<rparr>"
proof -
  let ?t = "take MAX_BATCH_EVENTS (unread s)"
  have parses: "parse_event r \<noteq> None" if "r \<in> set ?t" for r
    using unread_parse [OF assms] that by (blast dest: in_set_takeD)
  then have none: "filter (\<lambda>r. parse_event r = None) ?t = []" by (simp add: filter_empty_conv)
  have pos: "0 < MAX_BATCH_EVENTS" by (simp add: MAX_BATCH_EVENTS_def)
  have "map Some (List.map_filter parse_event ?t) = map parse_event ?t" by (rule map_filter_all) (rule parses)
  then have "length (List.map_filter parse_event ?t) = length ?t" by (metis length_map)
  then have "List.map_filter parse_event ?t = [] \<longleftrightarrow> ?t = []" by (metis length_0_conv)
  then have empty: "List.map_filter parse_event ?t = [] \<longleftrightarrow> unread s = []" using pos by simp
  have consumed: "length (unread s) - length (drop MAX_BATCH_EVENTS (unread s)) = min MAX_BATCH_EVENTS (length (unread s))"
    by simp
  have drained: "drain_ring_batch (unread s) (sy_drops s) =
      (List.map_filter parse_event ?t, drop MAX_BATCH_EVENTS (unread s), sy_drops s, length (unread s) < MAX_BATCH_EVENTS)"
    by (simp only: drain_ring_batch_def drain_records_eq none list.size funpow.simps id_apply)
  show ?thesis
  proof (cases "unread s = []")
    case True
    with drained pos show ?thesis by (simp add: drain_step_def List.map_filter_simps)
  next
    case False
    with empty show ?thesis by (simp add: drain_step_def drained consumed del: length_drop)
  qed
qed

lemma take_read: "take (n + min m (length (drop n xs))) xs = take n xs @ take m (drop n xs)"
proof -
  have "take (min m (length (drop n xs))) (drop n xs) = take m (drop n xs)" by (cases "m \<le> length (drop n xs)") simp_all
  then show ?thesis by (simp add: take_add)
qed

lemma in_hand_simps [simp]:
  "in_hand Rd_Waiting = []" "in_hand Rd_Draining = []" "in_hand Rd_Ended = []" "in_hand Rd_Failed = []"
  "in_hand (Rd_Sending batch final drained) = [batch]" "in_hand (after_send final drained) = []"
  by (simp_all add: in_hand_def after_send_def)

lemma held_simps [simp]:
  "held Agg_Receiving = []" "held (Agg_Handling flag batch) = [batch]" "held Agg_Ended = []" "held Agg_Panicked = []"
  by (simp_all add: held_def)

lemma flow_drain:
  assumes "flow_ok a s" and "in_hand (sy_reader s) = []"
  shows "flow_ok a (drain_step final s)"
proof -
  have k: "captured a (sy_kernel s)" using assms(1) by (simp add: flow_ok_def)
  have "take (sy_read s + min MAX_BATCH_EVENTS (length (unread s))) (ks_ring (sy_kernel s)) =
      take (sy_read s) (ks_ring (sy_kernel s)) @ take MAX_BATCH_EVENTS (unread s)"
    unfolding unread_def by (rule take_read)
  moreover have "sy_read s + min MAX_BATCH_EVENTS (length (unread s)) \<le> length (ks_ring (sy_kernel s))"
    using assms(1) by (auto simp: flow_ok_def unread_def min_def)
  moreover have "unread s = [] \<Longrightarrow> List.map_filter parse_event (take MAX_BATCH_EVENTS (unread s)) = []"
    by (simp add: List.map_filter_simps)
  ultimately show ?thesis
    using assms by (simp add: drain_step_eq [OF k] flow_ok_def map_filter_append)
qed

text \<open>The aggregator never panics, and a batch is either counted as discarded or ingested.\<close>

lemma handled_batch:
  assumes "handle_step e order now s = Some s'"
  obtains (discard) batch where "sy_aggregator s = Agg_Handling True batch"
      "s' = s\<lparr>sy_aggregator := Agg_Receiving, sy_taken := sy_taken s @ [(True, batch)],
              sy_drops := record_shutdown_discarded (length batch) (sy_drops s)\<rparr>"
  | (ingest) batch st where "sy_aggregator s = Agg_Handling False batch" "ingest e order now batch (sy_state s) = Some st"
      "s' = s\<lparr>sy_aggregator := Agg_Receiving, sy_taken := sy_taken s @ [(False, batch)], sy_state := st\<rparr>"
proof -
  from assms obtain flag batch where g: "sy_aggregator s = Agg_Handling flag batch"
    by (auto simp: handle_step_def split: aggregator_phase.splits)
  show ?thesis
  proof (cases flag)
    case True
    with g assms show ?thesis by (intro discard [of batch]) (simp_all add: handle_step_def handle_aggregator_batch_def)
  next
    case False
    obtain p' s1 where "ingest_events e order now batch
        (([], []), sy_state s\<lparr>as_total_events := sat_add (as_total_events (sy_state s)) (of_nat (length batch))\<rparr>) = Some (p', s1)"
      using ingest_events_ok pending_ok_empty(1) by blast
    then obtain st where "ingest e order now batch (sy_state s) = Some st" by (simp add: ingest_def)
    with g False assms show ?thesis
      by (intro ingest [of batch st]) (simp_all add: handle_step_def handle_aggregator_batch_def)
  qed
qed

lemma taken_batch:
  assumes "take_step s = Some s'"
  obtains batch rest where "sy_aggregator s = Agg_Receiving" "sy_channel s = batch # rest"
    "s' = s\<lparr>sy_channel := rest, sy_aggregator := Agg_Handling (discarding s) batch\<rparr>"
  using assms that by (auto simp: take_step_def split: aggregator_phase.splits list.splits)

lemma flow_step:
  assumes "flow_ok a s" and "sy_aggregator s \<noteq> Agg_Panicked" and "sys_step a cpus act s = Some s'"
  shows "flow_ok a s'"
proof (cases act)
  case (Kernel p c)
  with assms(3) have s': "s' = s\<lparr>sy_kernel := kstep a p c (sy_kernel s)\<rparr>" "probe_ok c" by (auto split: if_splits)
  obtain rs where "ks_ring (kstep a p c (sy_kernel s)) = ks_ring (sy_kernel s) @ rs" using kstep_ring by blast
  with assms(1) s' show ?thesis by (simp add: flow_ok_def captured_step)
next
  case Read_Ring
  with assms(3) have "s' = drain_step False s" "in_hand (sy_reader s) = []" by (auto split: if_splits)
  with flow_drain [OF assms(1)] show ?thesis by simp
next
  case Drain
  with assms(3) have "s' = drain_step True s" "in_hand (sy_reader s) = []" by (auto split: if_splits)
  with flow_drain [OF assms(1)] show ?thesis by simp
next
  case Send
  with assms show ?thesis by (auto simp: send_step_def flow_ok_def split: if_splits reader_phase.splits)
next
  case Take
  with assms(3) have "take_step s = Some s'" by simp
  then show ?thesis by (rule taken_batch) (use assms(1) in \<open>simp add: flow_ok_def\<close>)
next
  case (Handle e order now)
  with assms(3) have "handle_step e order now s = Some s'" by simp
  then show ?thesis by (cases rule: handled_batch) (use assms(1) in \<open>simp_all add: flow_ok_def\<close>)
next
  case Advance
  with assms show ?thesis by (auto simp: advance_def flow_ok_def split: if_splits main_phase.splits monitor_phase.splits)
qed (use assms in \<open>auto simp: flow_ok_def split: if_splits monitor_phase.splits\<close>)

lemma emptied_in_final: "has_emptied r \<Longrightarrow> in_final_drain r"
  by (cases r) auto

lemma unread_drain: "captured a (sy_kernel s) \<Longrightarrow> unread (drain_step final s) = drop MAX_BATCH_EVENTS (unread s)"
  by (simp add: drain_step_eq unread_def) (simp add: min_def add.commute)

lemma final_after_send [simp]: "in_final_drain (after_send final drained) = final" "has_emptied (after_send final drained) = (final \<and> drained)"
  by (simp_all add: after_send_def)

lemma batches_ok_simps [simp]: "batches_ok []" "batches_ok (xs @ ys) \<longleftrightarrow> batches_ok xs \<and> batches_ok ys"
  by (auto simp: batches_ok_def list_all_iff)

lemma batches_ok_Cons: "batches_ok (x # xs) \<longleftrightarrow> x \<noteq> [] \<and> length x \<le> MAX_BATCH_EVENTS \<and> batches_ok xs"
  by (simp add: batches_ok_def)

lemma phases_drain:
  assumes "phases_ok s" and "captured a (sy_kernel s)" and "in_hand (sy_reader s) = []" and "\<not> reader_over s"
    and "final \<longrightarrow> reader_stopped s"
  shows "phases_ok (drain_step final s)"
proof -
  let ?b = "List.map_filter parse_event (take MAX_BATCH_EVENTS (unread s))"
  have "length ?b \<le> MAX_BATCH_EVENTS"
    using length_map_filter [of parse_event "take MAX_BATCH_EVENTS (unread s)"] by simp
  moreover have "?b \<noteq> []" if "unread s \<noteq> []"
  proof -
    from that obtain r rs where "unread s = r # rs" by (cases "unread s") auto
    with unread_parse [OF assms(2), of r] show ?thesis
      by (cases MAX_BATCH_EVENTS) (auto simp: MAX_BATCH_EVENTS_def List.map_filter_simps split: option.split)
  qed
  ultimately have "unread s \<noteq> [] \<Longrightarrow> batches_ok [?b]" by (simp add: batches_ok_def)
  then show ?thesis
    using assms unread_drain [OF assms(2), of final]
    by (auto simp: drain_step_eq phases_ok_def reader_over_def flags monitor_over_def)
qed

lemma phases_take:
  assumes "phases_ok s" and "take_step s = Some s'"
  shows "phases_ok s'"
  using assms(2)
proof (rule taken_batch)
  fix batch rest
  assume b: "sy_aggregator s = Agg_Receiving" "sy_channel s = batch # rest"
    "s' = s\<lparr>sy_channel := rest, sy_aggregator := Agg_Handling (discarding s) batch\<rparr>"
  from assms(1) b(1,2) have "batches_ok (held (sy_aggregator s') @ sy_channel s' @ in_hand (sy_reader s'))"
    "length (sy_channel s') \<le> CHANNEL_CAPACITY" by (simp_all add: b(3) phases_ok_def batches_ok_Cons)
  with assms(1) b(1) show ?thesis unfolding phases_ok_def
    by (simp add: b(3) flags overs monitor_over_def unread_def)
qed

lemma phases_handled:
  assumes "phases_ok s" and "sy_aggregator s = Agg_Handling flag batch" and "sy_aggregator s' = Agg_Receiving"
    and "sy_channel s' = sy_channel s" and "sy_reader s' = sy_reader s" and "sy_main s' = sy_main s"
    and "sy_monitor s' = sy_monitor s" and "unread s' = unread s"
  shows "phases_ok s'"
  using assms by (simp add: phases_ok_def flags overs monitor_over_def batches_ok_Cons)

lemma phases_handle:
  assumes "phases_ok s" and "handle_step e order now s = Some s'"
  shows "phases_ok s'"
  using assms(2)
proof (cases rule: handled_batch)
  case (discard batch)
  show ?thesis by (rule phases_handled [OF assms(1) discard(1)]) (simp_all add: discard(2) unread_def)
next
  case (ingest batch st)
  show ?thesis by (rule phases_handled [OF assms(1) ingest(1)]) (simp_all add: ingest(3) unread_def)
qed

lemma advance_cases:
  assumes "advance s = Some s'"
  obtains m where "s' = s\<lparr>sy_main := m\<rparr>" "rank m = Suc (rank (sy_main s))"
    "m = Reader_Joined \<Longrightarrow> reader_over s" "m = Aggregator_Joined \<Longrightarrow> aggregator_over s" "m = Finished \<Longrightarrow> monitor_over s"
proof -
  have "s' = s\<lparr>sy_main := sy_main s'\<rparr> \<and> rank (sy_main s') = Suc (rank (sy_main s)) \<and>
      (sy_main s' = Reader_Joined \<longrightarrow> reader_over s) \<and> (sy_main s' = Aggregator_Joined \<longrightarrow> aggregator_over s) \<and>
      (sy_main s' = Finished \<longrightarrow> monitor_over s)"
    using assms by (cases "sy_main s"; cases "sy_monitor s") (auto simp: advance_def monitor_over_def split: if_splits)
  with that show ?thesis by blast
qed

lemma phases_advance:
  assumes "phases_ok s" and "advance s = Some s'"
  shows "phases_ok s'"
  using assms(2)
proof (rule advance_cases)
  fix m
  assume m: "s' = s\<lparr>sy_main := m\<rparr>" "rank m = Suc (rank (sy_main s))" "m = Reader_Joined \<Longrightarrow> reader_over s"
    "m = Aggregator_Joined \<Longrightarrow> aggregator_over s" "m = Finished \<Longrightarrow> monitor_over s"
  have agg: "aggregator_over s \<longleftrightarrow> sy_aggregator s = Agg_Ended" using assms(1) by (simp add: aggregator_over_def phases_ok_def)
  have joined: "rank m = 5 \<Longrightarrow> m = Reader_Joined" "rank m = 6 \<Longrightarrow> m = Aggregator_Joined" by (cases m; simp)+
  have "5 \<le> rank m \<longrightarrow> reader_over s" using assms(1) m(2,3) joined(1) by (auto simp: phases_ok_def le_Suc_eq)
  moreover have "6 \<le> rank m \<longrightarrow> sy_aggregator s = Agg_Ended"
    using assms(1) m(2,4) joined(2) agg by (auto simp: phases_ok_def le_Suc_eq)
  moreover have "in_final_drain (sy_reader s) \<longrightarrow> reader_stopped s'" using assms(1) m(1,2) by (auto simp: phases_ok_def flags)
  moreover have "unread s' = unread s" "reader_over s' = reader_over s" "\<And>m. monitor_over (s\<lparr>sy_main := m\<rparr>) = monitor_over s"
    by (simp_all add: m(1) unread_def reader_over_def monitor_over_def)
  ultimately show ?thesis using assms(1) m(1,5) by (simp add: phases_ok_def)
qed

lemma phases_step:
  assumes "flow_ok a s" and "phases_ok s" and "sys_step a cpus act s = Some s'"
  shows "phases_ok s'"
proof (cases act)
  case (Kernel p c)
  with assms(3) have s': "s' = s\<lparr>sy_kernel := kstep a p c (sy_kernel s)\<rparr>" and "\<not> reader_stopped s"
    by (auto simp: flags split: if_splits)
  with assms(2) have "\<not> has_emptied (sy_reader s)" using emptied_in_final by (auto simp: phases_ok_def)
  with assms(2) s' show ?thesis by (auto simp: phases_ok_def flags reader_over_def monitor_over_def)
next
  case Read_Ring
  with assms(3) have "s' = drain_step False s" "sy_reader s = Rd_Waiting" by (auto split: if_splits)
  with phases_drain [OF assms(2), of a False] assms(1) show ?thesis by (simp add: flow_ok_def reader_over_def)
next
  case Drain
  with assms(3) have s': "s' = drain_step True s" "sy_reader s = Rd_Draining" by (auto split: if_splits)
  with assms(2) have "reader_stopped s" by (simp add: phases_ok_def)
  with phases_drain [OF assms(2), of a True] assms(1) s' show ?thesis by (simp add: flow_ok_def reader_over_def)
next
  case Send
  with assms(2,3) show ?thesis
    by (auto simp: send_step_def phases_ok_def flags reader_over_def monitor_over_def unread_def
        split: if_splits reader_phase.splits)
next
  case Take
  with assms(2,3) show ?thesis by (auto intro: phases_take)
next
  case (Handle e order now)
  with assms(2,3) show ?thesis by (auto intro: phases_handle)
next
  case Advance
  with assms(2,3) show ?thesis by (auto intro: phases_advance)
next
  case Begin_Drain
  with assms(3) have "s' = s\<lparr>sy_reader := Rd_Draining\<rparr>" "sy_reader s = Rd_Waiting" "reader_stopped s" by (auto split: if_splits)
  with assms(2) show ?thesis by (simp add: phases_ok_def flags reader_over_def monitor_over_def unread_def)
next
  case Reader_Fails
  with assms(3) have "s' = s\<lparr>sy_reader := Rd_Failed\<rparr>" "sy_reader s = Rd_Waiting" by (auto split: if_splits)
  with assms(2) show ?thesis by (simp add: phases_ok_def flags reader_over_def monitor_over_def unread_def)
next
  case Close
  with assms(3) have "s' = s\<lparr>sy_aggregator := Agg_Ended\<rparr>" "sy_channel s = []" "reader_over s" by (auto split: if_splits)
  with assms(2) show ?thesis by (simp add: phases_ok_def flags reader_over_def monitor_over_def unread_def)
next
  case (Other_Task op)
  with assms(3) have "s' = s\<lparr>sy_state := apply_state_op op (sy_state s)\<rparr>" by simp
  with assms(2) show ?thesis by (simp add: phases_ok_def flags reader_over_def monitor_over_def unread_def)
next
  case Sample
  with assms(3) obtain d where "s' = s\<lparr>sy_monitor := Mo_Sampled d\<rparr>" "sy_monitor s = Mo_Waiting"
    by (auto simp del: upt.simps split: if_splits)
  with assms(2) show ?thesis by (simp add: phases_ok_def flags reader_over_def monitor_over_def unread_def)
next
  case Publish
  with assms(3) obtain d state where "s' = s\<lparr>sy_monitor := Mo_Published d, sy_state := state\<rparr>" "sy_monitor s = Mo_Sampled d"
    by (auto split: monitor_phase.splits)
  with assms(2) show ?thesis by (simp add: phases_ok_def flags reader_over_def monitor_over_def unread_def)
next
  case Check
  with assms(3) obtain d m where "s' = s\<lparr>sy_monitor := m\<rparr>" "sy_monitor s = Mo_Published d"
    by (auto split: monitor_phase.splits)
  with assms(2) show ?thesis by (simp add: phases_ok_def flags reader_over_def monitor_over_def unread_def)
next
  case Monitor_Fails
  with assms(3) have "s' = s\<lparr>sy_monitor := Mo_Failed\<rparr>" "sy_monitor s = Mo_Waiting" by (auto split: if_splits)
  with assms(2) show ?thesis by (simp add: phases_ok_def flags reader_over_def monitor_over_def unread_def)
qed

text \<open>Only the aggregator adds to the history, and then to the counters or the state.\<close>

lemma rank_step: "sys_step a cpus act s = Some s' \<Longrightarrow> rank (sy_main s) \<le> rank (sy_main s')"
proof (cases act)
  case Advance
  assume "sys_step a cpus act s = Some s'"
  with Advance show ?thesis
    by (cases "sy_main s"; cases "sy_monitor s") (auto simp: advance_def split: if_splits)
next
  case Send
  assume "sys_step a cpus act s = Some s'"
  with Send show ?thesis by (auto simp: send_step_def split: reader_phase.splits if_splits)
next
  case Take
  assume "sys_step a cpus act s = Some s'"
  with Take show ?thesis by (auto elim: taken_batch)
next
  case (Handle e order now)
  assume "sys_step a cpus act s = Some s'"
  with Handle show ?thesis by (auto elim: handled_batch)
qed (auto simp: drain_step_def split: if_splits monitor_phase.splits prod.splits)

lemma quiet_step:
  assumes "sys_step a cpus act s = Some s'" and "flow_ok a s" and "phases_ok s" and "\<forall>e order now. act \<noteq> Handle e order now"
  shows "sy_taken s' = sy_taken s \<and> sy_drops s' = sy_drops s"
proof (cases act)
  case Advance
  with assms(1) show ?thesis
    by (cases "sy_main s"; cases "sy_monitor s") (auto simp: advance_def split: if_splits)
next
  case Send
  with assms(1,3) show ?thesis by (auto simp: send_step_def phases_ok_def split: reader_phase.splits if_splits)
next
  case Read_Ring
  with assms(1,2) show ?thesis by (auto simp: drain_step_eq flow_ok_def split: if_splits)
next
  case Drain
  with assms(1,2) show ?thesis by (auto simp: drain_step_eq flow_ok_def split: if_splits)
next
  case Take
  with assms(1) show ?thesis by (auto elim: taken_batch)
qed (use assms in \<open>auto split: if_splits monitor_phase.splits\<close>)

lemma histories [simp]:
  "ingested (s\<lparr>sy_taken := ts\<rparr>) = map snd (filter (\<lambda>t. \<not> fst t) ts)" "discarded (s\<lparr>sy_taken := ts\<rparr>) = map snd (filter fst ts)"
  by (simp_all add: ingested_def discarded_def)

lemma histories_cong: "sy_taken s' = sy_taken s \<Longrightarrow> ingested s' = ingested s \<and> discarded s' = discarded s"
  by (simp add: ingested_def discarded_def)

lemma aggregator_step:
  assumes "sys_step a cpus act s = Some s'" and "\<forall>e order now. act \<noteq> Handle e order now"
  shows "sy_aggregator s' = sy_aggregator s \<or> sy_aggregator s' = Agg_Ended \<or>
    (\<exists>batch. sy_aggregator s' = Agg_Handling (discarding s) batch \<and> discarding s' = discarding s)"
proof (cases act)
  case Take
  with assms(1) have "take_step s = Some s'" by simp
  then show ?thesis by (rule taken_batch) (simp add: discarding_def)
next
  case Advance
  with assms(1) show ?thesis by (cases "sy_main s"; cases "sy_monitor s") (auto simp: advance_def split: if_splits)
qed (use assms in \<open>auto simp: drain_step_def send_step_def split: if_splits prod.splits reader_phase.splits monitor_phase.splits\<close>)

lemma counts_step:
  assumes "flow_ok a s" and "phases_ok s" and "counts_ok s" and "sys_step a cpus act s = Some s'"
  shows "counts_ok s'"
proof (cases "\<exists>e order now. act = Handle e order now")
  case False
  then have same: "sy_taken s' = sy_taken s" "sy_drops s' = sy_drops s" using quiet_step [OF assms(4,1,2)] by auto
  have "discarding s \<Longrightarrow> discarding s'" using rank_step [OF assms(4)] by (simp add: discarding_def)
  moreover have "sy_aggregator s' = sy_aggregator s \<or> sy_aggregator s' = Agg_Ended \<or>
      (\<exists>batch. sy_aggregator s' = Agg_Handling (discarding s) batch \<and> discarding s' = discarding s)"
    using aggregator_step [OF assms(4)] False by blast
  ultimately show ?thesis
    using same histories_cong [OF same(1)] assms(3) unfolding counts_ok_def by (elim disjE conjE exE) auto
next
  case True
  then obtain e order now where "handle_step e order now s = Some s'" using assms(4) by auto
  then show ?thesis
  proof (cases rule: handled_batch)
    case (discard batch)
    have "length batch \<le> MAX_BATCH_EVENTS" using assms(2) discard(1) by (simp add: phases_ok_def batches_ok_def)
    then have n: "unat (of_nat (length batch) :: u64) = length batch"
      by (simp add: MAX_BATCH_EVENTS_def unat_of_nat take_bit_nat_eq_self)
    have "ingested s' = ingested s" "discarded s' = discarded s @ [batch]" "discarding s' = discarding s"
      by (simp_all add: discard(2) ingested_def discarded_def discarding_def)
    moreover have "sy_taken s' = sy_taken s @ [(True, batch)]" "sy_aggregator s' = Agg_Receiving"
      "sy_drops s' = record_shutdown_discarded (length batch) (sy_drops s)" by (simp_all add: discard(2))
    moreover have "discarding s" using assms(3) discard(1) by (simp add: counts_ok_def)
    ultimately show ?thesis using assms(3) n by (simp add: counts_ok_def record_shutdown_discarded_def sat_simps)
  next
    case (ingest batch st)
    have "ingested s' = ingested s @ [batch]" "discarded s' = discarded s" "discarding s' = discarding s"
      by (simp_all add: ingest(3) ingested_def discarded_def discarding_def)
    moreover have "sy_taken s' = sy_taken s @ [(False, batch)]" "sy_aggregator s' = Agg_Receiving" "sy_drops s' = sy_drops s"
      by (simp_all add: ingest(3))
    moreover have "discarded s = []" using assms(3) ingest(1) by (simp add: counts_ok_def)
    ultimately show ?thesis using assms(3) by (simp add: counts_ok_def)
  qed
qed

lemma running_op: "running ex window b s \<Longrightarrow> running ex window b (apply_state_op op s)"
  by (cases op) (auto intro: running.intros)

lemma running_step:
  assumes "flow_ok a s" and "phases_ok s" and "state_running ex window s" and "sys_step a cpus act s = Some s'"
  shows "state_running ex window s'"
proof (cases "\<exists>e order now. act = Handle e order now")
  case True
  then obtain e order now where "handle_step e order now s = Some s'" using assms(4) by auto
  then show ?thesis
  proof (cases rule: handled_batch)
    case (discard batch)
    with assms(3) show ?thesis by (simp add: state_running_def ingested_def)
  next
    case (ingest batch st)
    from running_ingest [OF assms(3) [unfolded state_running_def] ingest(2)] ingest(3) show ?thesis
      by (simp add: state_running_def ingested_def)
  qed
next
  case False
  then have same: "ingested s' = ingested s" using quiet_step [OF assms(4,1,2)] histories_cong by blast
  have "running ex window b (sy_state s')" if r: "running ex window b (sy_state s)" for b
  proof (cases act)
    case (Other_Task op)
    with assms(4) r running_op show ?thesis by auto
  next
    case Publish
    with assms(4) r show ?thesis by (auto split: monitor_phase.splits intro: running_drops)
  next
    case Advance
    with assms(4) r show ?thesis
      by (cases "sy_main s"; cases "sy_monitor s") (auto simp: advance_def split: if_splits)
  next
    case Send
    with assms(4) r show ?thesis by (auto simp: send_step_def split: reader_phase.splits if_splits)
  next
    case Read_Ring
    with assms(1,4) r show ?thesis by (auto simp: drain_step_eq flow_ok_def split: if_splits)
  next
    case Drain
    with assms(1,4) r show ?thesis by (auto simp: drain_step_eq flow_ok_def split: if_splits)
  next
    case Take
    with assms(4) r show ?thesis by (auto elim: taken_batch)
  qed (use False assms(4) r in \<open>auto split: if_splits monitor_phase.splits\<close>)
  with assms(3) same show ?thesis by (simp add: state_running_def)
qed

lemma interleaved_ok:
  assumes "interleaved a cpus ex window s"
  shows "flow_ok a s" and "phases_ok s" and "counts_ok s" and "state_running ex window s"
  using assms
proof induction
  case interleaved_init
  {
    case 1
    show ?case by (simp add: flow_ok_def init_system_def init_kstate_def captured_init [unfolded init_kstate_def] List.map_filter_simps)
  next
    case 2
    show ?case by (simp add: phases_ok_def init_system_def flags)
  next
    case 3
    show ?case by (simp add: counts_ok_def init_system_def no_drops_def ingested_def discarded_def)
  next
    case 4
    show ?case using running_new by (simp add: state_running_def init_system_def ingested_def)
  }
next
  case (interleaved_step s act s')
  note ok = interleaved_step.IH interleaved_step.hyps(2)
  have panic: "sy_aggregator s \<noteq> Agg_Panicked" using ok(2) by (simp add: phases_ok_def)
  {
    case 1
    show ?case by (rule flow_step [OF ok(1) panic ok(5)])
  next
    case 2
    show ?case by (rule phases_step [OF ok(1,2,5)])
  next
    case 3
    show ?case by (rule counts_step [OF ok(1,2,3,5)])
  next
    case 4
    show ?case by (rule running_step [OF ok(1,2,4,5)])
  }
qed


subsection \<open>The concurrent program refines the sequential one\<close>

text \<open>
  The steps that leave the attribution of events alone: every batch sees the same \<open>/proc\<close> and some
  order of its hash table, the other tasks only draw, and the monitor reports no new loss, which would
  empty the descriptor cache.
\<close>

fun undisturbed :: "env \<Rightarrow> system \<Rightarrow> action \<Rightarrow> bool" where
  "undisturbed e s (Handle e' order now) = (e' = e \<and> hash_order order)"
| "undisturbed e s (Other_Task op) = (op \<noteq> Op_Reset \<and> (\<forall>d. op \<noteq> Op_Discovery d))"
| "undisturbed e s Publish = (\<forall>d. sy_monitor s = Mo_Sampled d \<longrightarrow> snapshot_total d \<le> as_drop_total (sy_state s))"
| "undisturbed e s act = True"

inductive calm :: "arch \<Rightarrow> nat \<Rightarrow> string list \<Rightarrow> nat \<Rightarrow> env \<Rightarrow> system \<Rightarrow> bool" for a cpus ex window e where
  calm_init: "calm a cpus ex window e (init_system window ex)"
| calm_step: "calm a cpus ex window e s \<Longrightarrow> undisturbed e s act \<Longrightarrow> sys_step a cpus act s = Some s' \<Longrightarrow>
    calm a cpus ex window e s'"

lemma calm_interleaved: "calm a cpus ex window e s \<Longrightarrow> interleaved a cpus ex window s"
  by (induction rule: calm.induct) (auto intro: interleaved.intros)

definition sequential :: "env \<Rightarrow> string list \<Rightarrow> nat \<Rightarrow> system \<Rightarrow> bool" where
  "sequential e ex window s \<longleftrightarrow>
     as_exclude (sy_state s) = ex \<and> tree_ok (as_tree (sy_state s)) \<and>
     view e (sy_state s) = fold (event_view ex e 0) (concat (ingested s)) (view e (new_app_state window ex))"

lemma view_drops:
  "n \<le> as_drop_total s \<Longrightarrow> view e (update_drop_total n s) = view e s \<and> as_exclude (update_drop_total n s) = as_exclude s \<and>
   as_tree (update_drop_total n s) = as_tree s"
  by (drule leD) (simp add: update_drop_total_def Let_def view_def)

lemma view_rates:
  "op \<noteq> Op_Reset \<Longrightarrow> \<forall>d. op \<noteq> Op_Discovery d \<Longrightarrow>
   view e (apply_state_op op s) = view e s \<and> as_exclude (apply_state_op op s) = as_exclude s \<and> as_tree (apply_state_op op s) = as_tree s"
  by (cases op) (simp_all add: view_def)

lemma sequential_cong:
  assumes "sequential e ex window s" and "sy_taken s' = sy_taken s"
    and "view e (sy_state s') = view e (sy_state s) \<and> as_exclude (sy_state s') = as_exclude (sy_state s) \<and>
      as_tree (sy_state s') = as_tree (sy_state s)"
  shows "sequential e ex window s'"
  using assms by (simp add: sequential_def ingested_def)

lemma state_step:
  assumes "sys_step a cpus act s = Some s'" and "\<forall>e order now. act \<noteq> Handle e order now" and "\<forall>op. act \<noteq> Other_Task op"
    and "act \<noteq> Publish"
  shows "sy_state s' = sy_state s"
proof (cases act)
  case Advance
  with assms(1) show ?thesis by (cases "sy_main s"; cases "sy_monitor s") (auto simp: advance_def split: if_splits)
next
  case Take
  with assms(1) show ?thesis by (auto elim: taken_batch)
qed (use assms in \<open>auto simp: drain_step_def send_step_def split: if_splits prod.splits reader_phase.splits monitor_phase.splits\<close>)

lemma calm_sequential: "calm a cpus ex window e s \<Longrightarrow> sequential e ex window s"
proof (induction rule: calm.induct)
  case calm_init
  show ?case by (simp add: sequential_def init_system_def ingested_def new_app_state_def tree_ok_new)
next
  case (calm_step s act s')
  note ok = interleaved_ok [OF calm_interleaved [OF calm_step.hyps(1)]]
  show ?case
  proof (cases "\<exists>order now. act = Handle e order now")
    case True
    then obtain order now where act: "act = Handle e order now" by blast
    then have order: "\<And>ks. mset (order ks) = mset ks" using calm_step.hyps(2) by (simp add: hash_order_def)
    have "handle_step e order now s = Some s'" using act calm_step.hyps(3) by simp
    then show ?thesis
    proof (cases rule: handled_batch)
      case (discard batch)
      with calm_step.IH show ?thesis by (simp add: sequential_def ingested_def)
    next
      case (ingest batch st)
      have "tree_ok (as_tree (sy_state s))" using calm_step.IH by (simp add: sequential_def)
      from ingest_view [OF order this, of e now batch] ingest(2)
      have "as_exclude st = as_exclude (sy_state s)" "tree_ok (as_tree st)"
        "view e st = fold (event_view (as_exclude (sy_state s)) e now) batch (view e (sy_state s))" by auto
      with calm_step.IH ingest(3) events_view_now [of ex e now batch _ 0] show ?thesis
        by (simp add: sequential_def ingested_def)
    qed
  next
    case False
    then have quiet: "\<forall>e order now. act \<noteq> Handle e order now" using calm_step.hyps(2) by auto
    have taken: "sy_taken s' = sy_taken s" using quiet_step [OF calm_step.hyps(3) ok(1,2) quiet] by blast
    consider (other) op where "act = Other_Task op" | (publish) "act = Publish" | (rest) "\<forall>op. act \<noteq> Other_Task op" "act \<noteq> Publish"
      by blast
    then show ?thesis
    proof cases
      case other
      with calm_step.hyps(2,3) view_rates [of op e "sy_state s"] show ?thesis
        by (intro sequential_cong [OF calm_step.IH taken]) auto
    next
      case publish
      with calm_step.hyps(2,3) view_drops show ?thesis
        by (intro sequential_cong [OF calm_step.IH taken]) (auto split: monitor_phase.splits)
    next
      case rest
      with state_step [OF calm_step.hyps(3) quiet] show ?thesis
        by (intro sequential_cong [OF calm_step.IH taken]) simp
    qed
  qed
qed


subsection \<open>The shutdown ends\<close>

text \<open>The runs of a system and its helpful steps.\<close>

fun run_actions :: "('a \<Rightarrow> 's \<Rightarrow> 's option) \<Rightarrow> 'a list \<Rightarrow> 's \<Rightarrow> 's option" where
  "run_actions step [] s = Some s"
| "run_actions step (a # as) s = (case step a s of None \<Rightarrow> None | Some s' \<Rightarrow> run_actions step as s')"

fun helpful_steps :: "('a \<Rightarrow> 's \<Rightarrow> 's option) \<Rightarrow> ('s \<Rightarrow> 'a \<Rightarrow> bool) \<Rightarrow> 'a list \<Rightarrow> 's \<Rightarrow> nat" where
  "helpful_steps step helpful [] s = 0"
| "helpful_steps step helpful (a # as) s =
     (case step a s of
        None \<Rightarrow> 0
      | Some s' \<Rightarrow> (if helpful s a then Suc (helpful_steps step helpful as s') else helpful_steps step helpful as s'))"

text \<open>A system whose helpful steps use up the work there is, which no other step adds to.\<close>

locale measured_system =
  fixes step :: "'a \<Rightarrow> 's \<Rightarrow> 's option" and settled :: "'s \<Rightarrow> bool" and helpful :: "'s \<Rightarrow> 'a \<Rightarrow> bool"
    and work :: "'s \<Rightarrow> nat"
  assumes settled_step: "settled s \<Longrightarrow> step a s = Some s' \<Longrightarrow> settled s'"
    and helpful_step: "settled s \<Longrightarrow> step a s = Some s' \<Longrightarrow> helpful s a \<Longrightarrow> work s' < work s"
    and other_step: "settled s \<Longrightarrow> step a s = Some s' \<Longrightarrow> work s' \<le> work s"
begin

lemma settled_run: "settled s \<Longrightarrow> run_actions step as s = Some s' \<Longrightarrow> settled s'"
  by (induction as arbitrary: s) (auto split: option.splits dest: settled_step)

lemma run_bound: "settled s \<Longrightarrow> run_actions step as s = Some s' \<Longrightarrow> helpful_steps step helpful as s + work s' \<le> work s"
proof (induction as arbitrary: s)
  case (Cons a as)
  then obtain s1 where s1: "step a s = Some s1" "run_actions step as s1 = Some s'" by (auto split: option.splits)
  have "helpful_steps step helpful as s1 + work s' \<le> work s1"
    using Cons.IH settled_step [OF Cons.prems(1) s1(1)] s1(2) by blast
  with helpful_step [OF Cons.prems(1) s1(1)] other_step [OF Cons.prems(1) s1(1)] s1(1) show ?case by auto
qed simp

end

text \<open>
  The work left after the programs were detached: every unread record may still make a drain, a send,
  a take and a handling; then the phases the tasks have to go through. The monitor's turns count only once its
  flag is set; before, they go on for ever.
\<close>

definition reader_work :: "reader_phase \<Rightarrow> nat" where
  "reader_work r =
     (case r of
        Rd_Waiting \<Rightarrow> 2
      | Rd_Draining \<Rightarrow> 1
      | Rd_Sending batch final drained \<Rightarrow> if \<not> final then 5 else if drained then 3 else 4
      | Rd_Ended \<Rightarrow> 0
      | Rd_Failed \<Rightarrow> 0)"

definition aggregator_work :: "aggregator_phase \<Rightarrow> nat" where
  "aggregator_work g =
     (case g of Agg_Receiving \<Rightarrow> 1 | Agg_Handling discard batch \<Rightarrow> 2 | Agg_Ended \<Rightarrow> 0 | Agg_Panicked \<Rightarrow> 0)"

definition monitor_work :: "system \<Rightarrow> nat" where
  "monitor_work s =
     (if \<not> stats_stopped s then 4
      else case sy_monitor s of
             Mo_Waiting \<Rightarrow> 3 | Mo_Sampled d \<Rightarrow> 2 | Mo_Published d \<Rightarrow> 1 | Mo_Ended d \<Rightarrow> 0 | Mo_Failed \<Rightarrow> 0)"

definition shutdown_work :: "system \<Rightarrow> nat" where
  "shutdown_work s =
     5 * length (unread s) + reader_work (sy_reader s) + 2 * length (sy_channel s) + aggregator_work (sy_aggregator s)
     + monitor_work s + (8 - rank (sy_main s))"

text \<open>The steps of the tasks the shutdown waits for.\<close>

fun helpful :: "system \<Rightarrow> action \<Rightarrow> bool" where
  "helpful s Read_Ring = True"
| "helpful s Begin_Drain = True"
| "helpful s Drain = True"
| "helpful s Send = True"
| "helpful s Take = True"
| "helpful s (Handle e order now) = True"
| "helpful s Close = True"
| "helpful s Advance = True"
| "helpful s Sample = stats_stopped s"
| "helpful s Publish = stats_stopped s"
| "helpful s Check = stats_stopped s"
| "helpful s act = False"

lemma reader_work_simps [simp]:
  "reader_work Rd_Waiting = 2" "reader_work Rd_Draining = 1" "reader_work Rd_Ended = 0" "reader_work Rd_Failed = 0"
  "reader_work (Rd_Sending batch final drained) = 3 + reader_work (after_send final drained)"
  "aggregator_work Agg_Receiving = 1" "aggregator_work (Agg_Handling flag batch) = 2"
  "aggregator_work Agg_Ended = 0" "aggregator_work Agg_Panicked = 0"
  by (simp_all add: reader_work_def after_send_def aggregator_work_def)

lemma work_drain:
  assumes "captured a (sy_kernel s)" and "sy_reader s = Rd_Draining \<or> sy_reader s = Rd_Waiting \<and> \<not> final \<and> unread s \<noteq> []"
    and "final \<longleftrightarrow> sy_reader s = Rd_Draining"
  shows "shutdown_work (drain_step final s) < shutdown_work s"
proof -
  let ?s = "drain_step final s"
  have same: "sy_channel ?s = sy_channel s" "sy_aggregator ?s = sy_aggregator s" "sy_main ?s = sy_main s" "monitor_work ?s = monitor_work s"
    by (simp_all add: drain_step_eq [OF assms(1)] monitor_work_def flags)
  have "5 * length (unread ?s) + reader_work (sy_reader ?s) < 5 * length (unread s) + reader_work (sy_reader s)"
  proof (cases "unread s = []")
    case True
    with assms(2,3) show ?thesis
      by (simp add: unread_drain [OF assms(1)]) (simp add: drain_step_eq [OF assms(1)] after_send_def)
  next
    case False
    then obtain n where n: "length (unread s) = Suc n" by (cases "unread s") simp_all
    have left: "length (unread ?s) \<le> n" using n by (simp add: unread_drain [OF assms(1)] MAX_BATCH_EVENTS_def)
    have "reader_work (sy_reader ?s) \<le> (if final then 4 else 5)"
      using False by (simp add: drain_step_eq [OF assms(1)] after_send_def)
    moreover have "1 \<le> reader_work (sy_reader s)" "\<not> final \<Longrightarrow> reader_work (sy_reader s) = 2"
      using assms(2,3) by auto
    ultimately show ?thesis using left n by (cases final) auto
  qed
  then show ?thesis by (simp add: shutdown_work_def same)
qed

lemma work_advance:
  assumes "advance s = Some s'"
  shows "shutdown_work s' < shutdown_work s"
proof -
  obtain m where m: "s' = s\<lparr>sy_main := m\<rparr>" "rank m = Suc (rank (sy_main s))" "rank m \<le> 8"
    using assms by (cases "sy_main s"; cases "sy_monitor s") (auto simp: advance_def split: if_splits)
  have "monitor_work s' \<le> monitor_work s"
    using m by (auto simp: monitor_work_def flags split: monitor_phase.split)
  then show ?thesis using m by (simp add: shutdown_work_def unread_def)
qed

lemma work_step:
  assumes "flow_ok a s" and "phases_ok s" and "detached s" and "sys_step a cpus act s = Some s'"
  shows "shutdown_work s' \<le> shutdown_work s \<and> (helpful s act \<longrightarrow> shutdown_work s' < shutdown_work s)"
proof (cases act)
  case (Kernel p c)
  with assms(3,4) show ?thesis by simp
next
  case Read_Ring
  with assms(4) have r: "s' = drain_step False s" "sy_reader s = Rd_Waiting" "unread s \<noteq> []" by (auto split: if_splits)
  have "shutdown_work (drain_step False s) < shutdown_work s"
    using assms(1) r by (intro work_drain [of a]) (simp_all add: flow_ok_def)
  with r show ?thesis by simp
next
  case Drain
  with assms(4) have r: "s' = drain_step True s" "sy_reader s = Rd_Draining" by (auto split: if_splits)
  have "shutdown_work (drain_step True s) < shutdown_work s"
    using assms(1) r by (intro work_drain [of a]) (simp_all add: flow_ok_def)
  with r show ?thesis by simp
next
  case Send
  with assms(2,4) obtain batch final drained where "sy_reader s = Rd_Sending batch final drained"
    "s' = s\<lparr>sy_channel := sy_channel s @ [batch], sy_reader := after_send final drained\<rparr>"
    by (auto simp: send_step_def phases_ok_def split: reader_phase.splits if_splits)
  then show ?thesis by (simp add: shutdown_work_def unread_def monitor_work_def flags)
next
  case Take
  with assms(4) have "take_step s = Some s'" by simp
  then have "shutdown_work s' < shutdown_work s"
    by (rule taken_batch) (simp add: shutdown_work_def unread_def monitor_work_def flags)
  then show ?thesis by simp
next
  case (Handle e order now)
  with assms(4) have "handle_step e order now s = Some s'" by simp
  then have "shutdown_work s' < shutdown_work s"
    by (cases rule: handled_batch) (simp_all add: shutdown_work_def unread_def monitor_work_def flags)
  then show ?thesis by simp
next
  case Begin_Drain
  with assms(4) have "s' = s\<lparr>sy_reader := Rd_Draining\<rparr>" "sy_reader s = Rd_Waiting" by (auto split: if_splits)
  then show ?thesis by (simp add: shutdown_work_def unread_def monitor_work_def flags)
next
  case Reader_Fails
  with assms(4) have "s' = s\<lparr>sy_reader := Rd_Failed\<rparr>" "sy_reader s = Rd_Waiting" by (auto split: if_splits)
  then show ?thesis by (simp add: shutdown_work_def unread_def monitor_work_def flags)
next
  case Close
  with assms(4) have "s' = s\<lparr>sy_aggregator := Agg_Ended\<rparr>" "sy_aggregator s = Agg_Receiving" by (auto split: if_splits)
  then show ?thesis by (simp add: shutdown_work_def unread_def monitor_work_def flags)
next
  case (Other_Task op)
  with assms(4) have "s' = s\<lparr>sy_state := apply_state_op op (sy_state s)\<rparr>" by simp
  with Other_Task show ?thesis by (simp add: shutdown_work_def unread_def monitor_work_def flags)
next
  case Sample
  with assms(4) obtain d where "s' = s\<lparr>sy_monitor := Mo_Sampled d\<rparr>" "sy_monitor s = Mo_Waiting"
    by (auto simp del: upt.simps split: if_splits)
  with Sample show ?thesis by (simp add: shutdown_work_def unread_def monitor_work_def flags)
next
  case Publish
  with assms(4) obtain d state where "s' = s\<lparr>sy_monitor := Mo_Published d, sy_state := state\<rparr>" "sy_monitor s = Mo_Sampled d"
    by (auto split: monitor_phase.splits)
  with Publish show ?thesis by (simp add: shutdown_work_def unread_def monitor_work_def flags)
next
  case Check
  with assms(4) obtain d where "s' = s\<lparr>sy_monitor := (if stats_stopped s then Mo_Ended d else Mo_Waiting)\<rparr>" "sy_monitor s = Mo_Published d"
    by (auto split: monitor_phase.splits)
  with Check show ?thesis by (cases "stats_stopped s") (simp_all add: shutdown_work_def unread_def monitor_work_def flags)
next
  case Monitor_Fails
  with assms(4) have "s' = s\<lparr>sy_monitor := Mo_Failed\<rparr>" "sy_monitor s = Mo_Waiting" by (auto split: if_splits)
  with Monitor_Fails show ?thesis by (simp add: shutdown_work_def unread_def monitor_work_def flags)
next
  case Advance
  with assms(4) have "shutdown_work s' < shutdown_work s" by (intro work_advance) simp
  then show ?thesis by simp
qed

definition shutting_down :: "arch \<Rightarrow> nat \<Rightarrow> string list \<Rightarrow> nat \<Rightarrow> system \<Rightarrow> bool" where
  "shutting_down a cpus ex window s \<longleftrightarrow> interleaved a cpus ex window s \<and> detached s"

interpretation shutdown: measured_system "sys_step a cpus" "shutting_down a cpus ex window" helpful shutdown_work
  for a cpus ex window
proof unfold_locales
  fix s act s'
  assume s: "shutting_down a cpus ex window s" "sys_step a cpus act s = Some s'"
  then have i: "interleaved a cpus ex window s" "detached s" by (simp_all add: shutting_down_def)
  note step = work_step [OF interleaved_ok(1,2) [OF i(1)] i(2) s(2)]
  show "shutting_down a cpus ex window s'"
    using interleaved_step [OF i(1) s(2)] rank_step [OF s(2)] i(2) by (simp add: shutting_down_def detached_def)
  show "shutdown_work s' \<le> shutdown_work s" using step by blast
  assume "helpful s act"
  with step show "shutdown_work s' < shutdown_work s" by blast
qed

text \<open>Some task the shutdown waits for can always go on.\<close>

lemma advance_enabled: "rank (sy_main s) \<in> {0, 1, 2, 3, 6} \<Longrightarrow> advance s \<noteq> None"
  by (cases "sy_main s") (simp_all add: advance_def)

lemma handle_enabled: "sy_aggregator s = Agg_Handling flag batch \<Longrightarrow> handle_step e order now s \<noteq> None"
  by (simp add: handle_step_def split: option.split prod.split)

lemma aggregator_enabled:
  assumes "phases_ok s" and "sy_channel s \<noteq> []" and "\<not> aggregator_over s"
  shows "\<exists>act. helpful s act \<and> sys_step a cpus act s \<noteq> None"
proof (cases "sy_aggregator s")
  case Agg_Receiving
  with assms(2) show ?thesis by (intro exI [of _ Take]) (simp add: take_step_def split: list.split)
next
  case (Agg_Handling flag batch)
  with handle_enabled show ?thesis by (intro exI [of _ "Handle sample_env rev 0"]) simp
qed (use assms(3) in \<open>simp_all add: aggregator_over_def\<close>)

lemma reader_enabled:
  assumes "phases_ok s" and "reader_stopped s" and "\<not> reader_over s"
  shows "\<exists>act. helpful s act \<and> sys_step a cpus act s \<noteq> None"
proof (cases "sy_reader s")
  case Rd_Waiting
  with assms(2) show ?thesis by (intro exI [of _ Begin_Drain]) simp
next
  case Rd_Draining
  then show ?thesis by (intro exI [of _ Drain]) simp
next
  case (Rd_Sending batch final drained)
  show ?thesis
  proof (cases "length (sy_channel s) < CHANNEL_CAPACITY")
    case True
    with Rd_Sending show ?thesis by (intro exI [of _ Send]) (simp add: send_step_def)
  next
    case False
    then have "sy_channel s \<noteq> []" by (auto simp: CHANNEL_CAPACITY_def)
    moreover have "\<not> aggregator_over s"
      using assms(1,3) by (auto simp: phases_ok_def aggregator_over_def)
    ultimately show ?thesis by (intro aggregator_enabled [OF assms(1)])
  qed
qed (use assms(3) in \<open>simp_all add: reader_over_def\<close>)

lemma shutdown_enabled:
  assumes "phases_ok s" and "sy_main s \<noteq> Finished"
  shows "\<exists>act. helpful s act \<and> sys_step a cpus act s \<noteq> None"
proof (cases "rank (sy_main s) \<in> {0, 1, 2, 3, 6}")
  case True
  with advance_enabled show ?thesis by (intro exI [of _ Advance]) simp
next
  case False
  then consider (reader) "sy_main s = Reader_Stopped" | (aggregator) "sy_main s = Reader_Joined" | (stats) "sy_main s = Stats_Stopped"
    using assms(2) by (cases "sy_main s") auto
  then show ?thesis
  proof cases
    case reader
    show ?thesis
    proof (cases "reader_over s")
      case True
      with reader show ?thesis by (intro exI [of _ Advance]) (simp add: advance_def)
    next
      case False
      with reader reader_enabled [OF assms(1)] show ?thesis by (simp add: flags)
    qed
  next
    case aggregator
    then have over: "reader_over s" using assms(1) by (simp add: phases_ok_def)
    consider "sy_aggregator s = Agg_Receiving" "sy_channel s = []" | "sy_aggregator s = Agg_Receiving" "sy_channel s \<noteq> []"
      | flag batch where "sy_aggregator s = Agg_Handling flag batch" | "aggregator_over s"
      by (cases "sy_aggregator s") (auto simp: aggregator_over_def)
    then show ?thesis
    proof cases
      case 1
      with over show ?thesis by (intro exI [of _ Close]) simp
    next
      case 2
      then show ?thesis by (intro aggregator_enabled [OF assms(1)]) (simp_all add: aggregator_over_def)
    next
      case 3
      with handle_enabled show ?thesis by (intro exI [of _ "Handle sample_env rev 0"]) simp
    next
      case 4
      with aggregator show ?thesis by (intro exI [of _ Advance]) (simp add: advance_def)
    qed
  next
    case stats
    then have stopped: "stats_stopped s" by (simp add: flags)
    show ?thesis
    proof (cases "sy_monitor s")
      case Mo_Waiting
      with stopped show ?thesis by (intro exI [of _ Sample]) simp
    next
      case (Mo_Sampled d)
      with stopped show ?thesis by (intro exI [of _ Publish]) simp
    next
      case (Mo_Published d)
      with stopped show ?thesis by (intro exI [of _ Check]) simp
    qed (use stats in \<open>intro exI [of _ Advance], simp add: advance_def\<close>)+
  qed
qed


subsection \<open>What has happened when the program ends\<close>

fun snapshot_in :: "monitor_phase \<Rightarrow> drop_snapshot option" where
  "snapshot_in (Mo_Sampled d) = Some d"
| "snapshot_in (Mo_Published d) = Some d"
| "snapshot_in (Mo_Ended d) = Some d"
| "snapshot_in m = None"

definition snapshot_ok :: "system \<Rightarrow> bool" where
  "snapshot_ok s \<longleftrightarrow>
     (\<forall>d. snapshot_in (sy_monitor s) = Some d \<longrightarrow>
        ds_parse d = 0 \<and> ds_queue d = 0 \<and> unat (ds_shutdown d) \<le> unat (shutdown_discarded (sy_drops s)))"

lemma drops_grow:
  assumes "sys_step a cpus act s = Some s'" and "flow_ok a s" and "phases_ok s"
  shows "unat (shutdown_discarded (sy_drops s)) \<le> unat (shutdown_discarded (sy_drops s'))"
proof (cases "\<exists>e order now. act = Handle e order now")
  case True
  then obtain e order now where "handle_step e order now s = Some s'" using assms(1) by auto
  then show ?thesis by (cases rule: handled_batch) (simp_all add: record_shutdown_discarded_def sat_add_mono)
next
  case False
  with quiet_step [OF assms] show ?thesis by auto
qed

lemma monitor_step:
  "sys_step a cpus act s = Some s' \<Longrightarrow> act \<notin> {Sample, Publish, Check, Monitor_Fails} \<Longrightarrow> sy_monitor s' = sy_monitor s"
proof (cases act)
  case Advance
  assume "sys_step a cpus act s = Some s'"
  with Advance show ?thesis by (cases "sy_main s"; cases "sy_monitor s") (auto simp: advance_def split: if_splits)
qed (auto simp: drain_step_def send_step_def take_step_def handle_step_def split: if_splits prod.splits reader_phase.splits
      aggregator_phase.splits list.splits option.splits)

lemma snapshot_step:
  assumes "flow_ok a s" and "phases_ok s" and "counts_ok s" and "snapshot_ok s" and "sys_step a cpus act s = Some s'"
  shows "snapshot_ok s'"
proof (cases "act \<in> {Sample, Publish, Check, Monitor_Fails}")
  case False
  with monitor_step [OF assms(5)] drops_grow [OF assms(5,1,2)] assms(4) show ?thesis
    by (fastforce simp: snapshot_ok_def)
next
  case True
  then consider "act = Sample" | "act = Publish" | "act = Check" | "act = Monitor_Fails" by blast
  then show ?thesis
  proof cases
    case 1
    with assms(5) have "s' = s\<lparr>sy_monitor := Mo_Sampled (take_snapshot (map (ks_stats (sy_kernel s)) [0..<cpus]) (sy_drops s))\<rparr>"
      by (auto simp del: upt.simps split: if_splits)
    with assms(3) show ?thesis by (simp add: snapshot_ok_def take_snapshot_def Let_def counts_ok_def)
  next
    case 2
    with assms(4,5) show ?thesis by (auto simp: snapshot_ok_def split: monitor_phase.splits)
  next
    case 3
    with assms(4,5) show ?thesis by (auto simp: snapshot_ok_def split: monitor_phase.splits if_splits)
  next
    case 4
    with assms(5) have "s' = s\<lparr>sy_monitor := Mo_Failed\<rparr>" by (auto split: if_splits)
    then show ?thesis by (simp add: snapshot_ok_def)
  qed
qed

lemma interleaved_snapshot: "interleaved a cpus ex window s \<Longrightarrow> snapshot_ok s"
proof (induction rule: interleaved.induct)
  case interleaved_init
  show ?case by (simp add: snapshot_ok_def init_system_def)
next
  case (interleaved_step s act s')
  from snapshot_step [OF interleaved_ok(1,2,3) [OF interleaved_step.hyps(1)] interleaved_step.IH interleaved_step.hyps(2)]
  show ?case .
qed


subsection \<open>A concrete run\<close>

text \<open>
  One record is submitted, read and sent; the output ends; the monitor samples the counters just
  before the batch is discarded and is suspended, waiting for the lock, until the whole shutdown has
  passed.
\<close>

definition sample_machine :: kstate where
  "sample_machine = kstep x86_64 (Sys_Exit 5) (sample_ctx 1 30) (kstep x86_64 (Sys_Enter 0) (sample_ctx 1 10) init_kstate)"

definition sample_captures :: "action list" where
  "sample_captures = [Kernel (Sys_Enter 0) (sample_ctx 1 10), Kernel (Sys_Exit 5) (sample_ctx 1 30)]"

definition sample_shutdown :: "action list" where
  "sample_shutdown =
     [Read_Ring, Send, Advance, Advance, Sample, Take, Handle sample_env rev 0, Advance, Advance,
      Begin_Drain, Drain, Advance, Close, Advance, Advance, Publish, Check, Advance]"

lemma interleaved_run:
  "interleaved a cpus ex window s \<Longrightarrow> run_actions (sys_step a cpus) acts s = Some s' \<Longrightarrow> interleaved a cpus ex window s'"
  by (induction acts arbitrary: s) (auto split: option.splits intro: interleaved_step)

lemma sample_machine_facts: "ks_ring sample_machine = [sample_record]" "captured x86_64 sample_machine"
  unfolding sample_machine_def using sample_captured sample_ring_record by simp_all

lemma sample_captured_run:
  "run_actions (sys_step x86_64 0) sample_captures (init_system 5 []) = Some (init_system 5 []\<lparr>sy_kernel := sample_machine\<rparr>)"
proof -
  have "probe_ok (sample_ctx 1 t)" for t by (simp add: sample_simps)
  then show ?thesis
    by (simp add: sample_captures_def sample_machine_def init_system_def flags del: kstep.simps)
qed

lemma sample_reachable: "interleaved x86_64 0 [] 5 (init_system 5 []\<lparr>sy_kernel := sample_machine\<rparr>)"
  by (rule interleaved_run [OF interleaved_init sample_captured_run])

lemma sample_event: "\<exists>ev. parse_event sample_record = Some ev"
  using captured_record_parses [OF sample_machine_facts(2)] sample_machine_facts(1) by simp

lemma sample_shutdown_run:
  assumes "parse_event sample_record = Some ev"
  shows "\<exists>s d. run_actions (sys_step x86_64 0) sample_shutdown (init_system 5 []\<lparr>sy_kernel := sample_machine\<rparr>) = Some s \<and>
    sy_main s = Finished \<and> sy_reader s = Rd_Ended \<and> sy_monitor s = Mo_Ended d \<and> ds_shutdown d = 0 \<and> discarded s = [[ev]] \<and>
    sy_kernel s = sample_machine"
  using assms
  by (simp add: sample_shutdown_def init_system_def drain_step_def drain_ring_batch_def drain_records_eq unread_def
      sample_machine_facts MAX_BATCH_EVENTS_def List.map_filter_simps send_step_def take_step_def handle_step_def advance_def
      after_send_def CHANNEL_CAPACITY_def handle_aggregator_batch_def flags overs discarded_def
      take_snapshot_def no_drops_def Let_def)

text \<open>The monitor's last sample can be older than the discards it is to report.\<close>

lemma final_sample_misses_discards:
  "\<exists>s d. interleaved x86_64 0 [] 5 s \<and> sy_main s = Finished \<and> sy_monitor s = Mo_Ended d \<and>
     ds_shutdown d = 0 \<and> length (concat (discarded s)) = 1"
proof -
  obtain ev where "parse_event sample_record = Some ev" using sample_event by blast
  from sample_shutdown_run [OF this] interleaved_run [OF sample_reachable] show ?thesis by fastforce
qed




text \<open>The same record ingested before the output ends.\<close>

lemma calm_run:
  "calm a cpus ex window e s \<Longrightarrow> list_all (undisturbed e s) acts \<Longrightarrow> Publish \<notin> set acts \<Longrightarrow>
   run_actions (sys_step a cpus) acts s = Some s' \<Longrightarrow> calm a cpus ex window e s'"
proof (induction acts arbitrary: s)
  case (Cons act acts)
  then obtain s1 where s1: "sys_step a cpus act s = Some s1" "run_actions (sys_step a cpus) acts s1 = Some s'"
    by (auto split: option.splits)
  have same: "undisturbed e s1 b = undisturbed e s b" if "b \<noteq> Publish" for b using that by (cases b) simp_all
  have "undisturbed e s1 b" if "b \<in> set acts" for b
    using that Cons.prems(2,3) same [of b] by (cases "b = Publish") (auto simp: list_all_iff)
  then have "list_all (undisturbed e s1) acts" by (simp add: list_all_iff)
  with Cons.IH [OF calm_step [OF Cons.prems(1) _ s1(1)]] Cons.prems(2,3) s1(2) show ?case by simp
qed simp


end
