(* ===== verification/Format.thy ===== *)
theory Format
  imports Complex_Main Rates
begin

section \<open>Figures (ncda/src/tui/footer.rs)\<close>

text \<open>
  How byte counts, operation counts, latencies and rates are rendered: \<open>format_scaled\<close>,
  \<open>format_bytes\<close>, \<open>format_count\<close> and \<open>format_latency\<close>. The \<open>f64\<close> values they compute with are
  nonnegative rationals: every operation is the exact one followed by \<open>f64\<close>, the rounding to 53
  significant bits (ties to even). Neither overflow nor subnormals occur: the values are quotients
  of 64-bit integers. \<open>{:.1}\<close> and \<open>{:.0}\<close> print the exact value of the double rounded to the
  digits asked for, ties to even.
\<close>

subsection \<open>Rounding to a double\<close>

definition half_even :: "rat \<Rightarrow> int" where
  "half_even x =
     (let n = \<lfloor>x\<rfloor>; r = x - of_int n
      in if r < 1 / 2 then n else if r > 1 / 2 then n + 1 else if even n then n else n + 1)"

fun bit_count :: "nat \<Rightarrow> nat" where
  "bit_count n = (if n = 0 then 0 else Suc (bit_count (n div 2)))"

declare bit_count.simps [simp del]

text \<open>The exponent of the leading bit of a positive value.\<close>

definition binade :: "rat \<Rightarrow> int" where
  "binade x =
     (if 1 \<le> x then int (bit_count (nat \<lfloor>x\<rfloor>)) - 1 else - int (bit_count (nat (\<lceil>1 / x\<rceil> - 1))))"

definition f64 :: "rat \<Rightarrow> rat" where
  "f64 x =
     (if x \<le> 0 then 0
      else let ulp = 2 powi (binade x - 52) in of_int (half_even (x / ulp)) * ulp)"

definition f64_of_u64 :: "u64 \<Rightarrow> rat" where
  "f64_of_u64 n = f64 (of_nat (unat n))"

text \<open>The cast \<open>as u64\<close> truncates and saturates.\<close>

definition f64_to_u64 :: "rat \<Rightarrow> u64" where
  "f64_to_u64 x = (if x \<le> 0 then 0 else of_nat (min (nat \<lfloor>x\<rfloor>) (2 ^ 64 - 1)))"

subsection \<open>Formatting\<close>

text \<open>The formats \<open>{:.1}\<close> and \<open>{:.0}\<close>.\<close>

definition fixed1 :: "rat \<Rightarrow> string" where
  "fixed1 x = (let n = nat (half_even (x * 10)) in show_nat (n div 10) @ ''.'' @ show_nat (n mod 10))"

definition fixed0 :: "rat \<Rightarrow> string" where
  "fixed0 x = show_nat (nat (half_even x))"

function scale_loop :: "nat \<Rightarrow> nat \<Rightarrow> rat \<Rightarrow> nat \<Rightarrow> rat \<times> nat" where
  "scale_loop base units scaled unit =
     (if of_nat base \<le> scaled \<and> unit + 1 < units
      then scale_loop base units (f64 (scaled / of_nat base)) (unit + 1) else (scaled, unit))"
  by pat_completeness auto

termination scale_loop
  by (relation "measure (\<lambda>(base, units, scaled, unit). units - unit)") auto

declare scale_loop.simps [simp del]

definition format_scaled :: "u64 \<Rightarrow> nat \<Rightarrow> string list \<Rightarrow> string" where
  "format_scaled value base units =
     (let (scaled, unit) = scale_loop base (length units) (f64_of_u64 value) 0
      in if unit = 0 then show_word value @ units ! unit
         else if scaled < 100 then fixed1 scaled @ units ! unit
         else fixed0 scaled @ units ! unit)"

definition BYTE_UNITS :: "string list" where
  "BYTE_UNITS = [''B'', ''K'', ''M'', ''G'', ''T'', ''P'', ''E'']"

definition COUNT_UNITS :: "string list" where
  "COUNT_UNITS = ['''', ''K'', ''M'', ''B'', ''T'', ''Q'', ''Qi'']"

definition format_bytes_raw :: "u64 \<Rightarrow> string" where
  "format_bytes_raw bytes = format_scaled bytes 1024 BYTE_UNITS"

definition format_bytes :: "u64 \<Rightarrow> string" where
  "format_bytes b = format_bytes_raw b"

definition format_count :: "u64 \<Rightarrow> string" where
  "format_count n = format_scaled n 1000 COUNT_UNITS"

definition format_latency :: "u64 \<Rightarrow> string" where
  "format_latency ns =
     (if ns \<ge> 1000000000 then fixed1 (f64 (f64_of_u64 ns / 1000000000)) @ ''s''
      else if ns \<ge> 1000000 then fixed1 (f64 (f64_of_u64 ns / 1000000)) @ ''ms''
      else if ns \<ge> 1000 then fixed1 (f64 (f64_of_u64 ns / 1000)) @ ''us''
      else show_word ns @ ''ns'')"

text \<open>\<open>Duration::as_secs_f64\<close>, and the value of a rate.\<close>

definition as_secs_f64 :: "nat \<Rightarrow> rat" where
  "as_secs_f64 d = f64 (f64 (of_nat (d div 10 ^ 9)) + f64 (of_nat (d mod 10 ^ 9) / 10 ^ 9))"

fun rate_f64 :: "rate \<Rightarrow> rat" where
  "rate_f64 ZeroRate = 0"
| "rate_f64 (BytesPer bytes window) = f64 (f64_of_u64 bytes / as_secs_f64 window)"

subsection \<open>Rounding facts\<close>

lemma half_even_bounds: "of_int (half_even x) \<le> x + 1 / 2" "x - 1 / 2 \<le> of_int (half_even x)"
proof -
  have floor: "of_int \<lfloor>x\<rfloor> \<le> x" "x < of_int \<lfloor>x\<rfloor> + 1" by linarith+
  consider "half_even x = \<lfloor>x\<rfloor>" "x - of_int \<lfloor>x\<rfloor> \<le> 1 / 2" | "half_even x = \<lfloor>x\<rfloor> + 1" "1 / 2 \<le> x - of_int \<lfloor>x\<rfloor>"
    unfolding half_even_def Let_def by (metis linear not_less)
  then have "of_int (half_even x) \<le> x + 1 / 2 \<and> x - 1 / 2 \<le> of_int (half_even x)"
  proof cases
    case 1
    then show ?thesis using floor by (simp only: of_int_add of_int_1) linarith
  next
    case 2
    then show ?thesis using floor by (simp only: of_int_add of_int_1) linarith
  qed
  then show "of_int (half_even x) \<le> x + 1 / 2" "x - 1 / 2 \<le> of_int (half_even x)" by simp_all
qed

lemma half_even_int: "half_even (of_int n) = n"
  by (simp add: half_even_def Let_def)

lemma half_even_le: "x \<le> of_int n \<Longrightarrow> half_even x \<le> n"
proof -
  assume "x \<le> of_int n"
  moreover have "of_int (half_even x) \<le> x + 1 / 2" by (rule half_even_bounds)
  ultimately have "(of_int (half_even x) :: rat) < of_int (n + 1)" by simp
  then show ?thesis by linarith
qed

lemma half_even_ge: "of_int n \<le> x \<Longrightarrow> n \<le> half_even x"
proof -
  assume "of_int n \<le> x"
  moreover have "x - 1 / 2 \<le> of_int (half_even x)" by (rule half_even_bounds)
  ultimately have "(of_int (n - 1) :: rat) < of_int (half_even x)" by simp
  then show ?thesis by linarith
qed

lemma bit_count_bounds: "0 < n \<Longrightarrow> 2 ^ (bit_count n - 1) \<le> n \<and> n < 2 ^ bit_count n"
proof (induction n rule: bit_count.induct)
  case (1 n)
  show ?case
  proof (cases "n div 2 = 0")
    case True
    with "1.prems" have "n = 1" by simp
    then show ?thesis by (simp add: bit_count.simps)
  next
    case False
    with 1 have IH: "2 ^ (bit_count (n div 2) - 1) \<le> n div 2" "n div 2 < 2 ^ bit_count (n div 2)" by simp_all
    have pos: "0 < bit_count (n div 2)" using False by (subst bit_count.simps) simp
    have "(2::nat) ^ bit_count (n div 2) = 2 * 2 ^ (bit_count (n div 2) - 1)" using pos by (cases "bit_count (n div 2)") simp_all
    moreover have "bit_count n = Suc (bit_count (n div 2))" using "1.prems" by (subst bit_count.simps) simp
    moreover have "2 * (n div 2) \<le> n" "n < 2 * (n div 2) + 2" by simp_all
    ultimately show ?thesis using IH by (simp only: power_Suc diff_Suc_1) linarith
  qed
qed

text \<open>Only powers of two matter as bounds: a double never rounds past one.\<close>

lemma binade_upper:
  assumes "0 < x" and "2 ^ k < x"
  shows "int k \<le> binade x"
proof -
  have big: "1 \<le> x" using assms(2) one_le_power [of "2 :: rat" k] by linarith
  have "(2 :: int) ^ k \<le> \<lfloor>x\<rfloor>" using assms(2) by (simp add: le_floor_iff)
  then have "2 ^ k \<le> nat \<lfloor>x\<rfloor>" by (simp add: le_nat_iff)
  moreover have "nat \<lfloor>x\<rfloor> < 2 ^ bit_count (nat \<lfloor>x\<rfloor>)" using big by (intro conjunct2 [OF bit_count_bounds]) simp
  ultimately have "(2 :: nat) ^ k < 2 ^ bit_count (nat \<lfloor>x\<rfloor>)" by linarith
  then have "k < bit_count (nat \<lfloor>x\<rfloor>)" by simp
  with big show ?thesis by (simp add: binade_def)
qed

lemma f64_nonneg: "0 \<le> f64 x"
proof (cases "x \<le> 0")
  case False
  then have "0 \<le> half_even (x / 2 powi (binade x - 52))" by (intro half_even_ge) simp
  with False show ?thesis by (simp add: f64_def Let_def)
qed (simp add: f64_def)

lemma binade_lower:
  assumes "0 < x"
  shows "2 powi binade x \<le> x"
proof (cases "1 \<le> x")
  case True
  let ?n = "nat \<lfloor>x\<rfloor>"
  have pos: "0 < ?n" using True by simp
  have "bit_count ?n \<noteq> 0" using pos by (subst bit_count.simps) simp
  then have "(2 :: rat) powi binade x = 2 ^ (bit_count ?n - 1)"
    using True by (simp add: binade_def power_int_def nat_diff_distrib)
  also have "\<dots> \<le> of_nat ?n" using bit_count_bounds [OF pos] by (metis of_nat_le_iff of_nat_numeral of_nat_power)
  also have "\<dots> \<le> x" using True by linarith
  finally show ?thesis .
next
  case False
  let ?m = "nat (\<lceil>1 / x\<rceil> - 1)"
  have "1 < 1 / x" using False assms by simp
  then have "1 < \<lceil>1 / x\<rceil>" by (simp add: less_ceiling_iff)
  then have pos: "0 < ?m" by simp
  have "?m < 2 ^ bit_count ?m" using bit_count_bounds [OF pos] by simp
  then have "int ?m < 2 ^ bit_count ?m" by (metis of_nat_less_iff of_nat_numeral of_nat_power)
  moreover have "int ?m = \<lceil>1 / x\<rceil> - 1" using pos by linarith
  ultimately have "\<lceil>1 / x\<rceil> \<le> 2 ^ bit_count ?m" by linarith
  then have "1 / x \<le> of_int (2 ^ bit_count ?m)" by (simp only: ceiling_le_iff)
  then have "1 / 2 ^ bit_count ?m \<le> x" using assms by (simp add: field_simps)
  then show ?thesis using False by (simp add: binade_def power_int_minus_divide)
qed

lemma powi_quotient: "a \<le> b \<Longrightarrow> of_nat m * (2 :: rat) powi b / 2 powi a = of_int (int m * 2 ^ nat (b - a))"
proof -
  assume "a \<le> b"
  have "(2 :: rat) powi b / 2 powi a = 2 powi (b - a)" by (subst power_int_diff) simp_all
  also have "\<dots> = 2 ^ nat (b - a)" using \<open>a \<le> b\<close> by (simp add: power_int_def)
  finally have "of_nat m * ((2 :: rat) powi b / 2 powi a) = of_nat m * 2 ^ nat (b - a)" by simp
  then show ?thesis by (simp only: times_divide_eq_right) simp
qed

text \<open>A multiple of the last place is kept, and no value is rounded past one.\<close>

lemma f64_multiple:
  assumes "0 < x" and "y / 2 powi (binade x - 52) = of_int n"
  shows "x = y \<Longrightarrow> f64 x = y" and "x \<le> y \<Longrightarrow> f64 x \<le> y"
proof -
  let ?ulp = "2 powi (binade x - 52) :: rat"
  have ulp: "0 < ?ulp" by simp
  then have y: "y = of_int n * ?ulp" using assms(2) by (simp add: field_simps)
  show "f64 x = y" if "x = y" using that assms half_even_int [of n] y by (simp add: f64_def Let_def)
  assume "x \<le> y"
  then have "x / ?ulp \<le> of_int n" using assms(2) ulp by (metis divide_right_mono less_imp_le)
  then have "half_even (x / ?ulp) \<le> n" by (rule half_even_le)
  then have "of_int (half_even (x / ?ulp)) * ?ulp \<le> of_int n * ?ulp" using ulp by (intro mult_right_mono) simp_all
  with assms(1) y show "f64 x \<le> y" by (simp add: f64_def Let_def)
qed

lemma f64_exact:
  assumes "m < 2 ^ 53"
  shows "f64 (of_nat m * 2 powi j) = of_nat m * 2 powi j"
proof (cases "m = 0")
  case False
  let ?x = "of_nat m * 2 powi j :: rat"
  have pos: "0 < ?x" using False by simp
  have "(of_nat m :: rat) < of_nat (2 ^ 53)" using assms by (simp only: of_nat_less_iff)
  then have "?x < 2 ^ 53 * 2 powi j" by simp
  also have "(2 :: rat) ^ 53 * 2 powi j = 2 powi (53 + j)" by (simp add: power_int_add)
  finally have "(2 :: rat) powi binade ?x < 2 powi (53 + j)" using binade_lower [OF pos] by linarith
  then have "binade ?x < 53 + j"
    using power_int_increasing [of "53 + j" "binade ?x" "2 :: rat"] by (cases "53 + j \<le> binade ?x") simp_all
  then have "binade ?x - 52 \<le> j" by simp
  then have "?x / 2 powi (binade ?x - 52) = of_int (int m * 2 ^ nat (j - (binade ?x - 52)))"
    by (rule powi_quotient)
  with pos show ?thesis by (rule f64_multiple) simp
qed (simp add: f64_def)

lemma f64_le:
  assumes "x \<le> of_nat m * 2 ^ j" and "m < 2 ^ 53"
  shows "f64 x \<le> of_nat m * 2 ^ j"
proof (cases "x \<le> 0")
  case False
  then have pos: "0 < x" by simp
  show ?thesis
  proof (cases "binade x - 52 \<le> int j")
    case True
    have "of_nat m * 2 ^ j / 2 powi (binade x - 52) = (of_int (int m * 2 ^ nat (int j - (binade x - 52))) :: rat)"
      using powi_quotient [OF True, of m] by simp
    from f64_multiple(2) [OF pos this assms(1)] show ?thesis .
  next
    case False
    have "(of_nat m :: rat) < of_nat (2 ^ 53)" using assms(2) by (simp only: of_nat_less_iff)
    then have "of_nat m * 2 ^ j < (2 :: rat) ^ 53 * 2 ^ j" by simp
    also have "\<dots> = 2 powi (53 + int j)" by (simp add: power_int_add)
    also have "\<dots> \<le> 2 powi binade x" using False by (intro power_int_increasing) simp_all
    finally show ?thesis using binade_lower [OF pos] assms(1) by linarith
  qed
qed (simp add: f64_def)

subsection \<open>Widths\<close>

lemma length_show_nat: "n < 10 ^ k \<Longrightarrow> 0 < k \<Longrightarrow> length (show_nat n) \<le> k"
proof (induction n arbitrary: k rule: show_nat.induct)
  case (1 n)
  show ?case
  proof (cases "n < 10")
    case True
    with "1.prems" show ?thesis by (simp add: show_nat.simps [of n])
  next
    case False
    with "1.prems" obtain j where j: "k = Suc j" "0 < j" by (cases k; cases "k - 1") auto
    with "1.prems" have "n div 10 < 10 ^ j" by (simp add: less_mult_imp_div_less mult.commute)
    with "1.IH" [OF False _ j(2)] False j show ?thesis by (simp add: show_nat.simps [of n])
  qed
qed

lemma length_fixed1:
  assumes "x \<le> of_nat m / 10" and "m < 10 ^ (k + 1)" and "0 < k"
  shows "length (fixed1 x) \<le> k + 2"
proof -
  let ?n = "nat (half_even (x * 10))"
  have "x * 10 \<le> of_int (int m)" using assms(1) by (simp add: field_simps)
  then have "half_even (x * 10) \<le> int m" by (rule half_even_le)
  then have "?n \<le> m" by simp
  then have "?n div 10 < 10 ^ k" using assms(2) by (intro less_mult_imp_div_less) (simp add: mult.commute)
  with assms(3) have "length (show_nat (?n div 10)) \<le> k" by (intro length_show_nat)
  moreover have "length (show_nat (?n mod 10)) \<le> 1" by (rule length_show_nat) simp_all
  ultimately show ?thesis by (simp add: fixed1_def Let_def)
qed

lemma length_fixed0: "x \<le> of_nat m \<Longrightarrow> m < 10 ^ k \<Longrightarrow> 0 < k \<Longrightarrow> length (fixed0 x) \<le> k"
proof -
  assume "x \<le> of_nat m" "m < 10 ^ k" "0 < k"
  then have "half_even x \<le> int m" by (intro half_even_le) simp
  with \<open>m < 10 ^ k\<close> have "nat (half_even x) < 10 ^ k" by linarith
  with \<open>0 < k\<close> show ?thesis by (simp add: fixed0_def length_show_nat)
qed

lemma f64_half: "0 < x \<Longrightarrow> x / 2 \<le> f64 x"
proof -
  assume x: "0 < x"
  let ?ulp = "2 powi (binade x - 52) :: rat"
  have ulp: "0 < ?ulp" by simp
  have "?ulp \<le> 2 powi binade x" by (intro power_int_increasing) simp_all
  then have "?ulp \<le> x" using binade_lower [OF x] by linarith
  then have q: "1 \<le> x / ?ulp" using ulp by simp
  have "q / 2 \<le> h" if "1 \<le> q" "q - 1 / 2 \<le> h" for q h :: rat using that by linarith
  from this [OF q half_even_bounds(2)]
  have "x / ?ulp / 2 * ?ulp \<le> of_int (half_even (x / ?ulp)) * ?ulp" using ulp by (intro mult_right_mono) simp_all
  with x ulp show ?thesis by (simp add: f64_def Let_def)
qed

lemma f64_u64_exact: "unat n < 2 ^ 53 \<Longrightarrow> f64_of_u64 n = of_nat (unat n)"
  using f64_exact [of "unat n" 0] by (simp add: f64_of_u64_def)

lemma f64_u64_small: "f64_of_u64 n < of_nat b \<Longrightarrow> b \<le> 2 ^ 52 \<Longrightarrow> unat n < b"
proof (cases "unat n < 2 ^ 53")
  case True
  assume "f64_of_u64 n < of_nat b"
  with f64_u64_exact [OF True] show ?thesis by (simp only: of_nat_less_iff)
next
  case False
  assume small: "f64_of_u64 n < of_nat b" "b \<le> 2 ^ 52"
  from False have big: "(2 :: rat) ^ 53 \<le> of_nat (unat n)" by (metis not_less of_nat_le_iff of_nat_numeral of_nat_power)
  have "of_nat (unat n) / 2 \<le> f64_of_u64 n" unfolding f64_of_u64_def by (rule f64_half) (use big in simp)
  moreover have "(of_nat b :: rat) \<le> 2 ^ 52" using small(2) by (metis of_nat_le_iff of_nat_numeral of_nat_power)
  ultimately show ?thesis using small(1) big by simp
qed

lemma scale_loop_unit: "unit \<le> snd (scale_loop base units scaled unit)"
proof (induction base units scaled unit rule: scale_loop.induct)
  case (1 base units scaled unit)
  then show ?case by (subst scale_loop.simps) auto
qed

lemma scale_loop_in_range: "unit < units \<Longrightarrow> snd (scale_loop base units scaled unit) < units"
proof (induction base units scaled unit rule: scale_loop.induct)
  case (1 base units scaled unit)
  then show ?case by (subst scale_loop.simps) auto
qed

text \<open>The scaling loop, with a bound for each unit.\<close>

lemma scale_loop_bound:
  assumes step: "\<And>u x. u + 1 < units \<Longrightarrow> x \<le> B u \<Longrightarrow> f64 (x / of_nat base) \<le> B (u + 1)"
  shows "scaled \<le> B unit \<Longrightarrow> unit < units \<Longrightarrow> scale_loop base units scaled unit = (s, u) \<Longrightarrow>
    u < units \<and> s \<le> B u \<and> (s < of_nat base \<or> u + 1 = units) \<and> (u = unit \<longrightarrow> s = scaled)"
proof (induction "units - unit" arbitrary: scaled unit rule: less_induct)
  case less
  show ?case
  proof (cases "of_nat base \<le> scaled \<and> unit + 1 < units")
    case True
    have "f64 (scaled / of_nat base) \<le> B (unit + 1)" using step True less.prems(1) by blast
    moreover have "scale_loop base units (f64 (scaled / of_nat base)) (unit + 1) = (s, u)"
      using less.prems(3) True by (subst (asm) scale_loop.simps) simp
    moreover have "unit + 1 \<le> u"
      using scale_loop_unit [of "unit + 1" base units "f64 (scaled / of_nat base)"] calculation(2) by simp
    moreover have "units - (unit + 1) < units - unit" "unit + 1 < units" using True by linarith+
    ultimately have "u < units \<and> s \<le> B u \<and> (s < of_nat base \<or> u + 1 = units)" using less.hyps by blast
    with \<open>unit + 1 \<le> u\<close> show ?thesis by simp
  next
    case False
    then have "scale_loop base units scaled unit = (scaled, unit)" by (subst scale_loop.simps) (simp only: if_False)
    with False less.prems show ?thesis by auto
  qed
qed

text \<open>No figure is wider than six characters.\<close>

definition byte_bound :: "nat \<Rightarrow> rat" where
  "byte_bound u = [2 ^ 64, 2 ^ 54, 2 ^ 44, 2 ^ 34, 2 ^ 24, 2 ^ 14, 2 ^ 4] ! u"

definition count_bound :: "nat \<Rightarrow> rat" where
  "count_bound u = [2 ^ 64, 4503662109375 * 2 ^ 12, 18447 * 10 ^ 9, 18447 * 10 ^ 6, 18447 * 10 ^ 3, 18447, 19] ! u"

lemma less_six: "u + 1 < (7 :: nat) \<longleftrightarrow> u \<in> {0, 1, 2, 3, 4, 5}"
  by auto

lemma byte_bound_step: "u + 1 < 7 \<Longrightarrow> x \<le> byte_bound u \<Longrightarrow> f64 (x / of_nat 1024) \<le> byte_bound (u + 1)"
  unfolding less_six
  using f64_le [of "x / 1024" 1 54] f64_le [of "x / 1024" 1 44] f64_le [of "x / 1024" 1 34]
    f64_le [of "x / 1024" 1 24] f64_le [of "x / 1024" 1 14] f64_le [of "x / 1024" 1 4]
  by (elim insertE) (simp_all add: byte_bound_def)

lemma count_bound_step: "u + 1 < 7 \<Longrightarrow> x \<le> count_bound u \<Longrightarrow> f64 (x / of_nat 1000) \<le> count_bound (u + 1)"
  unfolding less_six
  using f64_le [of "x / 1000" 4503662109375 12] f64_le [of "x / 1000" 18447000000000 0]
    f64_le [of "x / 1000" 18447000000 0] f64_le [of "x / 1000" 18447000 0] f64_le [of "x / 1000" 18447 0]
    f64_le [of "x / 1000" 19 0]
  by (elim insertE) (simp_all add: count_bound_def)

lemma f64_u64_bound: "f64_of_u64 n \<le> 2 ^ 64"
proof -
  have "(of_nat (unat n) :: rat) < of_nat (2 ^ 64)" using unsigned_less [of n] by (simp only: of_nat_less_iff) simp
  then show ?thesis using f64_le [of "of_nat (unat n)" 1 64] by (simp add: f64_of_u64_def)
qed

lemma format_scaled_length:
  assumes step: "\<And>u x. u + 1 < length units \<Longrightarrow> x \<le> B u \<Longrightarrow> f64 (x / of_nat base) \<le> B (u + 1)"
    and "B 0 = 2 ^ 64" and "B (length units - 1) \<le> 19" and "base \<le> 1024" and "1 < length units"
    and "\<And>u. u + 1 < length units \<Longrightarrow> length (units ! u) \<le> 1" and "length (last units) \<le> 2"
  shows "length (format_scaled v base units) \<le> 6"
proof -
  obtain s u where su: "scale_loop base (length units) (f64_of_u64 v) 0 = (s, u)" by fastforce
  have b: "u < length units" "s \<le> B u" "s < of_nat base \<or> u + 1 = length units" "u = 0 \<Longrightarrow> s = f64_of_u64 v"
    using scale_loop_bound [of "length units" B base, OF step _ _ su] f64_u64_bound [of v] assms(2,5)
    by (cases units; force)+
  have small: "(of_nat base :: rat) \<le> 1024" using assms(4) by (metis of_nat_le_iff of_nat_numeral)
  show ?thesis
  proof (cases "u + 1 = length units")
    case True
    then have "s \<le> 190 / 10" using b(2) assms(3) by (simp add: order_trans flip: True)
    then have "length (fixed1 s) \<le> 2 + 2" by (intro length_fixed1 [of s 190 2]) simp_all
    moreover have "units ! u = last units" using True by (metis add_diff_cancel_right' last_conv_nth list.size(3) zero_neq_one add_is_0)
    moreover have "u \<noteq> 0" "s < 100" using True assms(5) \<open>s \<le> 190 / 10\<close> by simp_all
    ultimately show ?thesis using su assms(7) by (simp add: format_scaled_def)
  next
    case False
    then have lt: "s < of_nat base" and len: "length (units ! u) \<le> 1" using b(1,3) assms(6) [of u] by auto
    have "length (fixed1 s) \<le> 3 + 2" if "s < 100" using that by (intro length_fixed1 [of s 1000 3]) simp_all
    moreover have "length (fixed0 s) \<le> 4" using lt small by (intro length_fixed0 [of s 1024 4]) simp_all
    moreover have "length (show_word v) \<le> 4" if "u = 0"
      using f64_u64_small [of v base] lt b(4) [OF that] assms(4) by (simp add: show_word_def length_show_nat)
    ultimately show ?thesis using su len by (auto simp: format_scaled_def)
  qed
qed

lemma format_bytes_length: "length (format_bytes b) \<le> 6"
  unfolding format_bytes_def format_bytes_raw_def
proof (rule format_scaled_length [of BYTE_UNITS byte_bound 1024])
  fix u x
  assume u: "u + 1 < length BYTE_UNITS"
  then show "length (BYTE_UNITS ! u) \<le> 1" by (auto simp: BYTE_UNITS_def less_Suc_eq)
  show "f64 (x / of_nat 1024) \<le> byte_bound (u + 1)" if "x \<le> byte_bound u"
    using byte_bound_step [OF _ that] u by (simp add: BYTE_UNITS_def)
qed (simp_all add: BYTE_UNITS_def byte_bound_def)

lemma format_count_length: "length (format_count n) \<le> 6"
  unfolding format_count_def
proof (rule format_scaled_length [of COUNT_UNITS count_bound 1000])
  fix u x
  assume u: "u + 1 < length COUNT_UNITS"
  then show "length (COUNT_UNITS ! u) \<le> 1" by (auto simp: COUNT_UNITS_def less_Suc_eq)
  show "f64 (x / of_nat 1000) \<le> count_bound (u + 1)" if "x \<le> count_bound u"
    using count_bound_step [OF _ that] u by (simp add: COUNT_UNITS_def)
qed (simp_all add: COUNT_UNITS_def count_bound_def)

subsection \<open>Accuracy\<close>

text \<open>Below 2^53 the binary scaling is exact.\<close>

lemma scale_loop_exact:
  assumes "m < 2 ^ 53"
  shows "unit < units \<Longrightarrow> scaled = of_nat m * 2 powi (- 10 * int unit) \<Longrightarrow> scale_loop 1024 units scaled unit = (s, u) \<Longrightarrow>
    unit \<le> u \<and> s = of_nat m * 2 powi (- 10 * int u) \<and> (unit < u \<longrightarrow> 1 \<le> s)"
proof (induction "units - unit" arbitrary: scaled unit rule: less_induct)
  case less
  show ?case
  proof (cases "of_nat 1024 \<le> scaled \<and> unit + 1 < units")
    case True
    let ?next = "f64 (scaled / of_nat 1024)"
    have pow: "(2 :: rat) powi (- 10 * int (unit + 1)) = 2 powi (- 10 * int unit) / 1024"
    proof -
      have e: "- 10 * int (unit + 1) = - 10 * int unit - 10" by simp
      show ?thesis unfolding e by (subst power_int_diff) simp_all
    qed
    have quot: "scaled / of_nat 1024 = of_nat m * 2 powi (- 10 * int (unit + 1))"
      unfolding less.prems(2) pow by simp
    then have eq: "?next = of_nat m * 2 powi (- 10 * int (unit + 1))" using f64_exact [OF assms] by (simp only:)
    have ge: "1 \<le> ?next" using True quot eq by (simp only: quot [symmetric]) simp
    have loop: "scale_loop 1024 units ?next (unit + 1) = (s, u)"
      using less.prems(3) True by (subst (asm) scale_loop.simps) simp
    have "units - (unit + 1) < units - unit" "unit + 1 < units" using True by linarith+
    then have IH: "unit + 1 \<le> u" "s = of_nat m * 2 powi (- 10 * int u)" "unit + 1 < u \<longrightarrow> 1 \<le> s"
      using less.hyps [OF _ _ eq loop] by blast+
    have "1 \<le> s" if "u = unit + 1" using IH(2) ge eq that by (simp only:)
    with IH show ?thesis by (cases "u = unit + 1") simp_all
  next
    case False
    then have "scale_loop 1024 units scaled unit = (scaled, unit)" by (subst scale_loop.simps) (simp only: if_False)
    with less.prems show ?thesis by simp
  qed
qed

text \<open>What a rendered figure says: the tenths or the units it shows.\<close>

definition tenths :: "nat \<Rightarrow> string" where
  "tenths n = show_nat (n div 10) @ ''.'' @ show_nat (n mod 10)"

lemma fixed1_tenths: "0 \<le> x \<Longrightarrow> \<exists>n. fixed1 x = tenths n \<and> \<bar>of_nat n / 10 - x\<bar> \<le> 1 / 20"
proof -
  assume "0 \<le> x"
  then have "0 \<le> half_even (x * 10)" by (intro half_even_ge) simp
  then have "(of_nat (nat (half_even (x * 10))) :: rat) = of_int (half_even (x * 10))" by simp
  moreover have "of_int (half_even (x * 10)) \<le> x * 10 + 1 / 2" "x * 10 - 1 / 2 \<le> of_int (half_even (x * 10))"
    by (rule half_even_bounds)+
  ultimately have "\<bar>of_nat (nat (half_even (x * 10))) / 10 - x\<bar> \<le> 1 / 20" by linarith
  then show ?thesis by (intro exI [of _ "nat (half_even (x * 10))"]) (simp add: fixed1_def tenths_def Let_def)
qed

lemma fixed0_units: "0 \<le> x \<Longrightarrow> \<exists>n. fixed0 x = show_nat n \<and> \<bar>of_nat n - x\<bar> \<le> 1 / 2"
proof -
  assume "0 \<le> x"
  then have "0 \<le> half_even x" by (intro half_even_ge) simp
  then have "(of_nat (nat (half_even x)) :: rat) = of_int (half_even x)" by simp
  moreover have "of_int (half_even x) \<le> x + 1 / 2" "x - 1 / 2 \<le> of_int (half_even x)" by (rule half_even_bounds)+
  ultimately have "\<bar>of_nat (nat (half_even x)) - x\<bar> \<le> 1 / 2" by linarith
  then show ?thesis by (intro exI [of _ "nat (half_even x)"]) (simp add: fixed0_def)
qed

lemma powi_divides: "x * (2 :: rat) powi (- 10 * int u) = x / 1024 ^ u"
proof -
  have e: "- 10 * int u = - int (10 * u)" by simp
  have "(2 :: rat) powi (- 10 * int u) = inverse (2 ^ (10 * u))" unfolding e power_int_minus power_int_of_nat ..
  also have "(2 :: rat) ^ (10 * u) = 1024 ^ u" by (subst power_mult) simp
  finally show ?thesis by (simp add: field_simps)
qed

text \<open>(C27) What is shown of a byte count is the count, to the digits shown: below one KiB the count
  itself, otherwise the count in the unit of the suffix, which keeps it between 1 and 1024 (the
  largest unit apart), to the nearest tenth below 100 and to the nearest integer from there.\<close>

theorem format_bytes_accurate:
  assumes "unat b < 2 ^ 53"
  shows "\<exists>u x n. u < 7 \<and> x = (of_nat (unat b) / 1024 ^ u :: rat) \<and>
    (u = 0 \<and> n = unat b \<and> n < 1024 \<and> format_bytes b = show_nat n @ ''B'' \<or>
     0 < u \<and> 1 \<le> x \<and> x < 100 \<and> \<bar>of_nat n / 10 - x\<bar> \<le> 1 / 20 \<and> format_bytes b = tenths n @ BYTE_UNITS ! u \<or>
     0 < u \<and> 100 \<le> x \<and> (x < 1024 \<or> u = 6) \<and> \<bar>of_nat n - x\<bar> \<le> 1 / 2 \<and> format_bytes b = show_nat n @ BYTE_UNITS ! u)"
proof -
  obtain s u where su: "scale_loop 1024 7 (f64_of_u64 b) 0 = (s, u)" by fastforce
  let ?x = "of_nat (unat b) / 1024 ^ u :: rat"
  have start: "f64_of_u64 b = of_nat (unat b) * 2 powi (- 10 * int 0)" using f64_u64_exact [OF assms] by simp
  have "0 \<le> u \<and> s = of_nat (unat b) * 2 powi (- 10 * int u) \<and> (0 < u \<longrightarrow> 1 \<le> s)"
    by (rule scale_loop_exact [OF assms _ start su]) simp
  then have x: "s = ?x" "0 < u \<longrightarrow> 1 \<le> ?x" unfolding powi_divides by metis+
  have u: "u < 7" "s < 1024 \<or> u + 1 = 7" "u = 0 \<Longrightarrow> s = f64_of_u64 b"
    using scale_loop_bound [of 7 byte_bound 1024, OF byte_bound_step _ _ su] f64_u64_bound [of b]
    by (simp_all add: byte_bound_def)
  have units: "length BYTE_UNITS = 7" "BYTE_UNITS ! 0 = ''B''" by (simp_all add: BYTE_UNITS_def)
  have shown: "format_bytes b = (if u = 0 then show_nat (unat b) @ ''B'' else if ?x < 100 then fixed1 ?x @ BYTE_UNITS ! u
      else fixed0 ?x @ BYTE_UNITS ! u)"
    using su x(1) by (simp add: format_bytes_def format_bytes_raw_def format_scaled_def units show_word_def)
  have nonneg: "0 \<le> ?x" by (intro divide_nonneg_nonneg of_nat_0_le_iff zero_le_power) simp
  consider "u = 0" | "0 < u" "?x < 100" | "0 < u" "100 \<le> ?x" by linarith
  then show ?thesis
  proof cases
    case 1
    with u x have "unat b < 1024" using f64_u64_small [of b 1024] by simp
    with 1 shown show ?thesis by (intro exI [of _ "0 :: nat"] exI [of _ "of_nat (unat b) :: rat"] exI [of _ "unat b"]) simp
  next
    case 2
    obtain n where n: "fixed1 ?x = tenths n" "\<bar>of_nat n / 10 - ?x\<bar> \<le> 1 / 20" using fixed1_tenths [OF nonneg] by blast
    with 2 x u shown show ?thesis by (intro exI [of _ u] exI [of _ ?x] exI [of _ n]) auto
  next
    case 3
    obtain n where n: "fixed0 ?x = show_nat n" "\<bar>of_nat n - ?x\<bar> \<le> 1 / 2" using fixed0_units [OF nonneg] by blast
    with 3 x u shown show ?thesis by (intro exI [of _ u] exI [of _ ?x] exI [of _ n]) auto
  qed
qed

subsection \<open>Examples\<close>

lemma bit_count_numeral [simp]:
  "bit_count 0 = 0" "bit_count 1 = 1" "bit_count (Suc 0) = 1" "bit_count (numeral (Num.Bit0 n)) = Suc (bit_count (numeral n))"
  "bit_count (numeral (Num.Bit1 n)) = Suc (bit_count (numeral n))"
  by (simp_all add: bit_count.simps [of "numeral _"] bit_count.simps [of "Suc 0"] bit_count.simps [of 0])

lemma floor_quotient [simp]: "\<lfloor>numeral a / numeral b :: rat\<rfloor> = numeral a div numeral b"
  using floor_divide_of_int_eq [of "numeral a" "numeral b", where 'a = rat] by simp

lemmas f64_eval = f64_def binade_def half_even_def Let_def

lemma sample_kib: "f64 (3 / 2) = 3 / 2" "f64_of_u64 1536 = 1536"
  by (simp_all add: f64_eval f64_of_u64_def)

lemma sample_ms: "f64_of_u64 999950000 = 999950000" "f64 (19999 / 20) = 4397826608778445 / 4398046511104"
  by (simp_all add: f64_eval f64_of_u64_def)

lemma show_digits: "show_nat (Suc 0) = ''1''" "show_nat 0 = ''0''" "show_nat 5 = ''5''" "show_nat 1000 = ''1000''"
  by (simp_all add: show_nat.simps char_of_eq_iff)

lemma fixed_tenths: "fixed1 (3 / 2) = ''1.5''" "fixed1 (4397826608778445 / 4398046511104) = ''1000.0''"
  by (simp_all add: fixed1_def half_even_def Let_def show_digits)

lemma format_1536: "format_bytes 1536 = ''1.5K''"
  by (simp add: format_bytes_def format_bytes_raw_def format_scaled_def scale_loop.simps BYTE_UNITS_def sample_kib fixed_tenths)

lemma format_almost_second: "format_latency 999950000 = ''1000.0ms''"
  by (simp add: format_latency_def sample_ms fixed_tenths)

theorem format_bytes_accurate_witness:
  "\<exists>u x n. u < 7 \<and> x = of_nat (unat (1536 :: u64)) / (1024 :: rat) ^ u \<and>
    (u = 0 \<and> n = unat (1536 :: u64) \<and> n < 1024 \<and> ''1.5K'' = show_nat n @ ''B'' \<or>
     0 < u \<and> 1 \<le> x \<and> x < 100 \<and> \<bar>of_nat n / 10 - x\<bar> \<le> 1 / 20 \<and> ''1.5K'' = tenths n @ BYTE_UNITS ! u \<or>
     0 < u \<and> 100 \<le> x \<and> (x < 1024 \<or> u = 6) \<and> \<bar>of_nat n - x\<bar> \<le> 1 / 2 \<and> ''1.5K'' = show_nat n @ BYTE_UNITS ! u)"
proof -
  have "unat (1536 :: u64) < 2 ^ 53" by simp
  from format_bytes_accurate [OF this] show ?thesis unfolding format_1536 .
qed

end
