(* ===== verification/Layout.thy ===== *)
theory Layout
  imports Format Paths
begin

section \<open>Columns and cells (ncda/src/tui/layout.rs)\<close>

text \<open>
  The width profiles of the tables, the fitting of text into cells and the activity bars.
  \<open>UnicodeWidthStr::width\<close> is not part of the program: it is the parameter \<open>w\<close>, and what the
  layout relies on is \<open>width_laws\<close>. A span is its text and its style, with the colours the code
  names.
\<close>

subsection \<open>Styles and spans\<close>

datatype colour =
  Black | DarkGray | Gray | Red | Green | Yellow | Blue | Magenta | Cyan | White
| LightRed | LightGreen | LightYellow | LightBlue | LightMagenta | LightCyan | Rgb nat nat nat

record cell_style =
  st_fg :: "colour option"
  st_bg :: "colour option"
  st_bold :: bool
  st_dim :: bool

record text_span =
  sp_text :: string
  sp_style :: cell_style

definition plain :: cell_style where
  "plain = \<lparr>st_fg = None, st_bg = None, st_bold = False, st_dim = False\<rparr>"

definition in_colour :: "colour \<Rightarrow> cell_style" where
  "in_colour c = plain\<lparr>st_fg := Some c\<rparr>"

definition styled :: "string \<Rightarrow> cell_style \<Rightarrow> text_span" where
  "styled s st = \<lparr>sp_text = s, sp_style = st\<rparr>"

definition highlight_inactive_selected :: "text_span list \<Rightarrow> text_span list" where
  "highlight_inactive_selected spans =
     map (\<lambda>span. span\<lparr>sp_style := (sp_style span)\<lparr>st_bg := Some (Rgb 28 34 45)\<rparr>\<rparr>) spans"

fun brighten :: "colour option \<Rightarrow> colour" where
  "brighten (Some Black) = White"
| "brighten (Some DarkGray) = White"
| "brighten (Some Gray) = White"
| "brighten None = White"
| "brighten (Some Red) = LightRed"
| "brighten (Some Green) = LightGreen"
| "brighten (Some Yellow) = LightYellow"
| "brighten (Some Blue) = LightBlue"
| "brighten (Some Magenta) = LightMagenta"
| "brighten (Some Cyan) = LightCyan"
| "brighten (Some colour) = colour"

definition highlight_selected :: "text_span list \<Rightarrow> text_span list" where
  "highlight_selected spans =
     map (\<lambda>span. span\<lparr>sp_style := (sp_style span)\<lparr>st_fg := Some (brighten (st_fg (sp_style span))),
                        st_bg := Some (Rgb 45 55 72), st_bold := True\<rparr>\<rparr>) spans"

subsection \<open>Columns\<close>

datatype width_profile = FullProfile | CompactProfile | MinimalProfile

record table_columns =
  tc_profile :: width_profile
  tc_name :: nat
  tc_graph :: nat

definition clamp :: "nat \<Rightarrow> nat \<Rightarrow> nat \<Rightarrow> nat" where
  "clamp low high n = (if n < low then low else if n > high then high else n)"

definition for_width :: "u16 \<Rightarrow> table_columns" where
  "for_width area_width =
     (let width = unat area_width
      in if width \<ge> 96
         then let flexible = width - 51; graph = clamp 10 30 (flexible div 3)
              in \<lparr>tc_profile = FullProfile, tc_name = max (flexible - graph) 1, tc_graph = graph\<rparr>
         else if width \<ge> 60
         then let flexible = width - 22; graph = clamp 8 20 (flexible div 3)
              in \<lparr>tc_profile = CompactProfile, tc_name = max (flexible - graph) 1, tc_graph = graph\<rparr>
         else \<lparr>tc_profile = MinimalProfile, tc_name = max (width - 12) 1, tc_graph = 0\<rparr>)"

definition rendered_width :: "table_columns \<Rightarrow> nat" where
  "rendered_width c =
     (case tc_profile c of
        FullProfile \<Rightarrow> 2 + tc_name c + tc_graph c + 49
      | CompactProfile \<Rightarrow> 2 + tc_name c + tc_graph c + 20
      | MinimalProfile \<Rightarrow> 2 + tc_name c + 10)"

lemma clamp_bounds: "low \<le> high \<Longrightarrow> low \<le> clamp low high n \<and> clamp low high n \<le> high"
  by (simp add: clamp_def)

text \<open>The columns fill the terminal, whatever its width, from 13 cells on.\<close>

lemma columns_fill:
  assumes "13 \<le> unat width"
  shows "rendered_width (for_width width) = unat width"
proof -
  define g h where "g = clamp 10 30 ((unat width - 51) div 3)" and "h = clamp 8 20 ((unat width - 22) div 3)"
  then have bounds: "g \<le> 30" "h \<le> 20" using clamp_bounds by simp_all
  have "rendered_width (for_width width) =
      (if 96 \<le> unat width then 2 + max (unat width - 51 - g) 1 + g + 49
       else if 60 \<le> unat width then 2 + max (unat width - 22 - h) 1 + h + 20 else 2 + max (unat width - 12) 1 + 10)"
    by (simp add: rendered_width_def for_width_def Let_def g_def h_def)
  also have "\<dots> = unat width" using bounds assms by simp
  finally show ?thesis .
qed

lemma columns_narrow: "unat width < 13 \<Longrightarrow> rendered_width (for_width width) = 13"
  by (simp add: rendered_width_def for_width_def Let_def)

lemma columns_graph_pos: "tc_profile (for_width width) \<noteq> MinimalProfile \<Longrightarrow> 8 \<le> tc_graph (for_width width)"
  using clamp_bounds [of 10 30 "(unat width - 51) div 3"] clamp_bounds [of 8 20 "(unat width - 22) div 3"]
  by (simp add: for_width_def Let_def split: if_splits)

subsection \<open>Activity bars\<close>

definition full_block :: string where
  "full_block = [CHR 0xE2, CHR 0x96, CHR 0x88]"

definition light_block :: string where
  "light_block = [CHR 0xE2, CHR 0x96, CHR 0x91]"

text \<open>The product is computed in 128 bits and its quotient cast to \<open>usize\<close>.\<close>

definition filled_cells :: "u64 \<Rightarrow> u64 \<Rightarrow> nat \<Rightarrow> nat" where
  "filled_cells tot maximum width =
     min (if maximum = 0 then 0 else unat tot * width div unat maximum mod 2 ^ 64) width"

definition byte_bar :: "u64 \<Rightarrow> u64 \<Rightarrow> nat \<Rightarrow> string" where
  "byte_bar tot maximum width =
     (if width = 0 then []
      else concat (replicate (filled_cells tot maximum width) full_block)
           @ concat (replicate (width - filled_cells tot maximum width) light_block))"

definition activity_cell :: "u64 \<Rightarrow> u64 \<Rightarrow> nat \<Rightarrow> string" where
  "activity_cell tot maximum width = byte_bar tot maximum width"

subsection \<open>Fitting text\<close>

definition code_point :: "string \<Rightarrow> nat" where
  "code_point c =
     (case map of_char c of
        [a] \<Rightarrow> a
      | [a, b] \<Rightarrow> a mod 32 * 64 + b mod 64
      | [a, b, d] \<Rightarrow> a mod 16 * 4096 + b mod 64 * 64 + d mod 64
      | [a, b, d, e] \<Rightarrow> a mod 8 * 262144 + b mod 64 * 4096 + d mod 64 * 64 + e mod 64
      | _ \<Rightarrow> 0)"

definition is_regional_indicator :: "string \<Rightarrow> bool" where
  "is_regional_indicator c \<longleftrightarrow> 0x1F1E6 \<le> code_point c \<and> code_point c \<le> 0x1F1FF"

definition EXTEND_RANGES :: "(nat \<times> nat) list" where
  "EXTEND_RANGES =
     [(0x0300, 0x036F), (0x0483, 0x0489), (0x0591, 0x05BD), (0x05BF, 0x05BF), (0x05C1, 0x05C2), (0x0610, 0x061A),
      (0x064B, 0x065F), (0x0670, 0x0670), (0x06D6, 0x06ED), (0x0900, 0x0903), (0x093A, 0x094F), (0x1AB0, 0x1AFF),
      (0x1DC0, 0x1DFF), (0x20D0, 0x20FF), (0xFE00, 0xFE0F), (0xFE20, 0xFE2F), (0x1F3FB, 0x1F3FF), (0xE0100, 0xE01EF)]"

definition is_grapheme_extend :: "string \<Rightarrow> bool" where
  "is_grapheme_extend c = list_ex (\<lambda>(a, b). a \<le> code_point c \<and> code_point c \<le> b) EXTEND_RANGES"

definition is_joiner :: "string \<Rightarrow> bool" where
  "is_joiner c \<longleftrightarrow> code_point c = 0x200D"

text \<open>The characters of a string.\<close>

definition chars :: "string \<Rightarrow> string list" where
  "chars s = fst (from_utf8 s)"

text \<open>How many of the following characters belong to the cluster, and the length of the first cluster.\<close>

fun cluster_tail :: "bool \<Rightarrow> nat \<Rightarrow> string list \<Rightarrow> nat" where
  "cluster_tail after_joiner regional_indicators [] = 0"
| "cluster_tail after_joiner regional_indicators (c # cs) =
     (if after_joiner then Suc (cluster_tail (is_joiner c) regional_indicators cs)
      else if is_joiner c then Suc (cluster_tail True regional_indicators cs)
      else if is_grapheme_extend c then Suc (cluster_tail False regional_indicators cs)
      else if regional_indicators = 1 \<and> is_regional_indicator c
      then Suc (cluster_tail False (regional_indicators + 1) cs)
      else 0)"

definition grapheme_end :: "string list \<Rightarrow> nat" where
  "grapheme_end cs =
     (case cs of
        [] \<Rightarrow> 0
      | first # rest \<Rightarrow> Suc (cluster_tail False (if is_regional_indicator first then 1 else 0) rest))"

lemma grapheme_end_pos: "cs \<noteq> [] \<Longrightarrow> 0 < grapheme_end cs"
  by (cases cs) (simp_all add: grapheme_end_def)

function truncate_loop :: "(string \<Rightarrow> nat) \<Rightarrow> nat \<Rightarrow> string list \<Rightarrow> string \<Rightarrow> nat \<Rightarrow> string" where
  "truncate_loop w target cs out used =
     (if cs = [] then out
      else let n = grapheme_end cs; cluster = concat (take n cs)
           in if used + w cluster > target then out
              else truncate_loop w target (drop n cs) (out @ cluster) (used + w cluster))"
  by pat_completeness auto

termination truncate_loop
  by (relation "measure (\<lambda>(w, target, cs, out, used). length cs)") (auto simp: grapheme_end_pos)

declare truncate_loop.simps [simp del]

definition truncate_display :: "(string \<Rightarrow> nat) \<Rightarrow> string \<Rightarrow> nat \<Rightarrow> string" where
  "truncate_display w v width =
     (if width = 0 then []
      else if w v \<le> width then v
      else if width = 1 then ''~''
      else truncate_loop w (width - 1) (chars v) [] 0 @ ''~'')"

definition fit_display :: "(string \<Rightarrow> nat) \<Rightarrow> string \<Rightarrow> nat \<Rightarrow> string" where
  "fit_display w v width =
     (let out = truncate_display w v width in out @ replicate (width - w out) (CHR '' ''))"

text \<open>The alignment \<open>{:>n}\<close> of ASCII text.\<close>

definition pad_left :: "nat \<Rightarrow> string \<Rightarrow> string" where
  "pad_left n s = replicate (n - length s) (CHR '' '') @ s"

subsection \<open>What the layout relies on\<close>

text \<open>
  The documented behaviour of \<open>UnicodeWidthStr::width\<close> the layout uses: printable ASCII takes a
  cell a character, also after other text; joining clusters never takes more cells than the
  clusters (ligatures and emoji sequences take fewer); blocks take one cell each and the arrow
  heads one.
\<close>

definition printable :: "string \<Rightarrow> bool" where
  "printable s = list_all (\<lambda>c. 32 \<le> (of_char c :: nat) \<and> (of_char c :: nat) < 127) s"

definition is_char :: "string \<Rightarrow> bool" where
  "is_char c \<longleftrightarrow> utf8_head c = Whole (length c)"

definition arrow :: "nat \<Rightarrow> string" where
  "arrow n = [CHR 0xE2, CHR 0x96, char_of n]"

definition ends_cluster :: "string list \<Rightarrow> bool" where
  "ends_cluster rest \<longleftrightarrow> (case rest of [] \<Rightarrow> True | c # _ \<Rightarrow> \<not> is_grapheme_extend c \<and> \<not> is_joiner c)"

definition width_laws :: "(string \<Rightarrow> nat) \<Rightarrow> bool" where
  "width_laws w \<longleftrightarrow> w [] = 0 \<and>
     (\<forall>s t. printable t \<longrightarrow> w (s @ t) = w s + length t) \<and>
     (\<forall>cs ds. list_all is_char cs \<longrightarrow> list_all is_char ds \<longrightarrow> ends_cluster ds \<longrightarrow>
        w (concat cs @ concat ds) \<le> w (concat cs) + w (concat ds)) \<and>
     (\<forall>n m. w (concat (replicate n full_block) @ concat (replicate m light_block)) = n + m) \<and>
     (\<forall>n \<in> {0xB2, 0xB6, 0xB8, 0xBC, 0xBE}. w (arrow n) = 1)"

lemma width_lawsD:
  assumes "width_laws w"
  shows "w [] = 0" "printable t \<Longrightarrow> w (s @ t) = w s + length t" "printable t \<Longrightarrow> w t = length t"
    "list_all is_char cs \<Longrightarrow> list_all is_char ds \<Longrightarrow> ends_cluster ds \<Longrightarrow> w (concat cs @ concat ds) \<le> w (concat cs) + w (concat ds)"
    "w (concat (replicate n full_block) @ concat (replicate m light_block)) = n + m"
    "w (arrow 0xB2) = 1" "w (arrow 0xB6) = 1" "w (arrow 0xB8) = 1" "w (arrow 0xBC) = 1" "w (arrow 0xBE) = 1"
proof -
  show base: "w [] = 0" and app: "printable t \<Longrightarrow> w (s @ t) = w s + length t" for s t
    using assms by (simp_all add: width_laws_def)
  show "printable t \<Longrightarrow> w t = length t" using app [of t "[]"] base by simp
  show "list_all is_char cs \<Longrightarrow> list_all is_char ds \<Longrightarrow> ends_cluster ds \<Longrightarrow> w (concat cs @ concat ds) \<le> w (concat cs) + w (concat ds)"
    using assms unfolding width_laws_def by blast
  show "w (concat (replicate n full_block) @ concat (replicate m light_block)) = n + m"
    using assms unfolding width_laws_def by blast
  show "w (arrow 0xB2) = 1" "w (arrow 0xB6) = 1" "w (arrow 0xB8) = 1" "w (arrow 0xBC) = 1" "w (arrow 0xBE) = 1"
    using assms unfolding width_laws_def by blast+
qed

lemma printable_simps [simp]:
  "printable []" "printable (s @ t) \<longleftrightarrow> printable s \<and> printable t" "printable (replicate n (CHR '' ''))"
  "printable (c # s) \<longleftrightarrow> 32 \<le> (of_char c :: nat) \<and> (of_char c :: nat) < 127 \<and> printable s"
  by (simp_all add: printable_def, simp add: list_all_iff)

subsection \<open>The characters of a string\<close>

lemma chars_are_chars: "list_all is_char (chars s)"
proof (induction s rule: from_utf8.induct)
  case (1 s)
  show ?case
  proof (cases "s \<noteq> [] \<and> (\<exists>n. utf8_head s = Whole n)")
    case True
    then obtain n where n: "utf8_head s = Whole n" by blast
    then have b: "0 < n" "n \<le> length s" using utf8_head_bounds(1) by blast+
    have "chars s = take n s # chars (drop n s)"
      unfolding chars_def using True n b by (subst from_utf8.simps) (simp add: case_prod_unfold Let_def)
    moreover have "is_char (take n s)" using utf8_head_take [OF n, of "[]"] b by (simp add: is_char_def)
    ultimately show ?thesis using "1.IH" True n b by simp
  next
    case False
    then have "chars s = []"
      unfolding chars_def by (subst from_utf8.simps) (auto split: utf8_step.split)
    then show ?thesis by simp
  qed
qed

subsection \<open>Clusters\<close>

lemma cluster_tail_bound: "cluster_tail j r cs \<le> length cs"
  by (induction j r cs rule: cluster_tail.induct) simp_all

lemma cluster_tail_ends: "ends_cluster (drop (cluster_tail j r cs) cs)"
  by (induction j r cs rule: cluster_tail.induct) (simp_all add: ends_cluster_def)

lemma grapheme_end_bound: "grapheme_end cs \<le> length cs"
  by (cases cs) (simp_all add: grapheme_end_def cluster_tail_bound)

lemma grapheme_end_ends: "ends_cluster (drop (grapheme_end cs) cs)"
  by (cases cs) (simp_all add: grapheme_end_def cluster_tail_ends, simp add: ends_cluster_def)

text \<open>The cluster boundaries of a list of characters.\<close>

inductive boundary :: "string list \<Rightarrow> nat \<Rightarrow> bool" where
  boundary_start: "boundary cs 0"
| boundary_next: "boundary cs k \<Longrightarrow> k < length cs \<Longrightarrow> boundary cs (k + grapheme_end (drop k cs))"

inductive_simps boundary_Nil: "boundary [] k"

lemma ends_cluster_take: "ends_cluster ds \<Longrightarrow> 0 < n \<Longrightarrow> ends_cluster (take n ds)"
  by (cases ds; cases n) (simp_all add: ends_cluster_def)

lemma truncate_loop_spec:
  assumes w: "width_laws w" and cs: "list_all is_char cs"
  shows "boundary cs k \<Longrightarrow> k \<le> length cs \<Longrightarrow> k = 0 \<or> ends_cluster (drop k cs) \<Longrightarrow> w (concat (take k cs)) \<le> used \<Longrightarrow> used \<le> target \<Longrightarrow>
    \<exists>m. boundary cs m \<and> truncate_loop w target (drop k cs) (concat (take k cs)) used = concat (take m cs) \<and>
      w (concat (take m cs)) \<le> target"
proof (induction "length cs - k" arbitrary: k used rule: less_induct)
  case less
  let ?n = "grapheme_end (drop k cs)" and ?cl = "concat (take (grapheme_end (drop k cs)) (drop k cs))"
  show ?case
  proof (cases "k < length cs \<and> used + w ?cl \<le> target")
    case True
    then have pos: "0 < ?n" "k + ?n \<le> length cs"
      using grapheme_end_pos [of "drop k cs"] grapheme_end_bound [of "drop k cs"] by auto
    have out: "concat (take k cs) @ ?cl = concat (take (k + ?n) cs)" by (simp add: take_add)
    have ch: "list_all is_char (take k cs)" "list_all is_char (take ?n (drop k cs))"
      using cs by (auto simp: list_all_iff dest: in_set_takeD in_set_dropD)
    have "w (concat (take k cs) @ ?cl) \<le> w (concat (take k cs)) + w ?cl"
      using less.prems(3) width_lawsD(4) [OF w ch] ends_cluster_take [of "drop k cs", OF _ pos(1)] by auto
    then have wid: "w (concat (take (k + ?n) cs)) \<le> used + w ?cl" using less.prems(4) out by simp
    have loop: "truncate_loop w target (drop k cs) (concat (take k cs)) used =
        truncate_loop w target (drop (k + ?n) cs) (concat (take (k + ?n) cs)) (used + w ?cl)"
      using True out by (subst truncate_loop.simps) (simp add: Let_def add.commute)
    have "ends_cluster (drop (k + ?n) cs)" using grapheme_end_ends [of "drop k cs"] by (simp add: add.commute)
    then show ?thesis
      unfolding loop using less.prems(1) True pos wid
      by (intro less.hyps) (simp_all add: boundary_next)
  next
    case False
    then have "truncate_loop w target (drop k cs) (concat (take k cs)) used = concat (take k cs)"
      using less.prems(2) by (subst truncate_loop.simps) (auto simp: Let_def)
    with less.prems show ?thesis by (intro exI [of _ k]) simp
  qed
qed

lemma truncate_display_spec:
  assumes "width_laws w" and "width < w v"
  shows "\<exists>m. boundary (chars v) m \<and>
    truncate_display w v width = concat (take m (chars v)) @ (if width = 0 then [] else ''~'') \<and>
    w (concat (take m (chars v))) + (if width = 0 then 0 else 1) \<le> width"
proof -
  have empty: "w (concat (take 0 (chars v))) = 0" using width_lawsD(1) [OF assms(1)] by simp
  show ?thesis
  proof (cases "width \<le> 1")
    case True
    then show ?thesis
      using assms(2) boundary_start [of "chars v"] empty
      by (intro exI [of _ 0]) (auto simp: truncate_display_def)
  next
    case False
    then obtain m where "boundary (chars v) m"
      "truncate_loop w (width - 1) (chars v) [] 0 = concat (take m (chars v))" "w (concat (take m (chars v))) \<le> width - 1"
      using truncate_loop_spec [OF assms(1) chars_are_chars, of v 0 0 "width - 1"] boundary_start [of "chars v"] empty by auto
    with False assms(2) show ?thesis by (intro exI [of _ m]) (simp add: truncate_display_def)
  qed
qed

text \<open>A fitted text takes its cell exactly, a truncated one at most its room.\<close>

lemma truncate_width: "width_laws w \<Longrightarrow> w (truncate_display w v width) \<le> width"
proof (cases "width < w v")
  case True
  assume w: "width_laws w"
  from truncate_display_spec [OF w True] obtain m where
    "truncate_display w v width = concat (take m (chars v)) @ (if width = 0 then [] else ''~'')"
    "w (concat (take m (chars v))) + (if width = 0 then 0 else 1) \<le> width" by blast
  then show ?thesis using width_lawsD(2) [OF w, of "''~''"] by (cases "width = 0") simp_all
next
  case False
  assume "width_laws w"
  with False width_lawsD(1) [of w] show ?thesis by (simp add: truncate_display_def)
qed

lemma fit_width: "width_laws w \<Longrightarrow> w (fit_display w v width) = width"
  using truncate_width [of w v width] width_lawsD(2) [of w] by (simp add: fit_display_def Let_def)

lemma bar_width: "width_laws w \<Longrightarrow> w (activity_cell tot maximum width) = width"
proof -
  assume w: "width_laws w"
  have "filled_cells tot maximum width \<le> width" by (simp add: filled_cells_def)
  then show ?thesis
    using width_lawsD(1,5) [OF w] by (simp add: activity_cell_def byte_bar_def)
qed

lemma pad_left_width: "width_laws w \<Longrightarrow> printable s \<Longrightarrow> w (pad_left n s) = max n (length s)"
  using width_lawsD(3) [of w "pad_left n s"] by (simp add: pad_left_def max_def)

lemma chars_subset: "set (concat (chars v)) \<subseteq> set v"
proof (induction v rule: from_utf8.induct)
  case (1 v)
  show ?case
  proof (cases "v \<noteq> [] \<and> (\<exists>n. utf8_head v = Whole n)")
    case True
    then obtain n where n: "utf8_head v = Whole n" by blast
    then have b: "0 < n" using utf8_head_bounds(1) by blast
    have "chars v = take n v # chars (drop n v)"
      unfolding chars_def using True n b by (subst from_utf8.simps) (simp add: case_prod_unfold Let_def)
    moreover have "set (concat (chars (drop n v))) \<subseteq> set (drop n v)" using "1.IH" True n b by simp
    ultimately show ?thesis using set_take_subset [of n v] set_drop_subset [of n v] by auto
  next
    case False
    then have "chars v = []" unfolding chars_def by (subst from_utf8.simps) (auto split: utf8_step.split)
    then show ?thesis by simp
  qed
qed

lemma printable_fit: "width_laws w \<Longrightarrow> printable v \<Longrightarrow> printable (fit_display w v n)"
proof -
  assume w: "width_laws w" and v: "printable v"
  have cut: "printable (concat (take m (chars v)))" for m
  proof -
    have "set (concat (take m (chars v))) \<subseteq> set (concat (chars v))" using set_take_subset [of m "chars v"] by auto
    with chars_subset [of v] v show ?thesis unfolding printable_def list_all_iff by blast
  qed
  have "printable (truncate_display w v n)"
  proof (cases "n < w v")
    case True
    from truncate_display_spec [OF w True] cut show ?thesis by auto
  next
    case False
    with v show ?thesis by (simp add: truncate_display_def)
  qed
  then show ?thesis by (simp add: fit_display_def Let_def)
qed

text \<open>(C24) Fitting a text into a cell is exact and never breaks a character: under the documented
  behaviour of the width function, the fitted text takes exactly the cells asked for; a text that
  fits is kept and padded; one that does not is cut at a boundary between clusters, so combining
  marks, joined emoji and flags stay whole, and a tilde marks the cut.\<close>

theorem fit_display_exact:
  assumes "width_laws w"
  shows "w (fit_display w v width) = width \<and>
    (\<exists>shown pad. fit_display w v width = shown @ replicate pad (CHR '' '') \<and>
       (shown = v \<or> width = 0 \<and> shown = [] \<or>
        (\<exists>m. width < w v \<and> boundary (chars v) m \<and> shown = concat (take m (chars v)) @ ''~'')))"
proof -
  let ?shown = "truncate_display w v width"
  have "?shown = v \<or> width = 0 \<and> ?shown = [] \<or>
      (\<exists>m. width < w v \<and> boundary (chars v) m \<and> ?shown = concat (take m (chars v)) @ ''~'')"
  proof (cases "width < w v \<and> width \<noteq> 0")
    case True
    then show ?thesis using truncate_display_spec [OF assms, of width v] by auto
  next
    case False
    then show ?thesis by (auto simp: truncate_display_def)
  qed
  moreover have "fit_display w v width = ?shown @ replicate (width - w ?shown) (CHR '' '')"
    by (simp add: fit_display_def Let_def)
  ultimately show ?thesis using fit_width [OF assms, of v width] by blast
qed

subsection \<open>A width function\<close>

text \<open>One cell a character: it satisfies the laws.\<close>

definition char_width :: "string \<Rightarrow> nat" where
  "char_width s = length (filter (\<lambda>c. \<not> cont_byte c) s)"

lemma char_width_simps [simp]:
  "char_width [] = 0" "char_width (s @ t) = char_width s + char_width t"
  "char_width (c # s) = (if cont_byte c then 0 else 1) + char_width s"
  by (simp_all add: char_width_def)

lemma char_width_printable: "printable t \<Longrightarrow> char_width t = length t"
  by (induction t) (auto simp: cont_byte_def)

lemma char_width_laws: "width_laws char_width"
proof -
  have "char_width full_block = 1" "char_width light_block = 1" by (simp_all add: full_block_def light_block_def cont_byte_def)
  then have "char_width (concat (replicate n full_block)) = n" "char_width (concat (replicate n light_block)) = n" for n
    by (induction n) simp_all
  moreover have "\<forall>n \<in> {0xB2, 0xB6, 0xB8, 0xBC, 0xBE}. char_width (arrow n) = 1"
    by (simp add: arrow_def cont_byte_def)
  ultimately show ?thesis by (simp add: width_laws_def char_width_printable)
qed

theorem fit_display_exact_witness:
  "char_width (fit_display char_width ''donn'' 3) = 3 \<and>
    (\<exists>shown pad. fit_display char_width ''donn'' 3 = shown @ replicate pad (CHR '' '') \<and>
       (shown = ''donn'' \<or> (\<exists>m. boundary (chars ''donn'') m \<and> shown = concat (take m (chars ''donn'')) @ ''~'')))"
  using fit_display_exact [OF char_width_laws, of "''donn''" 3] by auto

end
