(* ===== verification/Tables.thy ===== *)
theory Tables
  imports Layout Views Event_Log
begin

section \<open>The rows of the tables (ncda/src/tui/flat_view.rs, tree_view.rs)\<close>

text \<open>
  How the two file views draw their rows and column headings. A line is the list of its spans;
  ratatui, which paints the spans one after another from the left edge, is not part of the program.
  Each row asks the activity log for the rate of its path, which expires buckets: the log is
  threaded through the rows, \<open>clock i\<close> being the time the \<open>i\<close>-th of them reads.
\<close>

subsection \<open>Definitions\<close>

type_synonym text_line = "text_span list"

text \<open>What a view hands to ratatui: a list with its selected row.\<close>

record list_widget =
  lw_items :: "text_line list"
  lw_selected :: "nat option"

definition message_list :: "string \<Rightarrow> list_widget" where
  "message_list message = \<lparr>lw_items = [[styled message plain]], lw_selected = None\<rparr>"

definition rate_text :: "rate \<Rightarrow> string" where
  "rate_text r =
     (if rate_f64 r > 0 then format_bytes_raw (f64_to_u64 (rate_f64 r)) @ ''/s'' else ''0B/s'')"

fun path_rates ::
    "(string \<Rightarrow> string) \<Rightarrow> (nat \<Rightarrow> int) \<Rightarrow> nat \<Rightarrow> filter_query \<Rightarrow> process_table \<Rightarrow> string list \<Rightarrow> event_log
      \<Rightarrow> rate list \<times> event_log" where
  "path_rates lower clock i query procs [] l = ([], l)"
| "path_rates lower clock i query procs (path # paths) l =
     (let (r, l) = rate_for_prefix_at lower (clock i) path query procs l;
          (rs, l) = path_rates lower clock (i + 1) query procs paths l
      in (r # rs, l))"

definition max_bytes_of :: "u64 list \<Rightarrow> u64" where
  "max_bytes_of totals = max (if totals = [] then 1 else Max (set totals)) 1"

text \<open>The cells after the name; the figures are those of one row.\<close>

record row_figures =
  rf_total :: u64
  rf_read :: u64
  rf_write :: u64
  rf_ops :: u64

definition metric_cells :: "table_columns \<Rightarrow> u64 \<Rightarrow> row_figures \<Rightarrow> string \<Rightarrow> text_span \<Rightarrow> text_span list" where
  "metric_cells columns max_bytes f rate_str latency =
     (case tc_profile columns of
        FullProfile \<Rightarrow>
          [styled (activity_cell (rf_total f) max_bytes (tc_graph columns)) (in_colour Cyan),
           styled (''  R:'' @ pad_left 7 (format_bytes (rf_read f))) (in_colour Cyan),
           styled (''  W:'' @ pad_left 7 (format_bytes (rf_write f))) (in_colour Red),
           styled (''  '' @ pad_left 6 (format_count (rf_ops f))) (in_colour Yellow),
           styled (''  '' @ pad_left 8 rate_str) (in_colour Green),
           latency]
      | CompactProfile \<Rightarrow>
          [styled (activity_cell (rf_total f) max_bytes (tc_graph columns)) (in_colour Cyan),
           styled (''  '' @ pad_left 8 (format_bytes (rf_total f))) (in_colour Yellow),
           styled (''  '' @ pad_left 8 rate_str) (in_colour Green)]
      | MinimalProfile \<Rightarrow> [styled (''  '' @ pad_left 8 (format_bytes (rf_total f))) (in_colour Yellow)])"

definition highlighted :: "bool \<Rightarrow> bool \<Rightarrow> text_line \<Rightarrow> text_line" where
  "highlighted selected focused spans =
     (if selected then (if focused then highlight_selected spans else highlight_inactive_selected spans) else spans)"

definition display_name :: "bool \<Rightarrow> string \<Rightarrow> string" where
  "display_name dir nm = (if dir then nm @ ''/'' else nm)"

definition folded_icon :: string where
  "folded_icon = arrow 0xB8 @ '' ''"

definition unfolded_icon :: string where
  "unfolded_icon = arrow 0xBE @ '' ''"

text \<open>The two latency cells: the flat view colours it by size.\<close>

definition flat_latency_span :: "node_stats \<Rightarrow> text_span" where
  "flat_latency_span st =
     (if avg_latency_ns st = 0 then styled (replicate 9 (CHR '' '')) plain
      else styled (''  '' @ pad_left 7 (format_latency (avg_latency_ns st)))
             (in_colour (if avg_latency_ns st > 10000000 then Red else if avg_latency_ns st > 1000000 then Yellow else White)))"

definition tree_latency_span :: "u64 \<Rightarrow> text_span" where
  "tree_latency_span latency_ns =
     (if latency_ns = 0 then styled (replicate 9 (CHR '' '')) plain
      else styled (''  '' @ pad_left 7 (format_latency latency_ns)) (in_colour White))"

definition row_figures_of :: "node_stats \<Rightarrow> row_figures" where
  "row_figures_of st = \<lparr>rf_total = total_bytes st, rf_read = read_bytes st, rf_write = write_bytes st, rf_ops = total_ops st\<rparr>"

definition flat_row_line ::
    "(string \<Rightarrow> nat) \<Rightarrow> table_columns \<Rightarrow> u64 \<Rightarrow> bool \<Rightarrow> bool \<Rightarrow> rate \<Rightarrow> flat_row \<Rightarrow> text_line" where
  "flat_row_line w columns max_bytes selected focused rt row =
     highlighted selected focused
       ([styled (if fr_is_dir row then folded_icon else ''  '') plain,
         styled (fit_display w (display_name (fr_is_dir row) (fr_name row)) (tc_name columns))
           (in_colour (if fr_is_dir row then Blue else White))]
        @ metric_cells columns max_bytes (row_figures_of (fr_stats row)) (rate_text rt) (flat_latency_span (fr_stats row)))"

text \<open>\<open>flat_view::draw\<close> on the rows it lists.\<close>

definition flat_draw ::
    "(string \<Rightarrow> nat) \<Rightarrow> (string \<Rightarrow> string) \<Rightarrow> (nat \<Rightarrow> int) \<Rightarrow> u16 \<Rightarrow> flat_row list \<Rightarrow> bool \<Rightarrow> filter_query \<Rightarrow> nat \<Rightarrow> bool
      \<Rightarrow> process_table \<Rightarrow> event_log \<Rightarrow> list_widget \<times> event_log" where
  "flat_draw w lower clock area_width rows at_root query cursor focused procs l =
     (if rows = [] then
        (message_list (if \<not> query_is_empty query then ''  (no activity matches the filter)''
                       else if at_root then ''  (no file activity recorded)''
                       else ''  (directory has no recorded activity)''), l)
      else
        let columns = for_width area_width;
            max_bytes = max_bytes_of (map (\<lambda>row. total_bytes (fr_stats row)) rows);
            (rates, l) = path_rates lower clock 0 query procs (map fr_path rows) l
        in (\<lparr>lw_items = map (\<lambda>(i, rt, row). flat_row_line w columns max_bytes (i = cursor) focused rt row)
                          (zip [0 ..< length rows] (zip rates rows)),
             lw_selected = Some (min cursor (length rows - 1))\<rparr>, l))"

definition tree_row_line ::
    "(string \<Rightarrow> nat) \<Rightarrow> table_columns \<Rightarrow> u64 \<Rightarrow> bool \<Rightarrow> bool \<Rightarrow> rate \<Rightarrow> tree_line \<Rightarrow> text_line" where
  "tree_row_line w columns max_bytes selected focused rt line =
     (let tree_name_width = tc_name columns + 2;
          indent_width = min (tl_depth line * 2) (tree_name_width - 3);
          icon = (if tl_is_dir line then (if tl_is_expanded line then unfolded_icon else folded_icon) else ''  '');
          name_width = max (tree_name_width - (indent_width + 2)) 1
      in highlighted selected focused
           ([styled (replicate indent_width (CHR '' '')) plain,
             styled icon plain,
             styled (fit_display w (display_name (tl_is_dir line) (tl_name line)) name_width)
               (in_colour (if tl_is_dir line then Blue else White))]
            @ metric_cells columns max_bytes
                \<lparr>rf_total = tl_total_bytes line, rf_read = tl_read_bytes line, rf_write = tl_write_bytes line,
                 rf_ops = tl_total_ops line\<rparr>
                (rate_text rt) (tree_latency_span (tl_avg_latency_ns line))))"

definition tree_draw ::
    "(string \<Rightarrow> nat) \<Rightarrow> (string \<Rightarrow> string) \<Rightarrow> (nat \<Rightarrow> int) \<Rightarrow> u16 \<Rightarrow> tree_line list \<Rightarrow> nat \<Rightarrow> bool \<Rightarrow> filter_query
      \<Rightarrow> process_table \<Rightarrow> event_log \<Rightarrow> list_widget \<times> event_log" where
  "tree_draw w lower clock area_width lines cursor focused query procs l =
     (if lines = [] then
        (message_list (if query_is_empty query then ''  (no file activity recorded)''
                       else ''  (no activity matches the filter)''), l)
      else
        let columns = for_width area_width;
            max_bytes = max_bytes_of (map tl_total_bytes lines);
            (rates, l) = path_rates lower clock 0 query procs (map tl_display_path lines) l
        in (\<lparr>lw_items = map (\<lambda>(i, rt, line). tree_row_line w columns max_bytes (i = cursor) focused rt line)
                          (zip [0 ..< length lines] (zip rates lines)),
             lw_selected = Some (min cursor (length lines - 1))\<rparr>, l))"

subsection \<open>Column headings\<close>

definition dim :: cell_style where
  "dim = plain\<lparr>st_dim := True\<rparr>"

definition heading_cells :: "(string \<Rightarrow> nat) \<Rightarrow> table_columns \<Rightarrow> text_span list" where
  "heading_cells w columns =
     (case tc_profile columns of
        FullProfile \<Rightarrow>
          [styled (fit_display w ''Activity'' (tc_graph columns)) dim, styled ''    Read   '' dim, styled ''   Write   '' dim,
           styled ''     Ops'' dim, styled ''      Rate'' dim, styled ''  Latency'' dim]
      | CompactProfile \<Rightarrow>
          [styled (fit_display w ''Activity'' (tc_graph columns)) dim, styled ''     Total'' dim, styled ''      Rate'' dim]
      | MinimalProfile \<Rightarrow> [styled ''     Total'' dim])"

definition flat_draw_columns :: "(string \<Rightarrow> nat) \<Rightarrow> u16 \<Rightarrow> text_line" where
  "flat_draw_columns w area_width =
     (let columns = for_width area_width
      in styled (''  '' @ fit_display w ''Name'' (tc_name columns)) dim # heading_cells w columns)"

definition tree_draw_columns :: "(string \<Rightarrow> nat) \<Rightarrow> u16 \<Rightarrow> text_line" where
  "tree_draw_columns w area_width =
     (let columns = for_width area_width
      in styled (fit_display w ''  Name'' (tc_name columns + 2)) dim # heading_cells w columns)"

subsection \<open>Widths\<close>

definition line_width :: "(string \<Rightarrow> nat) \<Rightarrow> text_line \<Rightarrow> nat" where
  "line_width w spans = sum_list (map (\<lambda>span. w (sp_text span)) spans)"

lemma line_width_simps [simp]:
  "line_width w [] = 0" "line_width w (sp # spans) = w (sp_text sp) + line_width w spans"
  "line_width w (xs @ ys) = line_width w xs + line_width w ys" "sp_text (styled s st) = s"
  by (simp_all add: line_width_def styled_def)

lemma line_width_highlighted [simp]: "line_width w (highlighted selected focused spans) = line_width w spans"
  by (simp add: highlighted_def highlight_selected_def highlight_inactive_selected_def line_width_def comp_def)

lemma printable_show_nat: "printable (show_nat n)"
proof (induction n rule: show_nat.induct)
  case (1 n)
  then show ?case by (subst show_nat.simps) (auto simp: printable_def)
qed

lemma printable_figures:
  "printable (format_bytes_raw b)" "printable (format_bytes b)" "printable (format_count n)" "printable (format_latency n)"
proof -
  have scaled: "printable (format_scaled v base units)" if "\<forall>u \<in> set units. printable u" "units \<noteq> []" for v base units
  proof -
    obtain s u where su: "scale_loop base (length units) (f64_of_u64 v) 0 = (s, u)" by fastforce
    have "u < length units" using scale_loop_in_range [of 0 "length units" base "f64_of_u64 v"] su that(2) by simp
    then have "printable (units ! u)" using that(1) by simp
    then show ?thesis
      using su by (auto simp: format_scaled_def show_word_def fixed1_def fixed0_def printable_show_nat Let_def)
  qed
  show raw: "printable (format_bytes_raw b)" for b unfolding format_bytes_raw_def by (rule scaled) (simp_all add: BYTE_UNITS_def)
  then show "printable (format_bytes b)" by (simp add: format_bytes_def)
  show "printable (format_count n)" unfolding format_count_def by (rule scaled) (simp_all add: COUNT_UNITS_def)
  show "printable (format_latency n)"
    by (simp add: format_latency_def fixed1_def show_word_def printable_show_nat Let_def)
qed

text \<open>The cells of the figures.\<close>

lemma rate_text_props: "printable (rate_text r) \<and> length (rate_text r) \<le> 8"
  using format_bytes_length [of "f64_to_u64 (rate_f64 r)"] printable_figures(1)
  by (simp add: rate_text_def format_bytes_def)

lemma cell_width:
  assumes "width_laws w" and "printable s" and "length s \<le> n"
  shows "w (pad_left n s) = n"
  using pad_left_width [OF assms(1,2)] assms(3) by simp

lemma prefixed_width: "width_laws w \<Longrightarrow> printable p \<Longrightarrow> printable s \<Longrightarrow> w (p @ pad_left n s) = length p + max n (length s)"
  using width_lawsD(3) [of w "p @ pad_left n s"] by (simp add: pad_left_def max_def)

lemma figure_widths:
  assumes "width_laws w"
  shows "w (''  R:'' @ pad_left 7 (format_bytes b)) = 11" "w (''  W:'' @ pad_left 7 (format_bytes b)) = 11"
    "w (''  '' @ pad_left 6 (format_count n)) = 8" "w (''  '' @ pad_left 8 (rate_text r)) = 10"
    "w (''  '' @ pad_left 8 (format_bytes b)) = 10"
    "w (''  '' @ pad_left 7 (format_latency n)) = 9 + (length (format_latency n) - 7)"
proof -
  have pre: "w (p @ pad_left m s) = length p + max m (length s)" if "printable p" "printable s" for p m s
    using prefixed_width [OF assms that] .
  show "w (''  R:'' @ pad_left 7 (format_bytes b)) = 11" "w (''  W:'' @ pad_left 7 (format_bytes b)) = 11"
    "w (''  '' @ pad_left 8 (format_bytes b)) = 10"
    using pre [of "''  R:''" "format_bytes b" 7] pre [of "''  W:''" "format_bytes b" 7] pre [of "''  ''" "format_bytes b" 8]
      format_bytes_length [of b] printable_figures(2) [of b] by simp_all
  show "w (''  '' @ pad_left 6 (format_count n)) = 8"
    using pre [of "''  ''" "format_count n" 6] format_count_length [of n] printable_figures(3) [of n] by simp
  show "w (''  '' @ pad_left 8 (rate_text r)) = 10"
    using pre [of "''  ''" "rate_text r" 8] rate_text_props [of r] by simp
  show "w (''  '' @ pad_left 7 (format_latency n)) = 9 + (length (format_latency n) - 7)"
    using pre [of "''  ''" "format_latency n" 7] printable_figures(4) [of n] by simp
qed

text \<open>What the latency text adds to its column.\<close>

definition latency_overflow :: "u16 \<Rightarrow> u64 \<Rightarrow> nat" where
  "latency_overflow area_width latency_ns =
     (if tc_profile (for_width area_width) = FullProfile then length (format_latency latency_ns) - 7 else 0)"

definition body_width :: "table_columns \<Rightarrow> nat" where
  "body_width columns = (case tc_profile columns of FullProfile \<Rightarrow> tc_graph columns + 49
     | CompactProfile \<Rightarrow> tc_graph columns + 20 | MinimalProfile \<Rightarrow> 10)"

lemma rendered_body: "rendered_width columns = 2 + tc_name columns + body_width columns"
  by (simp add: rendered_width_def body_width_def split: width_profile.split)

lemma metric_width:
  assumes "width_laws w" and "w (sp_text latency) = 9 + extra"
  shows "line_width w (metric_cells columns max_bytes f (rate_text rt) latency) =
    body_width columns + (if tc_profile columns = FullProfile then extra else 0)"
  using bar_width [OF assms(1)] figure_widths [OF assms(1)] assms(2)
  by (cases "tc_profile columns") (simp_all add: metric_cells_def body_width_def)

lemma latency_widths:
  assumes "width_laws w"
  shows "w (sp_text (flat_latency_span st)) = 9 + (length (format_latency (avg_latency_ns st)) - 7)"
    "w (sp_text (tree_latency_span n)) = 9 + (length (format_latency n) - 7)"
proof -
  have "w (replicate 9 (CHR '' '')) = 9" using width_lawsD(3) [OF assms, of "replicate 9 (CHR '' '')"] by simp
  moreover have "length (format_latency 0) = 3" by (simp add: format_latency_def show_word_def show_digits)
  ultimately show "w (sp_text (flat_latency_span st)) = 9 + (length (format_latency (avg_latency_ns st)) - 7)"
    "w (sp_text (tree_latency_span n)) = 9 + (length (format_latency n) - 7)"
    using figure_widths(6) [OF assms] by (simp_all add: flat_latency_span_def tree_latency_span_def)
qed

lemma icon_widths: "width_laws w \<Longrightarrow> w folded_icon = 2 \<and> w unfolded_icon = 2 \<and> w ''  '' = 2"
  using width_lawsD(2) [of w "'' ''"] width_lawsD(3) [of w "''  ''"] width_lawsD(8,10) [of w]
  by (simp add: folded_icon_def unfolded_icon_def)

lemma spaces_width: "width_laws w \<Longrightarrow> w (replicate n (CHR '' '')) = n"
  using width_lawsD(3) [of w "replicate n (CHR '' '')"] by simp

lemma flat_row_width:
  assumes "width_laws w"
  shows "line_width w (flat_row_line w (for_width area_width) max_bytes selected focused rt row) =
    rendered_width (for_width area_width) + latency_overflow area_width (avg_latency_ns (fr_stats row))"
  using icon_widths [OF assms] fit_width [OF assms] metric_width [OF assms latency_widths(1) [OF assms]]
  by (simp add: flat_row_line_def rendered_body latency_overflow_def)

lemma name_pos: "1 \<le> tc_name (for_width width)"
  by (simp add: for_width_def Let_def)

lemma tree_row_width:
  assumes "width_laws w"
  shows "line_width w (tree_row_line w (for_width area_width) max_bytes selected focused rt row) =
    rendered_width (for_width area_width) + latency_overflow area_width (tl_avg_latency_ns row)"
proof -
  let ?n = "tc_name (for_width area_width)"
  let ?i = "min (tl_depth row * 2) (?n + 2 - 3)"
  have "?i + 2 + max (?n + 2 - (?i + 2)) 1 = ?n + 2" using name_pos [of area_width] by simp
  then show ?thesis
    using icon_widths [OF assms] fit_width [OF assms] spaces_width [OF assms]
      metric_width [OF assms latency_widths(2) [OF assms]]
    by (simp add: tree_row_line_def rendered_body latency_overflow_def Let_def)
qed

lemma heading_widths:
  assumes "width_laws w"
  shows "line_width w (flat_draw_columns w area_width) = rendered_width (for_width area_width)"
    "line_width w (tree_draw_columns w area_width) = rendered_width (for_width area_width)"
proof -
  have plain: "w s = length s" if "printable s" for s using that by (rule width_lawsD(3) [OF assms])
  have heads: "line_width w (heading_cells w columns) = body_width columns" for columns
    using fit_width [OF assms] plain
    by (cases "tc_profile columns") (simp_all add: heading_cells_def body_width_def)
  have fit: "printable (fit_display w ''Name'' n)" for n by (rule printable_fit [OF assms]) simp
  have "w (''  '' @ fit_display w ''Name'' n) = n + 2" for n
    using plain [of "''  '' @ fit_display w ''Name'' n"] plain [OF fit] fit fit_width [OF assms, of "''Name''" n] by simp
  then show "line_width w (flat_draw_columns w area_width) = rendered_width (for_width area_width)"
    using heads by (simp add: flat_draw_columns_def rendered_body Let_def)
  show "line_width w (tree_draw_columns w area_width) = rendered_width (for_width area_width)"
    using heads fit_width [OF assms] by (simp add: tree_draw_columns_def rendered_body Let_def)
qed

text \<open>(C23) Every table line fills the terminal exactly: on a terminal of 13 cells or more, whatever
  the row's name, depth, figures, rate and selection, the spans of each row of either view and the
  column headings take exactly the terminal's width. The one exception is the latency column of the
  wide profile, which a text of more than seven characters overflows by as many cells as it is too
  long.\<close>

theorem table_lines_fill_width:
  assumes "width_laws w" and "13 \<le> unat area_width"
  shows "line_width w (flat_row_line w (for_width area_width) max_bytes selected focused rt row) =
      unat area_width + latency_overflow area_width (avg_latency_ns (fr_stats row)) \<and>
    line_width w (tree_row_line w (for_width area_width) max_bytes selected focused rt line) =
      unat area_width + latency_overflow area_width (tl_avg_latency_ns line) \<and>
    line_width w (flat_draw_columns w area_width) = unat area_width \<and>
    line_width w (tree_draw_columns w area_width) = unat area_width"
  using flat_row_width [OF assms(1)] tree_row_width [OF assms(1)] heading_widths [OF assms(1)] columns_fill [OF assms(2)]
  by simp

definition slow_line :: tree_line where
  "slow_line = \<lparr>tl_depth = 1, tl_path = [''var'', ''log''], tl_display_path = ''/var/log'', tl_name = ''log'', tl_is_dir = True,
     tl_is_expanded = False, tl_read_bytes = 1536, tl_write_bytes = 0, tl_total_ops = 3, tl_avg_latency_ns = 999950000,
     tl_total_bytes = 1536\<rparr>"

text \<open>A mean latency just below a second overflows the column by a cell.\<close>

theorem table_lines_fill_width_witness:
  "line_width char_width (tree_row_line char_width (for_width 140) 1536 True True ZeroRate slow_line) = 141 \<and>
   line_width char_width (tree_row_line char_width (for_width 80) 1536 True True ZeroRate slow_line) = 80"
  using table_lines_fill_width [OF char_width_laws, of 140 1536 True True ZeroRate _ slow_line]
    table_lines_fill_width [OF char_width_laws, of 80 1536 True True ZeroRate _ slow_line]
  by (simp add: latency_overflow_def for_width_def Let_def slow_line_def format_almost_second)

end
