(* ===== verification/Screen.thy ===== *)
theory Screen
  imports Tables Session App_Invariant
begin

section \<open>Drawing a frame (ncda/src/tui/header.rs, footer.rs, mod.rs)\<close>

text \<open>
  One frame: the header, the process panel, the column headings, the file list, the footer and
  the help overlay, each a widget with the area it is painted in, in the order they are painted.
  ratatui's \<open>Layout::split\<close> and \<open>Block::inner\<close> and the clock are parameters. Drawing asks the
  rate trackers, which expire their buckets, so a frame returns the state it leaves.
\<close>

subsection \<open>Areas and widgets\<close>

record rect =
  r_x :: u16
  r_y :: u16
  r_width :: u16
  r_height :: u16

datatype direction = Horizontal | Vertical

datatype constraint = LengthOf u16 | MinOf u16 | Percentage u16

datatype borders = NoBorders | LeftBorder | TopBorder | AllBorders

datatype widget =
  Paragraph cell_style "text_line list"
| FileList list_widget
| PanelBlock string colour colour borders
| ClearArea
| HelpBox "text_line list"

record terminal =
  t_width :: "string \<Rightarrow> nat"
  t_lower :: "string \<Rightarrow> string"
  t_split :: "direction \<Rightarrow> constraint list \<Rightarrow> rect \<Rightarrow> rect list"
  t_inner :: "borders \<Rightarrow> rect \<Rightarrow> rect"
  t_clock :: "nat \<Rightarrow> int"
  t_now :: int

subsection \<open>Header\<close>

definition push_segment ::
    "(string \<Rightarrow> nat) \<Rightarrow> string \<Rightarrow> cell_style \<Rightarrow> bool \<Rightarrow> text_line \<times> nat \<Rightarrow> text_line \<times> nat" where
  "push_segment w seg style may_cut acc =
     (case acc of (spans, remaining) \<Rightarrow>
        if remaining = 0 then (spans, remaining)
        else if w seg \<le> remaining then (spans @ [styled seg style], remaining - w seg)
        else if may_cut then
          (let seg = truncate_display w seg remaining
           in (spans @ [styled seg style], remaining - w seg))
        else (spans, remaining))"

definition bold :: "cell_style \<Rightarrow> cell_style" where
  "bold st = st\<lparr>st_bold := True\<rparr>"

definition sort_arrow :: "bool \<Rightarrow> string" where
  "sort_arrow descending = (if descending then arrow 0xBC else arrow 0xB2)"

definition header_draw :: "(string \<Rightarrow> nat) \<Rightarrow> u16 \<Rightarrow> view_state \<Rightarrow> text_line" where
  "header_draw w area_width v =
     (let start = ([], unat area_width); push = push_segment w
      in fst (case vs_filter_input v of
           Some input \<Rightarrow>
             let acc = push ('' /'' @ input @ full_block) (bold (in_colour Cyan)) True start
             in (case vs_filter_error v of
                   Some error \<Rightarrow> push (''  '' @ error) (in_colour Red) True acc
                 | None \<Rightarrow> acc)
         | None \<Rightarrow>
             let acc = push '' ncda '' ((in_colour Black)\<lparr>st_bg := Some Cyan\<rparr>) True start;
                 mode_label = (case vs_mode v of FlatMode \<Rightarrow> ''FLAT'' | TreeMode \<Rightarrow> ''TREE'');
                 acc = push ('' ['' @ mode_label @ '']'') (in_colour Yellow) False acc;
                 scope = (case vs_mode v of FlatMode \<Rightarrow> cwd_path (vs_cwd v) | TreeMode \<Rightarrow> ''/'');
                 acc = push ('' '' @ scope) (bold (in_colour White)) True acc;
                 acc = (if \<not> query_is_empty (vs_filter v)
                        then push (''  F:'' @ fq_raw (vs_filter v)) (in_colour Cyan) True acc else acc);
                 acc = push (''  '' @ sort_label (vs_sort_by v) @ sort_arrow (vs_sort_desc v)) (in_colour Green) False acc
             in if vs_show_processes v
                then push (if vs_focus v = ProcessesPane then ''  [PROCS]'' else ''  [FILES]'')
                       (bold (in_colour Magenta)) False acc
                else acc))"

subsection \<open>Footer\<close>

record diagnostics =
  dg_total_events :: u64
  dg_dropped_events :: u64
  dg_attribution_failures :: u64
  dg_failed_io_events :: u64
  dg_zero_byte_io_events :: u64

definition alarm :: "u64 \<Rightarrow> colour \<Rightarrow> cell_style" where
  "alarm n c = in_colour (if n = 0 then DarkGray else c)"

definition footer_draw :: "u16 \<Rightarrow> node_stats \<Rightarrow> rate \<Rightarrow> diagnostics \<Rightarrow> text_line" where
  "footer_draw area_width root_stats rt d =
     (let rate_span = styled (format_bytes_raw (f64_to_u64 (rate_f64 rt)) @ ''/s'') plain; raw = (\<lambda>s. styled s plain)
      in if area_width < 60 then
           [styled '' R:'' (in_colour Cyan), raw (format_bytes (read_bytes root_stats)),
            styled '' W:'' (in_colour Red), raw (format_bytes (write_bytes root_stats)),
            styled '' @'' (in_colour Green), rate_span,
            styled ('' D:'' @ format_count (dg_dropped_events d)) (alarm (dg_dropped_events d) Red),
            styled ('' A:'' @ format_count (dg_attribution_failures d)) (alarm (dg_attribution_failures d) Yellow),
            styled ('' E:'' @ format_count (dg_failed_io_events d)) (alarm (dg_failed_io_events d) Red)]
         else
           [styled '' R:'' (in_colour Cyan), raw (format_bytes (read_bytes root_stats)),
            styled '' W:'' (in_colour Red), raw (format_bytes (write_bytes root_stats)), raw '' | '',
            styled ''Ops:'' (in_colour Yellow), raw (format_count (total_ops root_stats)), raw '' | '',
            styled ''Rate:'' (in_colour Green), rate_span, raw '' | '',
            raw (''Evts:'' @ format_count (dg_total_events d)), raw '' | '',
            styled (''Drop:'' @ format_count (dg_dropped_events d)) (alarm (dg_dropped_events d) Red), raw '' | '',
            styled (''Attr:'' @ format_count (dg_attribution_failures d)) (alarm (dg_attribution_failures d) Yellow),
            raw '' | '',
            styled (''Err:'' @ format_count (dg_failed_io_events d) @ '' Zero:'' @ format_count (dg_zero_byte_io_events d))
              (alarm (dg_failed_io_events d) Red),
            raw (if area_width \<ge> 90 then '' | '' else []),
            (if area_width \<ge> 90 then styled ''q'' (in_colour Yellow) else raw []),
            raw (if area_width \<ge> 90 then '':quit ?:help'' else [])])"

subsection \<open>Body areas\<close>

record body_areas =
  ba_columns :: rect
  ba_main :: rect
  ba_processes :: "rect option"
  ba_process_borders :: borders

definition compute_body_areas ::
    "(direction \<Rightarrow> constraint list \<Rightarrow> rect \<Rightarrow> rect list) \<Rightarrow> rect \<Rightarrow> bool \<Rightarrow> body_areas" where
  "compute_body_areas split area show_processes =
     (if \<not> show_processes then
        let rows = split Vertical [LengthOf 1, MinOf 0] area
        in \<lparr>ba_columns = rows ! 0, ba_main = rows ! 1, ba_processes = None, ba_process_borders = NoBorders\<rparr>
      else if r_width area \<ge> 110 then
        let panes = split Horizontal [Percentage 65, Percentage 35] area;
            rows = split Vertical [LengthOf 1, MinOf 0] (panes ! 0)
        in \<lparr>ba_columns = rows ! 0, ba_main = rows ! 1, ba_processes = Some (panes ! 1), ba_process_borders = LeftBorder\<rparr>
      else
        let panes = split Vertical [Percentage 65, Percentage 35] area;
            rows = split Vertical [LengthOf 1, MinOf 0] (panes ! 0)
        in \<lparr>ba_columns = rows ! 0, ba_main = rows ! 1, ba_processes = Some (panes ! 1), ba_process_borders = TopBorder\<rparr>)"

definition visible_page_height :: "terminal \<Rightarrow> u16 \<Rightarrow> u16 \<Rightarrow> bool \<Rightarrow> pane_focus \<Rightarrow> nat" where
  "visible_page_height t width height show_processes focus =
     (let body = compute_body_areas (t_split t)
                   \<lparr>r_x = 0, r_y = 0, r_width = width, r_height = sat_sub height 2\<rparr> show_processes;
          h = (if focus = ProcessesPane
               then (case ba_processes body of
                       Some area \<Rightarrow> r_height (t_inner t (ba_process_borders body) area)
                     | None \<Rightarrow> r_height (ba_main body))
               else r_height (ba_main body))
      in max (unat h) 1)"

subsection \<open>Process panel\<close>

definition PROCESS_METRIC_WIDTH :: nat where
  "PROCESS_METRIC_WIDTH = 10"

definition process_name_width :: "u16 \<Rightarrow> nat" where
  "process_name_width area_width = unat area_width - (7 + 1 + PROCESS_METRIC_WIDTH)"

fun process_metric :: "process_info \<Rightarrow> process_sort \<Rightarrow> string \<times> colour" where
  "process_metric p ByTotalBytes = (''T:'' @ format_bytes (total_bytes (pi_stats p)), Yellow)"
| "process_metric p ByReadBytes = (''R:'' @ format_bytes (read_bytes (pi_stats p)), Cyan)"
| "process_metric p ByWriteBytes = (''W:'' @ format_bytes (write_bytes (pi_stats p)), Red)"
| "process_metric p ByOperations = (''O:'' @ format_count (total_ops (pi_stats p)), Yellow)"
| "process_metric p ByLatency = (''L:'' @ format_latency (avg_latency_ns (pi_stats p)), Green)"
| "process_metric p ByPid = (''PID:'' @ show_word (pi_pid p), Yellow)"
| "process_metric p ByName = (''NAME'', White)"

definition process_identity :: "process_info \<Rightarrow> string" where
  "process_identity p = (case pi_container p of Some container \<Rightarrow> pi_comm p @ ''@'' @ container | None \<Rightarrow> pi_comm p)"

definition process_line ::
    "(string \<Rightarrow> nat) \<Rightarrow> u16 \<Rightarrow> process_sort \<Rightarrow> bool \<Rightarrow> bool \<Rightarrow> process_info \<Rightarrow> text_line" where
  "process_line w inner_width key selected focused p =
     (let (metric, metric_color) = process_metric p key
      in highlighted selected focused
           [styled (pad_left 6 (show_word (pi_pid p)) @ '' '') (in_colour Yellow),
            styled (fit_display w (process_identity p) (process_name_width inner_width) @ '' '') (in_colour White),
            styled (fit_display w metric PROCESS_METRIC_WIDTH) (in_colour metric_color)])"

text \<open>The rows of the panel, each with its index: a window that ends at the cursor once it scrolls.\<close>

definition panel_start :: "nat \<Rightarrow> nat \<Rightarrow> nat" where
  "panel_start process_cursor visible_height = usize_sat_add process_cursor 1 - visible_height"

definition panel_rows :: "nat \<Rightarrow> nat \<Rightarrow> process_info list \<Rightarrow> (nat \<times> process_info) list" where
  "panel_rows process_cursor visible_height procs =
     (let start = panel_start process_cursor visible_height
      in map (\<lambda>(offset, p). (start + offset, p)) (enumerate 0 (take visible_height (drop start procs))))"

definition draw_process_panel :: "terminal \<Rightarrow> rect \<Rightarrow> app_state \<Rightarrow> view_state \<Rightarrow> borders \<Rightarrow> (widget \<times> rect) list" where
  "draw_process_panel t area s v borders =
     (let focused = (vs_focus v = ProcessesPane);
          title = '' '' @ (if focused then arrow 0xB6 @ '' '' else []) @ ''Processes ''
                    @ process_sort_label (vs_process_sort v) @ sort_arrow (vs_process_sort_desc v) @ '' '';
          block = PanelBlock title (if focused then LightMagenta else DarkGray) (if focused then Magenta else DarkGray) borders;
          inner = t_inner t borders area;
          procs = visible_processes (t_lower t) (as_tree s) (vs_filter v) (as_procs s) (vs_process_sort v) (vs_process_sort_desc v);
          body =
            (if procs = [] then
               Paragraph (in_colour DarkGray)
                 [[styled (truncate_display (t_width t)
                      (if query_is_empty (vs_filter v) then '' (no process activity recorded)''
                       else '' (no processes match the filter)'') (unat (r_width inner))) plain]]
             else Paragraph plain
               (map (\<lambda>(index, p). process_line (t_width t) (r_width inner) (vs_process_sort v)
                                    (index = vs_process_cursor v) focused p)
                  (panel_rows (vs_process_cursor v) (unat (r_height inner)) procs)))
      in [(block, area), (body, inner)])"

subsection \<open>Help overlay\<close>

definition HELP_ENTRIES :: "string list" where
  "HELP_ENTRIES =
     ['' j/'' @ [CHR 0xE2, CHR 0x86, CHR 0x93] @ ''        Move down'',
      '' k/'' @ [CHR 0xE2, CHR 0x86, CHR 0x91] @ ''        Move up'',
      '' Enter/'' @ [CHR 0xE2, CHR 0x86, CHR 0x92] @ ''/l  Drill in / expand'',
      '' '' @ [CHR 0xE2, CHR 0x86, CHR 0x90] @ ''/h/Bksp   Go up / collapse'',
      '' Tab        Toggle flat/tree view'',
      '' s / S      Sort / reverse sort'',
      '' p / P      Toggle / focus processes'',
      '' Enter      Filter selected process'',
      '' /          Edit activity filter'',
      '' Esc        Cancel editor / leave pane / clear filter'',
      '' r          Reset all counters'',
      '' g/G        Jump to top/bottom'',
      '' PgUp/PgDn  Scroll one page'',
      '' ?          This help'',
      '' q/Ctrl-C   Quit'']"

definition word_clamp :: "u16 \<Rightarrow> u16 \<Rightarrow> u16 \<Rightarrow> u16" where
  "word_clamp low high n = (if n < low then low else if n > high then high else n)"

definition help_popup :: "rect \<Rightarrow> rect" where
  "help_popup area =
     (let width = word_clamp 1 52 (sat_sub (r_width area) 2); height = word_clamp 1 23 (sat_sub (r_height area) 2)
      in \<lparr>r_x = r_x area + sat_sub (r_width area) width div 2, r_y = r_y area + sat_sub (r_height area) height div 2,
          r_width = width, r_height = height\<rparr>)"

definition help_lines :: "u16 \<Rightarrow> text_line list" where
  "help_lines height =
     (let inner_height = unat (sat_sub height 2);
          help_text = (if inner_height > 1 then [[styled '' ncda - Keybindings'' (bold (in_colour Cyan))]] else []);
          entry_slots = inner_height - (length help_text + 1);
          help_text = help_text @ map (\<lambda>entry. [styled entry plain]) (take entry_slots HELP_ENTRIES)
      in if inner_height > 0 then help_text @ [[styled '' Press any key to close'' (in_colour Yellow)]] else help_text)"

definition draw_help_overlay :: "rect \<Rightarrow> (widget \<times> rect) list" where
  "draw_help_overlay area =
     (if r_width area = 0 \<or> r_height area = 0 then []
      else let popup = help_popup area
           in [(ClearArea, popup), (HelpBox (help_lines (r_height popup)), popup)])"

subsection \<open>The frame\<close>

definition diagnostics_of :: "app_state \<Rightarrow> diagnostics" where
  "diagnostics_of s =
     \<lparr>dg_total_events = as_total_events s, dg_dropped_events = as_dropped_events s,
      dg_attribution_failures = as_attribution_failures s, dg_failed_io_events = as_failed s,
      dg_zero_byte_io_events = as_zero_byte s\<rparr>"

definition draw_headings :: "terminal \<Rightarrow> u16 \<Rightarrow> view_state \<Rightarrow> text_line" where
  "draw_headings t area_width v =
     (case vs_mode v of
        FlatMode \<Rightarrow> flat_draw_columns (t_width t) area_width
      | TreeMode \<Rightarrow> tree_draw_columns (t_width t) area_width)"

definition draw_files :: "terminal \<Rightarrow> u16 \<Rightarrow> app_state \<Rightarrow> view_state \<Rightarrow> list_widget \<times> event_log" where
  "draw_files t area_width s v =
     (let focused = (vs_focus v = FilesPane)
      in case vs_mode v of
           FlatMode \<Rightarrow>
             flat_draw (t_width t) (t_lower t) (t_clock t) area_width (rows_shown (t_lower t) s v) (vs_cwd v = [])
               (vs_filter v) (vs_cursor v) focused (as_procs s) (as_log s)
         | TreeMode \<Rightarrow>
             tree_draw (t_width t) (t_lower t) (t_clock t) area_width (lines_shown (t_lower t) s v)
               (vs_cursor v) focused (vs_filter v) (as_procs s) (as_log s))"

definition screen_draw :: "terminal \<Rightarrow> rect \<Rightarrow> app_state \<Rightarrow> view_state \<Rightarrow> (widget \<times> rect) list \<times> app_state" where
  "screen_draw t area s v =
     (let chunks = t_split t Vertical [LengthOf 1, LengthOf 1, MinOf 1, LengthOf 1] area;
          header = [(Paragraph plain [header_draw (t_width t) (r_width (chunks ! 0)) v], chunks ! 0)];
          body_area = \<lparr>r_x = r_x (chunks ! 1), r_y = r_y (chunks ! 1), r_width = r_width (chunks ! 1),
                       r_height = sat_add (r_height (chunks ! 1)) (r_height (chunks ! 2))\<rparr>;
          body = compute_body_areas (t_split t) body_area (vs_show_processes v);
          panel = (case ba_processes body of
                     Some process_area \<Rightarrow> draw_process_panel t process_area s v (ba_process_borders body)
                   | None \<Rightarrow> []);
          headings = draw_headings t (r_width (ba_columns body)) v;
          (files, l) = draw_files t (r_width (ba_main body)) s v;
          s = s\<lparr>as_log := l\<rparr>;
          (rt, r) = rate_bps_at (t_now t) (as_rate s);
          s = s\<lparr>as_rate := r\<rparr>;
          footer = [(Paragraph plain [footer_draw (r_width (chunks ! 3)) (agg_stats (root (as_tree s))) rt (diagnostics_of s)],
                     chunks ! 3)]
      in (header @ panel @ [(Paragraph plain [headings], ba_columns body), (FileList files, ba_main body)] @ footer
          @ (if vs_show_help v then draw_help_overlay area else []), s))"

subsection \<open>The header fits\<close>

text \<open>Every segment takes its cells from those that remain.\<close>

lemma push_segment_fits:
  assumes "width_laws w"
  shows "(case push_segment w seg style may_cut (spans, remaining) of (spans', remaining') \<Rightarrow>
    line_width w spans' + remaining' = line_width w spans + remaining)"
  using truncate_width [OF assms, of seg remaining] by (simp add: push_segment_def Let_def)

definition header_room :: "(string \<Rightarrow> nat) \<Rightarrow> nat \<Rightarrow> text_line \<times> nat \<Rightarrow> bool" where
  "header_room w n acc \<longleftrightarrow> line_width w (fst acc) + snd acc = n"

lemma header_room_push: "width_laws w \<Longrightarrow> header_room w n acc \<Longrightarrow> header_room w n (push_segment w seg style may_cut acc)"
  using push_segment_fits [where w = w and seg = seg and style = style and may_cut = may_cut and spans = "fst acc" and remaining = "snd acc"]
  by (simp add: header_room_def case_prod_unfold)

text \<open>The header never runs over: whatever is typed, filtered or displayed, the spans of the
  header take at most the terminal's width, the editor's text, the working directory and the filter
  being cut to the room left and the short labels dropped when they do not fit.\<close>

theorem header_fits:
  assumes "width_laws w"
  shows "line_width w (header_draw w area_width v) \<le> unat area_width"
proof -
  have start: "header_room w (unat area_width) ([], unat area_width)" by (simp add: header_room_def)
  have "\<exists>acc. header_draw w area_width v = fst acc \<and> header_room w (unat area_width) acc"
    unfolding header_draw_def Let_def
    by (intro exI conjI, rule refl)
      (simp add: header_room_push [OF assms] start split: option.split)
  then show ?thesis by (auto simp: header_room_def)
qed

theorem header_fits_witness:
  "line_width char_width (header_draw char_width 12 (new_view_state\<lparr>vs_filter_input := Some ''path:very-long-directory''\<rparr>)) \<le> 12"
  using header_fits [OF char_width_laws, of 12 "new_view_state\<lparr>vs_filter_input := Some ''path:very-long-directory''\<rparr>"] by simp

subsection \<open>The process panel shows the selected process\<close>

lemma panel_rows_nth:
  "length (panel_rows c h procs) = min h (length procs - panel_start c h)"
  "i < length (panel_rows c h procs) \<Longrightarrow> panel_rows c h procs ! i = (panel_start c h + i, procs ! (panel_start c h + i))"
  by (auto simp: panel_rows_def Let_def nth_enumerate_eq)

lemma printable_pad: "printable s \<Longrightarrow> printable (pad_left n s)"
  by (simp add: pad_left_def)

lemma process_line_width:
  assumes "width_laws w" and "18 \<le> unat inner_width"
  shows "line_width w (process_line w inner_width key selected focused p) =
    unat inner_width + (length (show_word (pi_pid p)) - 6)"
proof -
  have pid: "w (pad_left 6 (show_word (pi_pid p)) @ '' '') = max 6 (length (show_word (pi_pid p))) + 1"
    using width_lawsD(3) [OF assms(1), of "pad_left 6 (show_word (pi_pid p)) @ '' ''"]
    by (simp add: printable_pad printable_show_nat show_word_def, simp add: pad_left_def max_def)
  have "w (fit_display w v n @ '' '') = n + 1" for v n
    using width_lawsD(2) [OF assms(1), of "'' ''" "fit_display w v n"] fit_width [OF assms(1), of v n] by simp
  with pid have "line_width w (process_line w inner_width key selected focused p) =
      (max 6 (length (show_word (pi_pid p))) + 1) + (process_name_width inner_width + 1) + 10"
    by (simp add: process_line_def case_prod_unfold PROCESS_METRIC_WIDTH_def Let_def fit_width [OF assms(1)])
  also have "\<dots> = unat inner_width + (length (show_word (pi_pid p)) - 6)"
    using assms(2) by (simp add: process_name_width_def PROCESS_METRIC_WIDTH_def)
  finally show ?thesis .
qed



subsection \<open>A frame changes nothing but the expired buckets\<close>

lemma running_path_rates:
  "running ex window b s \<Longrightarrow>
   running ex window b (s\<lparr>as_log := snd (path_rates lower clock i query (as_procs s) paths (as_log s))\<rparr>)"
proof (induction paths arbitrary: i s)
  case (Cons path paths)
  let ?s = "s\<lparr>as_log := snd (rate_for_prefix_at lower (clock i) path query (as_procs s) (as_log s))\<rparr>"
  have "running ex window b ?s" using Cons.prems by (rule running_path_rate)
  from Cons.IH [OF this, of "i + 1"] show ?case by (simp add: case_prod_unfold Let_def)
qed simp

lemma running_draw_files:
  assumes "running ex window b s"
  shows "running ex window b (s\<lparr>as_log := snd (draw_files t area_width s v)\<rparr>)"
proof -
  have same: "running ex window b (s\<lparr>as_log := as_log s\<rparr>)" using assms by simp
  show ?thesis
    using same running_path_rates [OF assms]
    by (cases "vs_mode v") (simp_all add: draw_files_def flat_draw_def tree_draw_def case_prod_unfold Let_def)
qed

definition drawn :: "app_state \<Rightarrow> event_log \<Rightarrow> rate_tracker \<Rightarrow> app_state" where
  "drawn s l r = s\<lparr>as_log := l, as_rate := r\<rparr>"

lemma screen_draw_state:
  "snd (screen_draw t area s v) =
     drawn s (snd (draw_files t (r_width (ba_main (compute_body_areas (t_split t)
         (let chunks = t_split t Vertical [LengthOf 1, LengthOf 1, MinOf 1, LengthOf 1] area
          in \<lparr>r_x = r_x (chunks ! 1), r_y = r_y (chunks ! 1), r_width = r_width (chunks ! 1),
              r_height = sat_add (r_height (chunks ! 1)) (r_height (chunks ! 2))\<rparr>) (vs_show_processes v)))) s v))
       (snd (rate_bps_at (t_now t) (as_rate s)))"
  by (simp add: screen_draw_def drawn_def case_prod_unfold Let_def)


definition plain_terminal :: terminal where
  "plain_terminal = \<lparr>t_width = char_width, t_lower = id, t_split = (\<lambda>_ cs area. map (\<lambda>_. area) cs), t_inner = (\<lambda>_ area. area),
     t_clock = (\<lambda>_. 9), t_now = 9\<rparr>"


end
