(* ===== verification/Tasks.thy ===== *)
theory Tasks
  imports Pipeline Layout
begin

section \<open>The tasks of the program (ncda/src/main.rs)\<close>

text \<open>
  What \<open>main\<close> does around the pipeline: errors with their causes and the hint added to a permission
  error, the loops that refresh the containers and the loss counters, the stdout mode, and how the
  tasks are ended and their failures reported. What a task, a signal or the host returns is an input;
  what other tasks do to the shared state while a loop waits is a function the turn applies.
\<close>

subsection \<open>Errors\<close>

text \<open>An \<open>anyhow::Error\<close> as its chain of causes, the outermost first; an \<open>io::Error\<close> may carry an
  operating system error number.\<close>

record cause =
  ca_text :: string
  ca_os :: "int option"

type_synonym any_error = "cause list"

definition message :: "string \<Rightarrow> any_error" where
  "message t = [\<lparr>ca_text = t, ca_os = None\<rparr>]"

definition with_context :: "string \<Rightarrow> any_error \<Rightarrow> any_error" where
  "with_context t e = \<lparr>ca_text = t, ca_os = None\<rparr> # e"

text \<open>\<open>{error:#}\<close>.\<close>

definition show_error :: "any_error \<Rightarrow> string" where
  "show_error e = join_with '': '' (map ca_text e)"

text \<open>What awaiting a task gives: its result, or the text of the join error when it panicked.\<close>

datatype 'a joined = Joined "any_error + 'a" | Panicked string

record worker_exit =
  we_name :: string
  we_error :: "string option"

definition worker_ok :: "string \<Rightarrow> worker_exit" where
  "worker_ok nm = \<lparr>we_name = nm, we_error = None\<rparr>"

definition worker_from_result :: "string \<Rightarrow> any_error + 'a \<Rightarrow> worker_exit" where
  "worker_from_result nm result =
     \<lparr>we_name = nm, we_error = (case result of Inl e \<Rightarrow> Some (show_error e) | Inr _ \<Rightarrow> None)\<rparr>"

definition worker_message :: "worker_exit \<Rightarrow> string" where
  "worker_message w =
     (case we_error w of
        Some e \<Rightarrow> we_name w @ '' task failed: '' @ e
      | None \<Rightarrow> we_name w @ '' task stopped unexpectedly'')"

subsection \<open>The permission hint\<close>

definition hex_value :: "char \<Rightarrow> nat option" where
  "hex_value c =
     (let n = of_char c :: nat
      in if 48 \<le> n \<and> n \<le> 57 then Some (n - 48)
         else if 97 \<le> n \<and> n \<le> 102 then Some (n - 87)
         else if 65 \<le> n \<and> n \<le> 70 then Some (n - 55)
         else None)"

fun parse_hex_digits :: "nat \<Rightarrow> nat \<Rightarrow> string \<Rightarrow> nat option" where
  "parse_hex_digits bound acc [] = Some acc"
| "parse_hex_digits bound acc (c # cs) =
     (case hex_value c of
        None \<Rightarrow> None
      | Some d \<Rightarrow> if 16 * acc + d < bound then parse_hex_digits bound (16 * acc + d) cs else None)"

text \<open>\<open>u64::from_str_radix(_, 16)\<close>.\<close>

definition parse_hex :: "string \<Rightarrow> u64 option" where
  "parse_hex s =
     (let digits = (case s of [] \<Rightarrow> [] | c # cs \<Rightarrow> if c = CHR ''+'' then cs else s)
      in if digits = [] then None else map_option of_nat (parse_hex_digits (2 ^ 64) 0 digits))"

text \<open>The contents of \<open>/proc/self/status\<close>, when it can be read.\<close>

definition effective_capabilities :: "string option \<Rightarrow> u64 option" where
  "effective_capabilities status =
     do { t \<leftarrow> status;
          v \<leftarrow> find_map (strip_prefix (''CapEff:'' @ [CHR 0x09])) (text_lines t);
          parse_hex (trim v) }"

definition CAPS :: "(nat \<times> string) list" where
  "CAPS = [(19, ''CAP_SYS_PTRACE''), (21, ''CAP_SYS_ADMIN''), (24, ''CAP_SYS_RESOURCE''), (38, ''CAP_PERFMON''), (39, ''CAP_BPF'')]"

definition format_capabilities :: "u64 \<Rightarrow> string" where
  "format_capabilities bits =
     (let present = List.map_filter (\<lambda>(b, nm). if bit bits b then Some nm else None) CAPS
      in if present = [] then ''none relevant'' else join_with '','' present)"

record host =
  ho_program :: "string option"
  ho_uid :: u32
  ho_status :: "string option"
  ho_lockdown :: "string option"
  ho_memlock :: "(u64 \<times> u64) option"

definition EPERM :: int where "EPERM = 1"
definition ENOMEM :: int where "ENOMEM = 12"
definition EACCES :: int where "EACCES = 13"

definition resource_error :: "any_error \<Rightarrow> int option" where
  "resource_error e = find_map (\<lambda>c. case ca_os c of
       Some n \<Rightarrow> if n = EPERM \<or> n = EACCES \<or> n = ENOMEM then Some n else None
     | None \<Rightarrow> None) e"

definition permission_hint :: "host \<Rightarrow> string" where
  "permission_hint h =
     (let program = (case ho_program h of Some p \<Rightarrow> p | None \<Rightarrow> ''ncda'');
          caps = (case effective_capabilities (ho_status h) of Some c \<Rightarrow> c | None \<Rightarrow> 0);
          lockdown = (case ho_lockdown h of Some l \<Rightarrow> trim l | None \<Rightarrow> ''unavailable'');
          memlock = (case ho_memlock h of
                       Some (soft, hard) \<Rightarrow> show_word soft @ ''/'' @ show_word hard @ '' bytes''
                     | None \<Rightarrow> ''unavailable'')
      in ''unable to initialize eBPF (uid='' @ show_word (ho_uid h) @ '', effective capabilities: ''
         @ format_capabilities caps @ ''; lockdown: '' @ lockdown @ ''; RLIMIT_MEMLOCK: '' @ memlock @ '')''
         @ [CHR 0x0A] @ ''Root or CAP_BPF+CAP_PERFMON is normally required; CAP_SYS_ADMIN is the legacy alternative. ''
         @ ''CAP_SYS_PTRACE may also be needed for cross-process path resolution. On pre-5.11 kernels, increase ''
         @ ''RLIMIT_MEMLOCK (and CAP_SYS_RESOURCE may be required). Active confidentiality lockdown can deny kernel reads.''
         @ [CHR 0x0A] @ ''Try: sudo '' @ program)"

definition add_ebpf_permission_hint :: "host \<Rightarrow> any_error \<Rightarrow> any_error" where
  "add_ebpf_permission_hint h e =
     (if resource_error e = None then e else with_context (permission_hint h) e)"

subsection \<open>The periodic tasks\<close>

text \<open>
  A turn of the discovery: what the shutdown flag reads at its top, what the discovery gives, what
  the other tasks did to the state before the lock is taken, and how the wait ends.
\<close>

datatype discovery_wake = Slept | Signalled bool | Sender_Gone

record discovery_turn =
  dt_flag :: bool
  dt_found :: "resolver joined"
  dt_meanwhile :: "app_state \<Rightarrow> app_state"
  dt_wake :: discovery_wake

text \<open>The result, \<open>None\<close> when the turns end with the task still waiting.\<close>

fun monitor_container_discovery ::
    "discovery_turn list \<Rightarrow> app_state \<Rightarrow> (any_error + unit) option \<times> app_state" where
  "monitor_container_discovery [] s = (None, s)"
| "monitor_container_discovery (t # ts) s =
     (if dt_flag t then (Some (Inr ()), s)
      else case dt_found t of
        Panicked e \<Rightarrow> (Some (Inl (with_context ''container discovery worker panicked'' (message e))), s)
      | Joined (Inl e) \<Rightarrow> (Some (Inl e), s)
      | Joined (Inr discovered) \<Rightarrow>
          let s = dt_meanwhile t s;
              s = s\<lparr>as_containers := replace_discovery discovered (as_containers s)\<rparr>
          in (case dt_wake t of
                Slept \<Rightarrow> monitor_container_discovery ts s
              | Signalled flag \<Rightarrow> if flag then (Some (Inr ()), s) else monitor_container_discovery ts s
              | Sender_Gone \<Rightarrow> (Some (Inr ()), s)))"

text \<open>
  A turn of the loss counters: when the counters were sampled and what they were, the changes of the
  state before its lock is taken, when the shutdown flag was read, and how the wait ended. The flag
  reads true from the time \<open>signal\<close> on.
\<close>

datatype monitor_wake = Interval_Tick | Flag_Changed | Channel_Closed

record monitor_turn =
  mt_sampled :: int
  mt_kernel :: "any_error + capture_stats list"
  mt_reader :: reader_drops
  mt_meanwhile :: "app_state \<Rightarrow> app_state"
  mt_checked :: int
  mt_wake :: monitor_wake

fun monitor_drop_counters ::
    "int \<Rightarrow> monitor_turn list \<Rightarrow> app_state \<Rightarrow> (any_error + drop_snapshot) option \<times> app_state" where
  "monitor_drop_counters signal [] s = (None, s)"
| "monitor_drop_counters signal (t # ts) s =
     (case mt_kernel t of
        Inl e \<Rightarrow> (Some (Inl (with_context ''read kernel capture counters'' e)), s)
      | Inr per_cpu \<Rightarrow>
          (case monitor_drops per_cpu (mt_reader t) (mt_meanwhile t s) of (snapshot, s) \<Rightarrow>
             if signal \<le> mt_checked t then (Some (Inr snapshot), s)
             else if mt_wake t = Channel_Closed then (Some (Inr snapshot), s)
             else monitor_drop_counters signal ts s))"

subsection \<open>The stdout mode\<close>

definition char_count :: "string \<Rightarrow> nat" where
  "char_count s = length (chars s)"

definition pad_right :: "nat \<Rightarrow> string \<Rightarrow> string" where
  "pad_right n s = s @ replicate (n - char_count s) (CHR '' '')"

definition summary_line :: "app_state \<Rightarrow> string" where
  "summary_line s =
     (let root_stats = agg_stats (file_tree.root (as_tree s))
      in ''Events:'' @ pad_left 8 (show_word (as_total_events s))
         @ '' | Drops:'' @ pad_left 6 (show_word (as_dropped_events s))
         @ '' | Attr:'' @ pad_left 6 (show_word (as_attribution_failures s))
         @ '' | Err:'' @ pad_left 6 (show_word (as_failed s))
         @ '' Zero:'' @ pad_left 6 (show_word (as_zero_byte s))
         @ '' | R:'' @ pad_left 10 (format_bytes (read_bytes root_stats))
         @ '' W:'' @ pad_left 10 (format_bytes (write_bytes root_stats))
         @ '' | Ops:'' @ pad_left 8 (format_count (total_ops root_stats))
         @ '' | FDs cached:'' @ pad_left 6 (show_nat (fd_cache_len (as_fds s))))"

definition child_line :: "tree_node \<Rightarrow> string" where
  "child_line child =
     (let st = agg_stats child
      in ''  /'' @ pad_right 30 (if is_dir child then name child @ ''/'' else name child)
         @ '' R:'' @ pad_left 8 (format_bytes (read_bytes st))
         @ '' W:'' @ pad_left 8 (format_bytes (write_bytes st))
         @ '' Ops:'' @ pad_left 6 (format_count (total_ops st)))"

definition summary :: "app_state \<Rightarrow> string list" where
  "summary s =
     summary_line s # map child_line (take 10 (sorted_children (file_tree.root (as_tree s)) TotalBytes True)) @ [[]]"

text \<open>A turn: the shutdown flag at its top and the state the next tick finds.\<close>

fun stdout_loop :: "(bool \<times> app_state) list \<Rightarrow> string list \<times> bool" where
  "stdout_loop [] = ([], False)"
| "stdout_loop ((stop, s) # ts) =
     (if stop then ([[], ''Exiting.''], True)
      else case stdout_loop ts of (printed, ended) \<Rightarrow> (summary s @ printed, ended))"

definition run_stdout_mode :: "(bool \<times> app_state) list \<Rightarrow> string list \<times> bool" where
  "run_stdout_mode ts =
     (case stdout_loop ts of (printed, ended) \<Rightarrow>
        ([''ncda: monitoring file access (Ctrl+C to stop)...'', []] @ printed, ended))"

subsection \<open>Ending the program\<close>

text \<open>What ends the wait of \<open>main\<close>: the output task, SIGINT, SIGTERM or a critical worker (\<open>None\<close>
  when the channel of their statuses closes).\<close>

datatype wake_up =
    Output_Ended "unit joined"
  | Interrupted "any_error + unit"
  | Terminated
  | Worker_Ended "worker_exit option"

text \<open>\<open>Inl\<close> leaves \<open>main\<close> at once; otherwise the result of the mode and whether the output ended.\<close>

definition mode_result :: "wake_up \<Rightarrow> any_error + (any_error + unit) \<times> bool" where
  "mode_result w =
     (case w of
        Output_Ended (Joined r) \<Rightarrow> Inr (r, True)
      | Output_Ended (Panicked e) \<Rightarrow> Inl (with_context ''output task panicked'' (message e))
      | Interrupted (Inl e) \<Rightarrow> Inr (Inl (with_context ''listen for SIGINT'' e), False)
      | Interrupted (Inr _) \<Rightarrow> Inr (Inr (), False)
      | Terminated \<Rightarrow> Inr (Inr (), False)
      | Worker_Ended None \<Rightarrow> Inl (message ''critical worker status channel closed'')
      | Worker_Ended (Some worker) \<Rightarrow> Inr (Inl (message (worker_message worker)), False))"

record shutdown_results =
  sr_detach :: "any_error + unit"
  sr_reader :: "unit joined"
  sr_aggregator :: "string option"
  sr_container :: "unit joined"
  sr_output :: "unit joined"
  sr_stats :: "drop_snapshot joined"

definition failed_result :: "string \<Rightarrow> any_error + 'a \<Rightarrow> string list" where
  "failed_result label r = (case r of Inl e \<Rightarrow> [label @ '': '' @ show_error e] | Inr _ \<Rightarrow> [])"

definition failed_task :: "string \<Rightarrow> string \<Rightarrow> 'a joined \<Rightarrow> string list" where
  "failed_task label panicked r =
     (case r of Joined x \<Rightarrow> failed_result label x | Panicked e \<Rightarrow> [panicked @ '': '' @ e])"

definition shutdown_failures :: "any_error + unit \<Rightarrow> bool \<Rightarrow> shutdown_results \<Rightarrow> string list" where
  "shutdown_failures mode output_finished r =
     failed_result ''output'' mode
     @ failed_result ''ordered eBPF detach'' (sr_detach r)
     @ failed_task ''BPF reader'' ''BPF reader panicked'' (sr_reader r)
     @ (case sr_aggregator r of Some e \<Rightarrow> [''aggregator panicked: '' @ e] | None \<Rightarrow> [])
     @ failed_task ''container discovery'' ''container discovery panicked'' (sr_container r)
     @ (if output_finished then [] else failed_task ''output'' ''output task panicked'' (sr_output r))
     @ failed_task ''capture stats'' ''capture stats task panicked'' (sr_stats r)"

definition final_drops :: "drop_snapshot joined \<Rightarrow> drop_snapshot" where
  "final_drops r =
     (case r of Joined (Inr snapshot) \<Rightarrow> snapshot
      | _ \<Rightarrow> \<lparr>ds_ring = 0, ds_stash = 0, ds_scratch = 0, ds_parse = 0, ds_queue = 0, ds_shutdown = 0\<rparr>)"

text \<open>What \<open>main\<close> returns.\<close>

definition main_exit :: "wake_up \<Rightarrow> shutdown_results \<Rightarrow> any_error + unit" where
  "main_exit w r =
     (case mode_result w of
        Inl e \<Rightarrow> Inl e
      | Inr (mode, output_finished) \<Rightarrow>
          let failures = shutdown_failures mode output_finished r
          in if failures = [] then Inr () else Inl (message (join_with [CHR 0x0A] failures)))"

text \<open>The steps of the shutdown, in order.\<close>

datatype shutdown_step =
    Stop_Output | Discard_Pending | Stop_Discovery | Detach_Programs | Drop_Programs | Stop_Reader
  | Await_Reader | Await_Aggregator | Await_Discovery | Stop_Stats | Await_Output | Await_Stats

definition shutdown_steps :: "wake_up \<Rightarrow> shutdown_step list" where
  "shutdown_steps w =
     (case mode_result w of
        Inl _ \<Rightarrow> []
      | Inr (mode, output_finished) \<Rightarrow>
          [Stop_Output, Discard_Pending, Stop_Discovery, Detach_Programs, Drop_Programs, Stop_Reader,
           Await_Reader, Await_Aggregator, Await_Discovery, Stop_Stats]
          @ (if output_finished then [] else [Await_Output]) @ [Await_Stats])"

text \<open>The closing messages of the log.\<close>

definition closing_log :: "drop_snapshot \<Rightarrow> string list" where
  "closing_log d =
     (if ds_shutdown d > 0
      then [''discarded '' @ show_word (ds_shutdown d) @ '' pending events after output closed''] else [])
     @ (if snapshot_total d > 0
        then [''capture lost '' @ show_word (snapshot_total d) @ '' events (ring='' @ show_word (ds_ring d)
              @ '', stash='' @ show_word (ds_stash d) @ '', scratch='' @ show_word (ds_scratch d)
              @ '', parse='' @ show_word (ds_parse d) @ '', queue='' @ show_word (ds_queue d) @ '')''] else [])"

subsection \<open>The capabilities are read back\<close>

definition hex_char :: "nat \<Rightarrow> char" where
  "hex_char d = (if d < 10 then char_of (48 + d) else char_of (87 + d))"

text \<open>\<open>%0*llx\<close>, as the kernel prints a capability set.\<close>

fun show_hex :: "nat \<Rightarrow> nat \<Rightarrow> string" where
  "show_hex 0 n = []"
| "show_hex (Suc k) n = show_hex k (n div 16) @ [hex_char (n mod 16)]"

lemma hex_value_char: "d < 16 \<Longrightarrow> hex_value (hex_char d) = Some d"
  by (auto simp: hex_value_def hex_char_def Let_def)

lemma hex_char_plain: "d < 16 \<Longrightarrow> plain_byte (hex_char d) \<and> hex_char d \<noteq> CHR ''+''"
proof -
  assume d: "d < 16"
  then have "(of_char (hex_char d) :: nat) = (if d < 10 then 48 + d else 87 + d)"
    by (auto simp: hex_char_def)
  then have "48 \<le> (of_char (hex_char d) :: nat) \<and> (of_char (hex_char d) :: nat) \<le> 102" using d by (simp split: if_splits)
  moreover from this have "hex_char d \<noteq> CHR ''+''" by auto
  ultimately show ?thesis by (simp add: plain_byte_def)
qed

lemma show_hex_chars: "c \<in> set (show_hex k n) \<Longrightarrow> plain_byte c \<and> c \<noteq> CHR ''+''"
  by (induction k arbitrary: n) (auto simp: hex_char_plain)

lemma show_hex_length: "length (show_hex k n) = k"
  by (induction k arbitrary: n) simp_all

lemma parse_hex_append:
  "parse_hex_digits bound acc (xs @ ys) =
     (case parse_hex_digits bound acc xs of None \<Rightarrow> None | Some a \<Rightarrow> parse_hex_digits bound a ys)"
  by (induction xs arbitrary: acc) (auto split: option.split)

lemma parse_show_hex: "n < 16 ^ k \<Longrightarrow> n < bound \<Longrightarrow> parse_hex_digits bound 0 (show_hex k n) = Some n"
proof (induction k arbitrary: n)
  case (Suc k)
  have "n div 16 < 16 ^ k" using Suc.prems(1) by (simp add: less_mult_imp_div_less mult.commute)
  then have "parse_hex_digits bound 0 (show_hex k (n div 16)) = Some (n div 16)"
    using Suc.IH Suc.prems(2) by (meson div_le_dividend le_less_trans)
  then show ?case using Suc.prems(2) by (simp add: parse_hex_append hex_value_char)
qed simp

lemma parse_hex_show: "parse_hex (show_hex 16 (unat w)) = Some w"
proof -
  have "show_hex 16 (unat w) \<noteq> []" using show_hex_length [of 16 "unat w"] by auto
  then obtain c cs where c: "show_hex 16 (unat w) = c # cs" by (cases "show_hex 16 (unat w)") auto
  then have "c \<noteq> CHR ''+''" using show_hex_chars [of c 16 "unat w"] by simp
  moreover have "unat w < 2 ^ 64" using unat_bound [of w] by simp
  ultimately show ?thesis using parse_show_hex [of "unat w" 16 "2 ^ 64"] c by (simp add: parse_hex_def Let_def)
qed

definition status_line :: "u64 \<Rightarrow> string" where
  "status_line w = ''CapEff:'' @ [CHR 0x09] @ show_hex 16 (unat w)"

definition other_line :: "string \<Rightarrow> bool" where
  "other_line l \<longleftrightarrow> CHR 0x0A \<notin> set l \<and> CHR 0x0D \<notin> set l \<and> \<not> starts_with (''CapEff:'' @ [CHR 0x09]) l"

lemma no_prefix: "\<not> starts_with p l \<Longrightarrow> strip_prefix p l = None"
  by (simp only: starts_with_def not_not)

lemma find_capabilities:
  "list_all other_line ls \<Longrightarrow>
   find_map (strip_prefix (''CapEff:'' @ [CHR 0x09])) (text_lines (concat (map (\<lambda>l. l @ [CHR 0x0A]) ls) @ t)) =
   find_map (strip_prefix (''CapEff:'' @ [CHR 0x09])) (text_lines t)"
proof (induction ls)
  case (Cons l ls)
  then have l: "CHR 0x0A \<notin> set l" "CHR 0x0D \<notin> set l" "strip_prefix (''CapEff:'' @ [CHR 0x09]) l = None"
    by (simp_all add: other_line_def no_prefix)
  have "text_lines (l @ CHR 0x0A # (concat (map (\<lambda>l. l @ [CHR 0x0A]) ls) @ t)) =
      l # text_lines (concat (map (\<lambda>l. l @ [CHR 0x0A]) ls) @ t)"
    using l(1,2) by (rule text_lines_line)
  with Cons l(3) show ?case by simp
qed simp

lemma capability_names: "CHR '','' \<notin> set nm \<and> nm \<noteq> []" if "(b, nm) \<in> set CAPS"
  using that by (auto simp: CAPS_def)

lemma map_filter_conv: "List.map_filter (\<lambda>(b, nm). if P b then Some nm else None) xs = map snd (filter (P \<circ> fst) xs)"
  by (induction xs) (auto simp: map_filter_simps)

text \<open>The capabilities a permission hint names are those of the process: from the status text the
  kernel writes, whatever its other lines, the capability word is read back exactly, and the hint
  lists the names of exactly the relevant bits set in it.\<close>

theorem capabilities_read_back:
  assumes "list_all other_line before"
  shows "effective_capabilities (Some (concat (map (\<lambda>l. l @ [CHR 0x0A]) before) @ status_line w @ CHR 0x0A # rest)) = Some w \<and>
    (if \<exists>(b, nm) \<in> set CAPS. bit w b
     then split_on (CHR '','') (format_capabilities w) = map snd (filter (\<lambda>(b, nm). bit w b) CAPS)
     else format_capabilities w = ''none relevant'')"
proof
  let ?hex = "show_hex 16 (unat w)"
  have plain: "\<forall>c \<in> set ?hex. plain_byte c" using show_hex_chars by blast
  then have "CHR 0x0A \<notin> set (status_line w)" "CHR 0x0D \<notin> set (status_line w)"
    by (auto simp: status_line_def plain_byte_def)
  then have "text_lines (status_line w @ CHR 0x0A # rest) = status_line w # text_lines rest"
    by (rule text_lines_line)
  then have "find_map (strip_prefix (''CapEff:'' @ [CHR 0x09])) (text_lines (status_line w @ CHR 0x0A # rest)) = Some ?hex"
    by (simp add: status_line_def)
  then show "effective_capabilities (Some (concat (map (\<lambda>l. l @ [CHR 0x0A]) before) @ status_line w @ CHR 0x0A # rest)) = Some w"
    using find_capabilities [OF assms] trim_plain [OF plain]
    by (simp add: effective_capabilities_def parse_hex_show)
next
  let ?named = "filter (\<lambda>(b, nm). bit w b) CAPS"
  have present: "List.map_filter (\<lambda>(b, nm). if bit w b then Some nm else None) CAPS = map snd ?named"
    unfolding map_filter_conv by (simp add: case_prod_unfold comp_def)
  have free: "\<forall>nm \<in> set (map snd ?named). CHR '','' \<notin> set nm" using capability_names by fastforce
  show "if \<exists>(b, nm) \<in> set CAPS. bit w b
     then split_on (CHR '','') (format_capabilities w) = map snd ?named
     else format_capabilities w = ''none relevant''"
  proof (cases "\<exists>(b, nm) \<in> set CAPS. bit w b")
    case True
    then have "map snd ?named \<noteq> []" by (auto simp: filter_empty_conv)
    with True free show ?thesis by (simp add: format_capabilities_def present Let_def split_on_join)
  next
    case False
    then have "map snd ?named = []" by (auto simp: filter_empty_conv)
    with False show ?thesis by (simp add: format_capabilities_def present)
  qed
qed

theorem capabilities_read_back_witness:
  "effective_capabilities (Some (''Name:x'' @ [CHR 0x0A] @ status_line 0x80000 @ [CHR 0x0A])) = Some 0x80000"
  using capabilities_read_back [of "[''Name:x'']" "0x80000" "[]"] by (simp add: other_line_def starts_with_def)

text \<open>The hint leaves other errors alone and keeps the whole chain of a permission error.\<close>

lemma hint_only_when_denied:
  "(\<forall>c \<in> set e. ca_os c \<notin> {Some EPERM, Some EACCES, Some ENOMEM}) \<Longrightarrow> add_ebpf_permission_hint h e = e"
proof -
  assume "\<forall>c \<in> set e. ca_os c \<notin> {Some EPERM, Some EACCES, Some ENOMEM}"
  then have "resource_error e = None"
    unfolding resource_error_def by (induction e) (auto split: option.split)
  then show ?thesis by (simp add: add_ebpf_permission_hint_def)
qed

lemma hint_keeps_causes: "\<exists>hint. add_ebpf_permission_hint h e = hint @ e \<and> length hint \<le> 1"
  by (simp add: add_ebpf_permission_hint_def with_context_def)

subsection \<open>The container discovery\<close>

text \<open>The discovery goes on exactly until a flag it reads or the end of its channel stops it, and it
  returns an error only when a discovery worker failed.\<close>

lemma discovery_ends_with_its_flag:
  "case fst (monitor_container_discovery ts s) of
     None \<Rightarrow> list_all (\<lambda>t. \<not> dt_flag t \<and> dt_wake t \<notin> {Signalled True, Sender_Gone}) ts
   | Some (Inl e) \<Rightarrow> \<exists>t \<in> set ts. \<forall>found. dt_found t \<noteq> Joined (Inr found)
   | Some (Inr _) \<Rightarrow> \<exists>t \<in> set ts. dt_flag t \<or> dt_wake t \<in> {Signalled True, Sender_Gone}"
proof (induction ts arbitrary: s)
  case (Cons t ts)
  show ?case
  proof (cases "dt_flag t")
    case go: False
    show ?thesis
    proof (cases "\<exists>found. dt_found t = Joined (Inr found)")
      case True
      then obtain found where "dt_found t = Joined (Inr found)" by blast
      moreover define s1 where "s1 = dt_meanwhile t s\<lparr>as_containers := replace_discovery found (as_containers (dt_meanwhile t s))\<rparr>"
      ultimately show ?thesis
        using go Cons.IH [of s1] by (cases "dt_wake t") (auto simp: Let_def split: option.splits sum.splits)
    next
      case False
      with go show ?thesis by (auto split: joined.split sum.split)
    qed
  qed simp
qed simp

subsection \<open>The loss counters\<close>

lemma drop_total_updated:
  "monitor_drops k r s = (snapshot, s') \<Longrightarrow>
   snapshot = take_snapshot k r \<and> as_drop_total s' = snapshot_total snapshot \<and>
   as_dropped_events s' = sat_sub (snapshot_total snapshot) (as_drop_baseline s')"
  by (auto simp: monitor_drops_def update_drop_total_def Let_def)

text \<open>The counters reported at the end are the ones displayed: once the shutdown flag is set, a
  monitor whose map reads succeed returns after its first check of the flag from then on, with the
  snapshot of that turn, and leaves the state showing exactly the loss of that snapshot since the
  last reset; every earlier turn ended before the flag was set, so the snapshot is at most one turn
  old.\<close>

theorem final_counters_displayed:
  assumes "\<exists>t \<in> set ts. signal \<le> mt_checked t"
    and "\<forall>t \<in> set ts. (\<exists>per_cpu. mt_kernel t = Inr per_cpu) \<and> mt_wake t \<noteq> Channel_Closed"
  shows "\<exists>before t after per_cpu s'. ts = before @ t # after \<and>
    (\<forall>u \<in> set before. mt_checked u < signal) \<and> signal \<le> mt_checked t \<and> mt_kernel t = Inr per_cpu \<and>
    monitor_drop_counters signal ts s = (Some (Inr (take_snapshot per_cpu (mt_reader t))), s') \<and>
    as_drop_total s' = snapshot_total (take_snapshot per_cpu (mt_reader t)) \<and>
    as_dropped_events s' = sat_sub (snapshot_total (take_snapshot per_cpu (mt_reader t))) (as_drop_baseline s')"
  using assms
proof (induction ts arbitrary: s)
  case (Cons t ts)
  obtain k where k: "mt_kernel t = Inr k" using Cons.prems(2) by auto
  obtain d s1 where d: "monitor_drops k (mt_reader t) (mt_meanwhile t s) = (d, s1)"
    by (cases "monitor_drops k (mt_reader t) (mt_meanwhile t s)")
  note shown = drop_total_updated [OF d]
  show ?case
  proof (cases "signal \<le> mt_checked t")
    case True
    then have "monitor_drop_counters signal (t # ts) s = (Some (Inr (take_snapshot k (mt_reader t))), s1)"
      using k d shown by simp
    with True k shown show ?thesis by (intro exI [of _ "[]"] exI [of _ t] exI [of _ ts] exI [of _ k] exI [of _ s1]) simp
  next
    case False
    then have step: "monitor_drop_counters signal (t # ts) s = monitor_drop_counters signal ts s1"
      using k d Cons.prems(2) by simp
    from False Cons.prems have "\<exists>t \<in> set ts. signal \<le> mt_checked t"
      "\<forall>t \<in> set ts. (\<exists>per_cpu. mt_kernel t = Inr per_cpu) \<and> mt_wake t \<noteq> Channel_Closed" by auto
    from Cons.IH [OF this, of s1] obtain before u after per_cpu s' where
      "ts = before @ u # after" "\<forall>v \<in> set before. mt_checked v < signal" "signal \<le> mt_checked u"
      "mt_kernel u = Inr per_cpu"
      "monitor_drop_counters signal ts s1 = (Some (Inr (take_snapshot per_cpu (mt_reader u))), s')"
      "as_drop_total s' = snapshot_total (take_snapshot per_cpu (mt_reader u))"
      "as_dropped_events s' = sat_sub (snapshot_total (take_snapshot per_cpu (mt_reader u))) (as_drop_baseline s')"
      by blast
    with False step show ?thesis
      by (intro exI [of _ "t # before"] exI [of _ u] exI [of _ after] exI [of _ per_cpu] exI [of _ s']) simp
  qed
qed simp

definition sample_turn :: "int \<Rightarrow> int \<Rightarrow> u64 \<Rightarrow> monitor_turn" where
  "sample_turn sampled checked discarded =
     \<lparr>mt_sampled = sampled, mt_kernel = Inr [], mt_reader = \<lparr>parse_drops = 0, queue_drops = 0, shutdown_discarded = discarded\<rparr>,
      mt_meanwhile = id, mt_checked = checked, mt_wake = Interval_Tick\<rparr>"

theorem final_counters_displayed_witness:
  "\<exists>d s'. monitor_drop_counters 10 [sample_turn 1 2 0, sample_turn 11 12 7] (new_app_state 5 []) = (Some (Inr d), s') \<and>
     ds_shutdown d = 7"
proof -
  let ?ts = "[sample_turn 1 2 0, sample_turn 11 12 7]"
  have "\<exists>t \<in> set ?ts. 10 \<le> mt_checked t"
    and "\<forall>t \<in> set ?ts. (\<exists>per_cpu. mt_kernel t = Inr per_cpu) \<and> mt_wake t \<noteq> Channel_Closed"
    by (simp_all add: sample_turn_def)
  from final_counters_displayed [OF this, of "new_app_state 5 []"] obtain before t after per_cpu s' where
    r: "?ts = before @ t # after" "\<forall>u \<in> set before. mt_checked u < 10" "10 \<le> mt_checked t"
    "monitor_drop_counters 10 ?ts (new_app_state 5 []) = (Some (Inr (take_snapshot per_cpu (mt_reader t))), s')"
    by blast
  from r(1,3) have "t = sample_turn 11 12 7"
    by (cases before) (auto simp: sample_turn_def append_eq_Cons_conv Cons_eq_append_conv)
  then have "ds_shutdown (take_snapshot per_cpu (mt_reader t)) = 7"
    by (simp add: sample_turn_def take_snapshot_def Let_def)
  with r(4) show ?thesis by blast
qed

text \<open>
  The last sample may still be older than the flag: a turn that samples the counters, waits for the
  lock of the state while the reader and the aggregator finish and the flag is set, and only then
  reads the flag, returns what it sampled before.
\<close>

lemma final_sample_can_be_stale:
  "\<exists>t d s'. mt_sampled t < 10 \<and> monitor_drop_counters 10 [t, sample_turn 12 13 7] (new_app_state 5 []) = (Some (Inr d), s') \<and>
     ds_shutdown d = 0"
  by (intro exI [of _ "sample_turn 9 11 0"])
    (simp add: sample_turn_def monitor_drops_def take_snapshot_def Let_def)

subsection \<open>Every failure is reported\<close>

lemma contains_join: "p \<in> set ps \<Longrightarrow> contains p (join_with sep ps)"
proof -
  assume "p \<in> set ps"
  then obtain us vs where ps: "ps = us @ p # vs" by (meson split_list)
  have tail: "\<exists>z. join_with sep (p # vs) = p @ z"
    by (cases vs) (simp_all add: join_with_Cons)
  show ?thesis
  proof (cases "us = []")
    case True
    with ps tail show ?thesis unfolding contains_iff by (metis append_Nil)
  next
    case False
    with ps have "join_with sep ps = join_with sep us @ sep @ join_with sep (p # vs)"
      by (simp add: join_with_append)
    with tail show ?thesis unfolding contains_iff by (metis append.assoc)
  qed
qed

lemma failed_result_none [simp]: "failed_result label r = [] \<longleftrightarrow> (\<exists>x. r = Inr x)"
  by (cases r) (simp_all add: failed_result_def)

lemma failed_task_none [simp]: "failed_task label panicked r = [] \<longleftrightarrow> (\<exists>x. r = Joined (Inr x))"
  by (cases r) (simp_all add: failed_task_def)

text \<open>The parts of a shutdown that failed, with what each failed with.\<close>

inductive part_failed :: "wake_up \<Rightarrow> shutdown_results \<Rightarrow> string \<Rightarrow> bool" for w r where
  Mode: "mode_result w = Inr (Inl e, fin) \<Longrightarrow> part_failed w r (show_error e)"
| Detach: "sr_detach r = Inl e \<Longrightarrow> part_failed w r (show_error e)"
| Reader: "sr_reader r = Joined (Inl e) \<Longrightarrow> part_failed w r (show_error e)"
| Reader_Panic: "sr_reader r = Panicked p \<Longrightarrow> part_failed w r p"
| Aggregator_Panic: "sr_aggregator r = Some p \<Longrightarrow> part_failed w r p"
| Container: "sr_container r = Joined (Inl e) \<Longrightarrow> part_failed w r (show_error e)"
| Container_Panic: "sr_container r = Panicked p \<Longrightarrow> part_failed w r p"
| Output: "mode_result w = Inr (m, False) \<Longrightarrow> sr_output r = Joined (Inl e) \<Longrightarrow> part_failed w r (show_error e)"
| Output_Panic: "mode_result w = Inr (m, False) \<Longrightarrow> sr_output r = Panicked p \<Longrightarrow> part_failed w r p"
| Stats: "sr_stats r = Joined (Inl e) \<Longrightarrow> part_failed w r (show_error e)"
| Stats_Panic: "sr_stats r = Panicked p \<Longrightarrow> part_failed w r p"

lemma part_failed_line:
  assumes "part_failed w r e" and "mode_result w = Inr (m, fin)"
  shows "\<exists>label. label @ '': '' @ e \<in> set (shutdown_failures m fin r)"
  using assms(1)
proof cases
  case (Aggregator_Panic)
  then show ?thesis by (intro exI [of _ "''aggregator panicked''"]) (simp add: shutdown_failures_def)
qed (use assms(2) in \<open>auto simp: shutdown_failures_def failed_result_def failed_task_def\<close>)

lemma no_part_failed:
  assumes "mode_result w = Inr (m, fin)"
  shows "shutdown_failures m fin r = [] \<longleftrightarrow> (\<forall>e. \<not> part_failed w r e)"
proof
  assume "shutdown_failures m fin r = []"
  then show "\<forall>e. \<not> part_failed w r e" using part_failed_line [OF _ assms] by fastforce
next
  assume none: "\<forall>e. \<not> part_failed w r e"
  have "\<exists>x. m = Inr x" using none assms by (cases m) (auto intro: part_failed.Mode)
  moreover have "\<exists>x. sr_detach r = Inr x" using none by (cases "sr_detach r") (auto intro: part_failed.Detach)
  moreover have "\<exists>x. sr_reader r = Joined (Inr x)" using none
    by (metis joined.exhaust sum.exhaust part_failed.Reader part_failed.Reader_Panic)
  moreover have "sr_aggregator r = None" using none by (cases "sr_aggregator r") (auto intro: part_failed.Aggregator_Panic)
  moreover have "\<exists>x. sr_container r = Joined (Inr x)" using none
    by (metis joined.exhaust sum.exhaust part_failed.Container part_failed.Container_Panic)
  moreover have "fin \<or> (\<exists>x. sr_output r = Joined (Inr x))" using none assms
    by (metis (full_types) joined.exhaust sum.exhaust part_failed.Output part_failed.Output_Panic)
  moreover have "\<exists>x. sr_stats r = Joined (Inr x)" using none
    by (metis joined.exhaust sum.exhaust part_failed.Stats part_failed.Stats_Panic)
  ultimately show "shutdown_failures m fin r = []" by (auto simp: shutdown_failures_def)
qed

text \<open>(C15) Once the shutdown is entered no failure is lost: the program returns success exactly when
  neither the mode nor any part of the shutdown failed, and otherwise one error that contains the
  whole chain of causes of every part that failed. A worker that ended the program is named with its
  error.\<close>

theorem shutdown_reports_every_failure:
  assumes "mode_result w = Inr (m, fin)"
  shows "(main_exit w r = Inr () \<longleftrightarrow> (\<forall>e. \<not> part_failed w r e)) \<and>
    (part_failed w r e \<longrightarrow> (\<exists>text. main_exit w r = Inl (message text) \<and> contains e text)) \<and>
    (w = Worker_Ended (Some (worker_from_result nm (Inl err))) \<longrightarrow>
       (\<exists>text. main_exit w r = Inl (message text) \<and> contains (nm @ '' task failed: '' @ show_error err) text))"
proof -
  let ?fs = "shutdown_failures m fin r"
  have exit: "main_exit w r = (if ?fs = [] then Inr () else Inl (message (join_with [CHR 0x0A] ?fs)))"
    using assms by (simp add: main_exit_def Let_def)
  have reported: "\<exists>text. main_exit w r = Inl (message text) \<and> contains e text" if failed: "part_failed w r e" for e
  proof -
    obtain label where line: "label @ '': '' @ e \<in> set ?fs" using part_failed_line [OF failed assms] by blast
    have "contains e (join_with [CHR 0x0A] ?fs)"
      using contains_join [OF line, of "[CHR 0x0A]"] unfolding contains_iff by (metis append.assoc)
    with line exit show ?thesis by (intro exI [of _ "join_with [CHR 0x0A] ?fs"]) auto
  qed
  have worker: "part_failed w r (nm @ '' task failed: '' @ show_error err)"
    if w: "w = Worker_Ended (Some (worker_from_result nm (Inl err)))"
  proof -
    have "mode_result w = Inr (Inl (message (nm @ '' task failed: '' @ show_error err)), False)"
      using w by (simp add: mode_result_def worker_message_def worker_from_result_def)
    from part_failed.Mode [OF this] show ?thesis by (simp add: show_error_def message_def)
  qed
  show ?thesis using exit no_part_failed [OF assms] reported worker by auto
qed

definition sample_results :: shutdown_results where
  "sample_results =
     \<lparr>sr_detach = Inr (), sr_reader = Joined (Inl (message ''ring'')), sr_aggregator = None, sr_container = Joined (Inr ()),
      sr_output = Joined (Inr ()), sr_stats = Panicked ''stats''\<rparr>"

theorem shutdown_reports_every_failure_witness:
  "\<exists>text. main_exit Terminated sample_results = Inl (message text) \<and> contains ''ring'' text"
proof -
  have mode: "mode_result Terminated = Inr (Inr (), False)" by (simp add: mode_result_def)
  have "part_failed Terminated sample_results (show_error (message ''ring''))"
    by (rule part_failed.Reader) (simp add: sample_results_def)
  then have "part_failed Terminated sample_results ''ring''" by (simp add: show_error_def message_def)
  with shutdown_reports_every_failure [OF mode, of sample_results "''ring''" "[]" "[]"] show ?thesis by blast
qed

text \<open>An output task that panics leaves \<open>main\<close> before the shutdown: none of its steps is taken.\<close>

lemma output_panic_skips_shutdown:
  "shutdown_steps (Output_Ended (Panicked p)) = [] \<and>
   main_exit (Output_Ended (Panicked p)) r = Inl (with_context ''output task panicked'' (message p))"
  by (simp add: shutdown_steps_def main_exit_def mode_result_def)

end
