(* ===== verification/Startup.thy ===== *)
theory Startup
  imports Tasks
begin

section \<open>Build checks, start-up and the terminal guard\<close>

text \<open>
  What must hold before the first event: the build script's check of a prebuilt eBPF object
  (\<open>ncda/build.rs\<close>), the part of \<open>main\<close> that loads the programs, takes the maps and attaches
  (\<open>ncda/src/main.rs\<close>, \<open>bpf.rs\<close>), and the guard that restores the terminal (\<open>tui/mod.rs\<close>). The ELF
  parser, the kernel's answers and the terminal's are inputs.
\<close>

subsection \<open>The command line\<close>

record cli =
  cl_rate_window :: u64
  cl_exclude :: "string list"
  cl_stdout :: bool
  cl_verbose :: bool

definition default_cli :: cli where
  "default_cli = \<lparr>cl_rate_window = 5, cl_exclude = [''/proc'', ''/sys'', ''/dev''], cl_stdout = False, cl_verbose = False\<rparr>"

definition initial_state :: "cli \<Rightarrow> app_state" where
  "initial_state c = new_app_state (unat (cl_rate_window c) * 1000000000) (cl_exclude c)"

subsection \<open>Objects\<close>

datatype program_kind = RawTracepoint | KProbe | OtherProgram

datatype map_kind = RingBufMap | PerCpuArrayMap | OtherMap

record ebpf_object =
  ob_btf :: bool
  ob_btf_ext :: bool
  ob_maps :: "string \<rightharpoonup> map_kind"
  ob_programs :: "string \<rightharpoonup> program_kind"

definition REQUIRED_EBPF_MAPS :: "string list" where
  "REQUIRED_EBPF_MAPS = [''EVENTS'', ''CAPTURE_STATS'']"

definition REQUIRED_EBPF_PROGRAMS :: "string list" where
  "REQUIRED_EBPF_PROGRAMS =
     [''sys_enter'', ''sys_exit'', ''sched_process_exec'', ''sched_process_exit_group'', ''sched_process_exit_legacy'',
      ''taskstats_process_exit'']"

text \<open>\<open>parsed\<close> is what \<open>aya_obj\<close> makes of the bytes.\<close>

definition validate_ebpf_object :: "any_error + ebpf_object \<Rightarrow> any_error + unit" where
  "validate_ebpf_object parsed =
     (case parsed of
        Inl e \<Rightarrow> Inl (with_context ''parsing ELF object'' e)
      | Inr ob \<Rightarrow>
          if \<not> ob_btf ob then Inl (message ''eBPF object has no BTF metadata'')
          else if \<not> ob_btf_ext ob then Inl (message ''eBPF object has no extended BTF metadata'')
          else (case List.find (\<lambda>nm. ob_maps ob nm = None) REQUIRED_EBPF_MAPS of
            Some nm \<Rightarrow> Inl (message (''eBPF map '' @ nm @ '' is missing''))
          | None \<Rightarrow>
              (case List.find (\<lambda>nm. ob_programs ob nm = None) REQUIRED_EBPF_PROGRAMS of
                 Some nm \<Rightarrow> Inl (message (''eBPF program '' @ nm @ '' is missing''))
               | None \<Rightarrow> Inr ())))"

subsection \<open>The build script\<close>

type_synonym environment_variables = "string \<rightharpoonup> string"

definition required_environment :: "environment_variables \<Rightarrow> string \<Rightarrow> any_error + string" where
  "required_environment env var =
     (case env var of
        Some v \<Rightarrow> if trim v \<noteq> [] then Inr v
                  else Inl (message (var @ '' must be set when NCDA_EBPF_OBJECT is used''))
      | None \<Rightarrow> Inl (message (var @ '' must be set when NCDA_EBPF_OBJECT is used'')))"

text \<open>The version a tool reports; \<open>output\<close> is its exit status and standard output when it ran.\<close>

definition tool_version :: "environment_variables \<Rightarrow> string \<Rightarrow> (bool \<times> string) option \<Rightarrow> string" where
  "tool_version env var output =
     (case (case env var of Some v \<Rightarrow> if trim v \<noteq> [] then Some v else None | None \<Rightarrow> None) of
        Some v \<Rightarrow> v
      | None \<Rightarrow>
          (case output of
             Some (success, stdout) \<Rightarrow> if success \<and> valid_utf8 stdout then trim stdout else ''unknown''
           | None \<Rightarrow> ''unknown''))"

text \<open>The prebuilt branch: the object bytes that are installed, read from the path in
  \<open>NCDA_EBPF_OBJECT\<close>; \<open>arch\<close> is \<open>CARGO_CFG_TARGET_ARCH\<close>, which cargo sets, and \<open>files\<close> the answers of
  the file system.\<close>

record files =
  fl_read :: "string \<Rightarrow> any_error + string"
  fl_write :: "string \<Rightarrow> string \<Rightarrow> any_error + unit"

definition joined_path :: "string \<Rightarrow> string \<Rightarrow> string" where
  "joined_path dir nm = (if dir = [] \<or> last dir = CHR ''/'' then dir @ nm else dir @ ''/'' @ nm)"

definition install_prebuilt ::
    "environment_variables \<Rightarrow> string \<Rightarrow> string \<Rightarrow> files \<Rightarrow> (string \<Rightarrow> any_error + ebpf_object) \<Rightarrow> any_error + string" where
  "install_prebuilt env arch source files parse =
     (if source = [] then Inl (message ''NCDA_EBPF_OBJECT must not be empty'')
      else case required_environment env ''NCDA_EBPF_TARGET_ARCH'' of
        Inl e \<Rightarrow> Inl e
      | Inr ebpf_arch \<Rightarrow>
          if ebpf_arch \<noteq> arch
          then Inl (message (''prebuilt eBPF architecture '' @ ebpf_arch @ '' does not match userspace architecture '' @ arch))
          else case required_environment env ''NCDA_EBPF_TOOLCHAIN'' of
            Inl e \<Rightarrow> Inl e
          | Inr _ \<Rightarrow>
              case required_environment env ''NCDA_BPF_LINKER_VERSION'' of
                Inl e \<Rightarrow> Inl e
              | Inr _ \<Rightarrow>
                  case fl_read files source of
                    Inl e \<Rightarrow> Inl (with_context (''reading prebuilt eBPF object from '' @ source) e)
                  | Inr bytes \<Rightarrow>
                      case validate_ebpf_object (parse bytes) of
                        Inl e \<Rightarrow> Inl (with_context (''validating prebuilt eBPF object from '' @ source) e)
                      | Inr _ \<Rightarrow>
                          case env ''OUT_DIR'' of
                            None \<Rightarrow> Inl (message ''OUT_DIR is not set'')
                          | Some dir \<Rightarrow>
                              let destination = joined_path dir ''ncda''
                              in (case fl_write files destination bytes of
                                    Inl e \<Rightarrow> Inl (with_context (''writing prebuilt eBPF object from '' @ source @ '' to '' @ destination) e)
                                  | Inr _ \<Rightarrow> Inr bytes))"

subsection \<open>Start-up\<close>

text \<open>What the kernel answers to loading a program and to attaching it.\<close>

record kernel_answers =
  ka_load :: "string \<Rightarrow> any_error + unit"
  ka_attach :: "string \<Rightarrow> string \<Rightarrow> any_error + unit"

text \<open>\<open>raw_program_mut\<close> and \<open>kprobe_program_mut\<close>; the text of a failed conversion is aya's.\<close>

definition program_of_kind :: "any_error \<Rightarrow> program_kind \<Rightarrow> ebpf_object \<Rightarrow> string \<Rightarrow> any_error + unit" where
  "program_of_kind unexpected kind ob nm =
     (case ob_programs ob nm of
        None \<Rightarrow> Inl (message (''program '' @ nm @ '' not found''))
      | Some k \<Rightarrow> if k = kind then Inr () else Inl (with_context (''program '' @ nm @ '' has unexpected type'') unexpected))"

definition attempt :: "string \<Rightarrow> any_error + 'a \<Rightarrow> any_error + 'a" where
  "attempt context_text r = (case r of Inl e \<Rightarrow> Inl (with_context context_text e) | Inr x \<Rightarrow> Inr x)"

text \<open>The programs to load in order, each with its kind and the context of its failure.\<close>

definition load_plan :: "exit_hook \<Rightarrow> (program_kind \<times> string \<times> string) list" where
  "load_plan hook =
     map (\<lambda>(nm, _). (RawTracepoint, nm, ''load program '' @ nm)) BASE_RAW_PROGRAMS
     @ (case hook of
          TracepointHook \<Rightarrow> [(RawTracepoint, ''sched_process_exit_group'', ''load group-dead process exit tracepoint'')]
        | TaskstatsKprobe \<Rightarrow>
            [(RawTracepoint, ''sched_process_exit_legacy'', ''load legacy process exit tracepoint''),
             (KProbe, TASKSTATS_EXIT, ''load taskstats process exit kprobe'')])"

fun load_in_order ::
    "any_error \<Rightarrow> kernel_answers \<Rightarrow> ebpf_object \<Rightarrow> (program_kind \<times> string \<times> string) list \<Rightarrow> any_error + unit" where
  "load_in_order unexpected k ob [] = Inr ()"
| "load_in_order unexpected k ob ((kind, nm, failure) # plan) =
     (case program_of_kind unexpected kind ob nm of
        Inl e \<Rightarrow> Inl e
      | Inr _ \<Rightarrow>
          (case attempt failure (ka_load k nm) of
             Inl e \<Rightarrow> Inl e
           | Inr _ \<Rightarrow> load_in_order unexpected k ob plan))"

text \<open>Attaching one program, and all of them: the links made until the first failure.\<close>

fun attach_one :: "any_error \<Rightarrow> kernel_answers \<Rightarrow> ebpf_object \<Rightarrow> attached_link \<times> string \<Rightarrow> any_error + unit" where
  "attach_one unexpected k ob (RawLink nm, target) =
     (case program_of_kind unexpected RawTracepoint ob nm of
        Inl e \<Rightarrow> Inl e
      | Inr _ \<Rightarrow> attempt (''attach program '' @ nm @ '' to raw tracepoint '' @ target) (ka_attach k nm target))"
| "attach_one unexpected k ob (KProbeLink nm, target) =
     (case program_of_kind unexpected KProbe ob nm of
        Inl e \<Rightarrow> Inl e
      | Inr _ \<Rightarrow> attempt ''attach taskstats_exit process-lifecycle fallback; this kernel needs CONFIG_TASKSTATS'' (ka_attach k nm target))"

fun attach_in_order ::
    "any_error \<Rightarrow> kernel_answers \<Rightarrow> ebpf_object \<Rightarrow> attached_link list \<Rightarrow> (attached_link \<times> string) list \<Rightarrow> any_error + attached_link list" where
  "attach_in_order unexpected k ob links [] = Inr links"
| "attach_in_order unexpected k ob links (a # as) =
     (case attach_one unexpected k ob a of
        Inl e \<Rightarrow> Inl e
      | Inr _ \<Rightarrow> attach_in_order unexpected k ob (links @ [fst a]) as)"

definition attach_plan :: "exit_hook \<Rightarrow> (attached_link \<times> string) list" where
  "attach_plan hook =
     [(RawLink ''sys_exit'', ''sys_exit'')] @ exit_attachments hook
     @ [(RawLink ''sched_process_exec'', ''sched_process_exec''), (RawLink ''sys_enter'', ''sys_enter'')]"

definition take_map :: "any_error \<Rightarrow> map_kind \<Rightarrow> ebpf_object \<Rightarrow> string \<Rightarrow> string option \<Rightarrow> any_error + unit" where
  "take_map unexpected kind ob nm conversion =
     (case ob_maps ob nm of
        None \<Rightarrow> Inl (message (nm @ '' map not found''))
      | Some k \<Rightarrow>
          if k = kind then Inr ()
          else Inl (case conversion of None \<Rightarrow> unexpected | Some t \<Rightarrow> with_context t unexpected))"

text \<open>From the loaded object to the attached programs.\<close>

definition start_up :: "host \<Rightarrow> any_error \<Rightarrow> kernel_answers \<Rightarrow> ebpf_object \<Rightarrow> exit_hook \<Rightarrow> any_error + attached_link list" where
  "start_up h unexpected k ob hook =
     (case load_in_order unexpected k ob (load_plan hook) of
        Inl e \<Rightarrow> Inl (add_ebpf_permission_hint h e)
      | Inr _ \<Rightarrow>
          (case take_map unexpected RingBufMap ob ''EVENTS'' None of
             Inl e \<Rightarrow> Inl e
           | Inr _ \<Rightarrow>
               (case take_map unexpected PerCpuArrayMap ob ''CAPTURE_STATS'' (Some ''CAPTURE_STATS has unexpected map type'') of
                  Inl e \<Rightarrow> Inl e
                | Inr _ \<Rightarrow>
                    (case attach_in_order unexpected k ob [] (attach_plan hook) of
                       Inl e \<Rightarrow> Inl (add_ebpf_permission_hint h e)
                     | Inr links \<Rightarrow> Inr links))))"

subsection \<open>The terminal guard\<close>

record terminal_modes =
  tm_raw :: bool
  tm_alternate :: bool
  tm_cursor_hidden :: bool

text \<open>Which of the terminal's calls succeed; those of the restoration are made whatever they return.\<close>

record terminal_answers =
  ta_enable_raw :: "any_error option"
  ta_enter_alternate :: "any_error option"
  ta_disable_raw :: bool
  ta_leave_alternate :: bool

definition disable_raw :: "terminal_answers \<Rightarrow> terminal_modes \<Rightarrow> terminal_modes" where
  "disable_raw a m = (if ta_disable_raw a then m\<lparr>tm_raw := False\<rparr> else m)"

definition restore_terminal :: "terminal_answers \<Rightarrow> terminal_modes \<Rightarrow> terminal_modes" where
  "restore_terminal a m =
     (let m = disable_raw a m
      in if ta_leave_alternate a then m\<lparr>tm_alternate := False, tm_cursor_hidden := False\<rparr> else m)"

definition guard_enter :: "terminal_answers \<Rightarrow> terminal_modes \<Rightarrow> (any_error + unit) \<times> terminal_modes" where
  "guard_enter a m =
     (case ta_enable_raw a of
        Some e \<Rightarrow> (Inl e, m)
      | None \<Rightarrow>
          let m = m\<lparr>tm_raw := True\<rparr>
          in (case ta_enter_alternate a of
                Some e \<Rightarrow> (Inl e, disable_raw a m)
              | None \<Rightarrow> (Inr (), m\<lparr>tm_alternate := True\<rparr>)))"

text \<open>The guard around the render loop: dropping it restores the terminal whether the loop returns,
  fails or unwinds.\<close>

definition guarded :: "terminal_answers \<Rightarrow> (terminal_modes \<Rightarrow> unit joined \<times> terminal_modes) \<Rightarrow> terminal_modes \<Rightarrow> unit joined \<times> terminal_modes" where
  "guarded a body m =
     (case guard_enter a m of
        (Inl e, m) \<Rightarrow> (Joined (Inl e), m)
      | (Inr _, m) \<Rightarrow> (case body m of (result, m) \<Rightarrow> (result, restore_terminal a m)))"

lemma terminal_restored:
  assumes "ta_disable_raw a" and "ta_leave_alternate a"
    and "m = \<lparr>tm_raw = False, tm_alternate = False, tm_cursor_hidden = False\<rparr>"
  shows "snd (guarded a body m) = m"
proof (cases "ta_enable_raw a"; cases "ta_enter_alternate a")
  assume "ta_enable_raw a = None" "ta_enter_alternate a = None"
  then show ?thesis
    using assms by (simp add: guarded_def guard_enter_def restore_terminal_def disable_raw_def Let_def split: prod.split)
qed (use assms in \<open>simp_all add: guarded_def guard_enter_def disable_raw_def Let_def\<close>)

subsection \<open>A validated object starts\<close>

text \<open>The kinds the eBPF sources give their programs and maps, which the build script does not check.\<close>

definition kind_of_program :: "string \<Rightarrow> program_kind" where
  "kind_of_program nm = (if nm = TASKSTATS_EXIT then KProbe else RawTracepoint)"

definition built_kinds :: "ebpf_object \<Rightarrow> bool" where
  "built_kinds ob \<longleftrightarrow>
     list_all (\<lambda>nm. ob_programs ob nm \<in> {None, Some (kind_of_program nm)}) REQUIRED_EBPF_PROGRAMS \<and>
     ob_maps ob ''EVENTS'' \<in> {None, Some RingBufMap} \<and> ob_maps ob ''CAPTURE_STATS'' \<in> {None, Some PerCpuArrayMap}"

fun link_program :: "attached_link \<Rightarrow> string" where
  "link_program (RawLink nm) = nm"
| "link_program (KProbeLink nm) = nm"

text \<open>What the kernel refused of the plans of a hook.\<close>

definition refused :: "kernel_answers \<Rightarrow> exit_hook \<Rightarrow> any_error \<Rightarrow> bool" where
  "refused k hook e \<longleftrightarrow>
     (\<exists>(kind, nm, failure) \<in> set (load_plan hook). ka_load k nm = Inl e) \<or>
     (\<exists>(l, target) \<in> set (attach_plan hook). ka_attach k (link_program l) target = Inl e)"

lemma refused_load: "(kind, nm, failure) \<in> set (load_plan hook) \<Longrightarrow> ka_load k nm = Inl e \<Longrightarrow> refused k hook e"
  by (auto simp: refused_def)

lemma refused_attach: "(l, target) \<in> set (attach_plan hook) \<Longrightarrow> ka_attach k (link_program l) target = Inl e \<Longrightarrow> refused k hook e"
  by (auto simp: refused_def)

lemma find_none: "List.find P xs = None \<longleftrightarrow> list_all (\<lambda>x. \<not> P x) xs"
  by (auto simp: find_None_iff list_all_iff)

lemma validated_contents:
  assumes "validate_ebpf_object (Inr ob) = Inr ()" and "built_kinds ob"
  shows "list_all (\<lambda>nm. ob_programs ob nm = Some (kind_of_program nm)) REQUIRED_EBPF_PROGRAMS"
    and "ob_maps ob ''EVENTS'' = Some RingBufMap" and "ob_maps ob ''CAPTURE_STATS'' = Some PerCpuArrayMap"
proof -
  have present: "list_all (\<lambda>nm. ob_programs ob nm \<noteq> None) REQUIRED_EBPF_PROGRAMS"
    "list_all (\<lambda>nm. ob_maps ob nm \<noteq> None) REQUIRED_EBPF_MAPS"
    using assms(1) by (simp_all add: validate_ebpf_object_def find_none split: if_splits option.splits)
  then show "list_all (\<lambda>nm. ob_programs ob nm = Some (kind_of_program nm)) REQUIRED_EBPF_PROGRAMS"
    using assms(2) unfolding built_kinds_def list_all_iff by blast
  from present(2) assms(2) show "ob_maps ob ''EVENTS'' = Some RingBufMap" "ob_maps ob ''CAPTURE_STATS'' = Some PerCpuArrayMap"
    by (auto simp: built_kinds_def REQUIRED_EBPF_MAPS_def)
qed

lemma plans_required:
  "(kind, nm, failure) \<in> set (load_plan hook) \<Longrightarrow> nm \<in> set REQUIRED_EBPF_PROGRAMS \<and> kind = kind_of_program nm"
  "(l, target) \<in> set (attach_plan hook) \<Longrightarrow> link_program l \<in> set REQUIRED_EBPF_PROGRAMS \<and>
     l = (if kind_of_program (link_program l) = KProbe then KProbeLink (link_program l) else RawLink (link_program l))"
  by (cases hook; auto simp: load_plan_def attach_plan_def exit_attachments_def BASE_RAW_PROGRAMS_def
      REQUIRED_EBPF_PROGRAMS_def kind_of_program_def TASKSTATS_EXIT_def)+

lemma load_in_order_refused:
  assumes "\<forall>(kind, nm, failure) \<in> set plan. program_of_kind u kind ob nm = Inr ()"
  shows "case load_in_order u k ob plan of
      Inl e \<Rightarrow> \<exists>kind nm failure e0. (kind, nm, failure) \<in> set plan \<and> ka_load k nm = Inl e0 \<and> e = with_context failure e0
    | Inr _ \<Rightarrow> \<forall>(kind, nm, failure) \<in> set plan. ka_load k nm = Inr ()"
  using assms
proof (induction plan)
  case (Cons p plan)
  obtain kind nm failure where p: "p = (kind, nm, failure)" by (cases p)
  show ?case
  proof (cases "ka_load k nm")
    case (Inl e0)
    with p Cons.prems show ?thesis by (auto simp: attempt_def)
  next
    case (Inr x)
    with p Cons show ?thesis by (auto simp: attempt_def split: sum.splits)
  qed
qed simp

lemma attach_in_order_refused:
  assumes "\<forall>(l, target) \<in> set plan.
      attach_one u k ob (l, target) = attempt (ctx l target) (ka_attach k (link_program l) target)"
  shows "case attach_in_order u k ob links plan of
      Inl e \<Rightarrow> \<exists>l target e0. (l, target) \<in> set plan \<and> ka_attach k (link_program l) target = Inl e0 \<and> e = with_context (ctx l target) e0
    | Inr links' \<Rightarrow> links' = links @ map fst plan \<and> (\<forall>(l, target) \<in> set plan. ka_attach k (link_program l) target = Inr ())"
  using assms
proof (induction plan arbitrary: links)
  case (Cons a plan)
  obtain l target where a: "a = (l, target)" by (cases a)
  with Cons.prems have one: "attach_one u k ob a = attempt (ctx l target) (ka_attach k (link_program l) target)" by simp
  show ?case
  proof (cases "ka_attach k (link_program l) target")
    case (Inl e0)
    with a one show ?thesis by (auto simp: attempt_def)
  next
    case (Inr x)
    with a one have "attach_in_order u k ob links (a # plan) = attach_in_order u k ob (links @ [l]) plan"
      by (simp add: attempt_def)
    moreover have "\<forall>(l, target) \<in> set plan. attach_one u k ob (l, target) = attempt (ctx l target) (ka_attach k (link_program l) target)"
      using Cons.prems by simp
    from Cons.IH [OF this, of "links @ [l]"]
    show ?thesis using a Inr calculation by (auto split: sum.splits)
  qed
qed simp

lemma attach_one_present:
  assumes "list_all (\<lambda>nm. ob_programs ob nm = Some (kind_of_program nm)) REQUIRED_EBPF_PROGRAMS"
    and "(l, target) \<in> set (attach_plan hook)"
  shows "\<exists>failure. attach_one u k ob (l, target) = attempt failure (ka_attach k (link_program l) target)"
proof -
  have nm: "ob_programs ob (link_program l) = Some (kind_of_program (link_program l))"
    using assms plans_required(2) by (auto simp: list_all_iff)
  have kind: "l = (if kind_of_program (link_program l) = KProbe then KProbeLink (link_program l) else RawLink (link_program l))"
    using plans_required(2) [OF assms(2)] by blast
  show ?thesis
  proof (cases l)
    case (RawLink p)
    with nm kind have "ob_programs ob p = Some RawTracepoint" by (auto simp: kind_of_program_def split: if_splits)
    with RawLink show ?thesis by (auto simp: program_of_kind_def)
  next
    case (KProbeLink p)
    with nm kind have "ob_programs ob p = Some KProbe" by (auto split: if_splits)
    with KProbeLink show ?thesis by (auto simp: program_of_kind_def)
  qed
qed

lemma hinted_cause: "\<exists>hints. add_ebpf_permission_hint h (with_context failure e0) = hints @ e0"
  unfolding add_ebpf_permission_hint_def with_context_def by (auto intro: exI [of _ "[_]"] exI [of _ "[_, _]"])

text \<open>A validated object finds everything the start asks of it.\<close>

lemma validated_start:
  assumes "install_prebuilt env arch source files parse = Inr bytes"
    and "parse bytes = Inr ob" and "built_kinds ob"
  shows "case start_up h unexpected k ob hook of
      Inr links \<Rightarrow> links = map fst (attach_plan hook) \<and> (\<forall>e. \<not> refused k hook e)
    | Inl e \<Rightarrow> \<exists>hints e0. e = hints @ e0 \<and> refused k hook e0"
proof -
  have valid: "validate_ebpf_object (Inr ob) = Inr ()"
    using assms(1,2) by (auto simp: install_prebuilt_def Let_def split: if_splits sum.splits option.splits)
  note contents = validated_contents [OF valid assms(3)]
  have lookups: "\<forall>(kind, nm, failure) \<in> set (load_plan hook). program_of_kind unexpected kind ob nm = Inr ()"
    using contents(1) plans_required(1) by (fastforce simp: list_all_iff program_of_kind_def)
  define ctx where "ctx = (\<lambda>l target. SOME failure. attach_one unexpected k ob (l, target) = attempt failure (ka_attach k (link_program l) target))"
  have attach: "\<forall>(l, target) \<in> set (attach_plan hook).
      attach_one unexpected k ob (l, target) = attempt (ctx l target) (ka_attach k (link_program l) target)"
    using attach_one_present [OF contents(1)] unfolding ctx_def by (auto intro: someI_ex)
  note loaded = load_in_order_refused [OF lookups, of k]
  note attached = attach_in_order_refused [OF attach, of "[]"]
  show ?thesis
  proof (cases "load_in_order unexpected k ob (load_plan hook)")
    case (Inl e)
    with loaded obtain kind nm failure e0 where
      "(kind, nm, failure) \<in> set (load_plan hook)" "ka_load k nm = Inl e0" and e: "e = with_context failure e0"
      by auto
    then have "refused k hook e0" by (intro refused_load)
    moreover obtain hints where "add_ebpf_permission_hint h e = hints @ e0" using hinted_cause e by blast
    ultimately show ?thesis using Inl by (simp add: start_up_def) blast
  next
    case ok: (Inr x)
    show ?thesis
    proof (cases "attach_in_order unexpected k ob [] (attach_plan hook)")
      case (Inl e)
      with attached obtain l target failure e0 where
        "(l, target) \<in> set (attach_plan hook)" "ka_attach k (link_program l) target = Inl e0" and e: "e = with_context failure e0"
        by auto
      then have "refused k hook e0" by (intro refused_attach)
      moreover obtain hints where "add_ebpf_permission_hint h e = hints @ e0" using hinted_cause e by blast
      ultimately show ?thesis using Inl ok contents by (simp add: start_up_def take_map_def) blast
    next
      case (Inr links)
      with ok loaded attached have "\<forall>e. \<not> refused k hook e" by (auto simp: refused_def)
      then show ?thesis using Inr ok contents attached by (simp add: start_up_def take_map_def)
    qed
  qed
qed


definition sample_object :: ebpf_object where
  "sample_object =
     \<lparr>ob_btf = True, ob_btf_ext = True, ob_maps = [''EVENTS'' \<mapsto> RingBufMap, ''CAPTURE_STATS'' \<mapsto> PerCpuArrayMap],
      ob_programs = (\<lambda>nm. if nm \<in> set REQUIRED_EBPF_PROGRAMS then Some (kind_of_program nm) else None)\<rparr>"

definition sample_variables :: environment_variables where
  "sample_variables =
     [''NCDA_EBPF_TARGET_ARCH'' \<mapsto> ''x86_64'', ''NCDA_EBPF_TOOLCHAIN'' \<mapsto> ''nightly'', ''NCDA_BPF_LINKER_VERSION'' \<mapsto> ''0.11'',
      ''OUT_DIR'' \<mapsto> ''/out'']"

lemma sample_validated: "validate_ebpf_object (Inr sample_object) = Inr ()" and sample_kinds: "built_kinds sample_object"
  by (auto simp: validate_ebpf_object_def sample_object_def find_none built_kinds_def list_all_iff REQUIRED_EBPF_MAPS_def
      split: option.splits)

lemma sample_installed:
  "install_prebuilt sample_variables ''x86_64'' ''ncda.o'' \<lparr>fl_read = \<lambda>_. Inr ''bytes'', fl_write = \<lambda>_ _. Inr ()\<rparr> (\<lambda>_. Inr sample_object) = Inr ''bytes''"
proof -
  have "trim ''x86_64'' = ''x86_64''" "trim ''nightly'' = ''nightly''" "trim ''0.11'' = ''0.11''"
    by (simp_all add: trim_plain plain_byte_def)
  then show ?thesis
    by (simp add: install_prebuilt_def required_environment_def sample_variables_def sample_validated)
qed


text \<open>The plans are those of the loading and attaching above: forgetting the texts of the errors gives
  them back.\<close>

lemma start_up_loads:
  assumes "\<forall>nm. ok nm \<longleftrightarrow> program_of_kind u (kind_of_program nm) ob nm = Inr () \<and> ka_load k nm = Inr ()"
  shows "snd (load_programs ok hook) = Some hook \<longleftrightarrow> load_in_order u k ob (load_plan hook) = Inr ()"
proof -
  have "snd (load_each ok loaded (map (fst \<circ> snd) plan)) \<longleftrightarrow> load_in_order u k ob plan = Inr ()"
    if "\<forall>(kind, nm, failure) \<in> set plan. kind = kind_of_program nm" for plan loaded
    using that
  proof (induction plan arbitrary: loaded)
    case (Cons p plan)
    obtain kind nm failure where p: "p = (kind, nm, failure)" by (cases p)
    show ?case
    proof (cases "ok nm")
      case True
      with assms Cons p show ?thesis by (auto simp: attempt_def)
    next
      case False
      with assms Cons.prems p show ?thesis by (auto simp: attempt_def split: sum.split)
    qed
  qed simp
  moreover have "\<forall>(kind, nm, failure) \<in> set (load_plan hook). kind = kind_of_program nm"
    using plans_required(1) by blast
  ultimately have "snd (load_each ok [] (map (fst \<circ> snd) (load_plan hook))) \<longleftrightarrow> load_in_order u k ob (load_plan hook) = Inr ()"
    by blast
  moreover have names: "map fst BASE_RAW_PROGRAMS
      @ (case hook of TracepointHook \<Rightarrow> [''sched_process_exit_group'']
         | TaskstatsKprobe \<Rightarrow> [''sched_process_exit_legacy'', TASKSTATS_EXIT]) = map (fst \<circ> snd) (load_plan hook)"
    by (cases hook) (simp_all add: load_plan_def BASE_RAW_PROGRAMS_def)
  ultimately show ?thesis unfolding load_programs_def names by (auto simp: case_prod_unfold)
qed

end
