(* ===== verification/Bench.thy ===== *)
theory Bench
  imports Reader Format
begin

section \<open>The benchmark (ncda/src/bin/ncda-bench.rs)\<close>

text \<open>
  \<open>ncda-bench\<close> runs a workload of known size beside the capture pipeline and reports how much of it
  was observed: the workload threads, the collector that takes the reader's batches, the deltas of
  the loss counters, the percentiles and the report. The clock, the outcomes of the file operations
  and the host's description are inputs; serialising the report as JSON is left to serde.
\<close>

subsection \<open>The workload\<close>

datatype work_mode = ReadMode | WriteMode | MixedMode

record workload_counters =
  wc_read_ops :: u64
  wc_write_ops :: u64
  wc_read_bytes :: u64
  wc_write_bytes :: u64

definition no_work :: workload_counters where
  "no_work = \<lparr>wc_read_ops = 0, wc_write_ops = 0, wc_read_bytes = 0, wc_write_bytes = 0\<rparr>"

definition add_work :: "workload_counters \<Rightarrow> workload_counters \<Rightarrow> workload_counters" where
  "add_work t other =
     \<lparr>wc_read_ops = wc_read_ops t + wc_read_ops other, wc_write_ops = wc_write_ops t + wc_write_ops other,
      wc_read_bytes = wc_read_bytes t + wc_read_bytes other, wc_write_bytes = wc_write_bytes t + wc_write_bytes other\<rparr>"

text \<open>
  One thread: its passes before the deadline, each with the outcome of its read and of its write;
  the first error ends the thread.
\<close>

type_synonym io_result = "string option"

definition read_pass :: "work_mode \<Rightarrow> nat \<Rightarrow> io_result \<Rightarrow> workload_counters \<Rightarrow> string + workload_counters" where
  "read_pass mode block_size r c =
     (if mode = ReadMode \<or> mode = MixedMode
      then (case r of
              Some error \<Rightarrow> Inl error
            | None \<Rightarrow> Inr (c\<lparr>wc_read_ops := wc_read_ops c + 1, wc_read_bytes := wc_read_bytes c + of_nat block_size\<rparr>))
      else Inr c)"

definition write_pass :: "work_mode \<Rightarrow> nat \<Rightarrow> io_result \<Rightarrow> workload_counters \<Rightarrow> string + workload_counters" where
  "write_pass mode block_size r c =
     (if mode = WriteMode \<or> mode = MixedMode
      then (case r of
              Some error \<Rightarrow> Inl error
            | None \<Rightarrow> Inr (c\<lparr>wc_write_ops := wc_write_ops c + 1, wc_write_bytes := wc_write_bytes c + of_nat block_size\<rparr>))
      else Inr c)"

fun worker_loop :: "work_mode \<Rightarrow> nat \<Rightarrow> (io_result \<times> io_result) list \<Rightarrow> workload_counters \<Rightarrow> string + workload_counters" where
  "worker_loop mode block_size [] c = Inr c"
| "worker_loop mode block_size ((r, w) # passes) c =
     (case read_pass mode block_size r c of
        Inl error \<Rightarrow> Inl error
      | Inr c \<Rightarrow>
          (case write_pass mode block_size w c of
             Inl error \<Rightarrow> Inl error
           | Inr c \<Rightarrow> worker_loop mode block_size passes c))"

text \<open>A thread opens its file first; \<open>None\<close> is a thread that panicked.\<close>

type_synonym work_thread = "(io_result \<times> (io_result \<times> io_result) list) option"

definition worker_thread :: "work_mode \<Rightarrow> nat \<Rightarrow> work_thread \<Rightarrow> (string + workload_counters) option" where
  "worker_thread mode block_size =
     map_option (\<lambda>(opened, passes).
       case opened of Some error \<Rightarrow> Inl error | None \<Rightarrow> worker_loop mode block_size passes no_work)"

text \<open>The joins, in order.\<close>

fun join_workers :: "(string + workload_counters) option list \<Rightarrow> workload_counters \<Rightarrow> string + workload_counters" where
  "join_workers [] tot = Inr tot"
| "join_workers (None # hs) tot = Inl ''workload thread panicked''"
| "join_workers (Some (Inl error) # hs) tot = Inl error"
| "join_workers (Some (Inr c) # hs) tot = join_workers hs (add_work tot c)"

definition run_workload :: "work_mode \<Rightarrow> nat \<Rightarrow> work_thread list \<Rightarrow> string + workload_counters" where
  "run_workload mode block_size threads = join_workers (map (worker_thread mode block_size) threads) no_work"

subsection \<open>The collector\<close>

definition MAX_LATENCY_SAMPLES :: nat where
  "MAX_LATENCY_SAMPLES = 1000000"

record observed_metrics =
  om_read_ops :: u64
  om_write_ops :: u64
  om_read_bytes :: u64
  om_write_bytes :: u64
  om_delivery :: "u64 list"
  om_syscall :: "u64 list"

definition no_metrics :: observed_metrics where
  "no_metrics = \<lparr>om_read_ops = 0, om_write_ops = 0, om_read_bytes = 0, om_write_bytes = 0, om_delivery = [], om_syscall = []\<rparr>"

text \<open>A batch with the time it was received and the measurement interval as it was then.\<close>

record received_batch =
  rc_received :: u64
  rc_start :: u64
  rc_end :: u64
  rc_events :: "bpf_event list"

definition observe ::
    "u32 \<Rightarrow> u64 \<Rightarrow> u64 \<Rightarrow> u64 \<Rightarrow> (u32 \<times> u64 \<times> i64 \<times> u64 \<times> u64 \<times> bool) \<Rightarrow> observed_metrics \<Rightarrow> observed_metrics" where
  "observe benchmark_pid received start_ns end_ns ev m =
     (case ev of (pid, bytes, result, latency, emitted, is_read) \<Rightarrow>
        if pid \<noteq> benchmark_pid \<or> sint result \<le> 0 \<or> emitted < start_ns \<or> emitted > end_ns then m
        else
          let m = (if is_read
                   then m\<lparr>om_read_ops := om_read_ops m + 1, om_read_bytes := om_read_bytes m + bytes\<rparr>
                   else m\<lparr>om_write_ops := om_write_ops m + 1, om_write_bytes := om_write_bytes m + bytes\<rparr>)
          in if length (om_delivery m) < MAX_LATENCY_SAMPLES
             then m\<lparr>om_delivery := om_delivery m @ [sat_sub received emitted], om_syscall := om_syscall m @ [latency]\<rparr>
             else m)"

fun collect_event :: "u32 \<Rightarrow> u64 \<Rightarrow> u64 \<Rightarrow> u64 \<Rightarrow> bpf_event \<Rightarrow> observed_metrics \<Rightarrow> observed_metrics" where
  "collect_event bpid received s e (ReadEv pid tid fd bytes result latency emitted) m =
     observe bpid received s e (pid, bytes, result, latency, emitted, True) m"
| "collect_event bpid received s e (WriteEv pid tid fd bytes result latency emitted) m =
     observe bpid received s e (pid, bytes, result, latency, emitted, False) m"
| "collect_event bpid received s e _ m = m"

fun collect_metrics :: "u32 \<Rightarrow> received_batch list \<Rightarrow> observed_metrics \<Rightarrow> observed_metrics" where
  "collect_metrics bpid [] m = m"
| "collect_metrics bpid (b # bs) m =
     collect_metrics bpid bs (fold (collect_event bpid (rc_received b) (rc_start b) (rc_end b)) (rc_events b) m)"

subsection \<open>Percentiles\<close>

record latency_summary =
  lr_samples :: nat
  lr_p50 :: u64
  lr_p95 :: u64
  lr_p99 :: u64
  lr_max :: u64

text \<open>None where the index is out of range, which panics.\<close>

definition percentile :: "u64 list \<Rightarrow> nat \<Rightarrow> u64 option" where
  "percentile sorted_samples p =
     (if sorted_samples = [] then None
      else let index = (length sorted_samples - 1) * p div 100
           in if index < length sorted_samples then Some (sorted_samples ! index) else None)"

definition latency_report :: "u64 list \<Rightarrow> latency_summary option" where
  "latency_report samples =
     (if samples = [] then Some \<lparr>lr_samples = 0, lr_p50 = 0, lr_p95 = 0, lr_p99 = 0, lr_max = 0\<rparr>
      else let samples = sort samples
           in do { p50 \<leftarrow> percentile samples 50; p95 \<leftarrow> percentile samples 95; p99 \<leftarrow> percentile samples 99;
                   Some \<lparr>lr_samples = length samples, lr_p50 = p50, lr_p95 = p95, lr_p99 = p99, lr_max = last samples\<rparr> })"

subsection \<open>Deltas and the report\<close>

definition recall_ratio :: "u64 \<Rightarrow> u64 \<Rightarrow> rat" where
  "recall_ratio observed expected = (if expected = 0 then 0 else f64 (f64_of_u64 observed / f64_of_u64 expected))"

definition subtract_capture_stats :: "capture_stats \<Rightarrow> capture_stats \<Rightarrow> capture_stats" where
  "subtract_capture_stats e s =
     \<lparr>ring_output_drops = sat_sub (ring_output_drops e) (ring_output_drops s),
      stash_update_failures = sat_sub (stash_update_failures e) (stash_update_failures s),
      scratch_failures = sat_sub (scratch_failures e) (scratch_failures s),
      read_entries = sat_sub (read_entries e) (read_entries s),
      write_entries = sat_sub (write_entries e) (write_entries s),
      read_exits = sat_sub (read_exits e) (read_exits s),
      write_exits = sat_sub (write_exits e) (write_exits s),
      compat_syscalls_ignored = sat_sub (compat_syscalls_ignored e) (compat_syscalls_ignored s)\<rparr>"

definition subtract_drop_snapshot :: "reader_drops \<Rightarrow> reader_drops \<Rightarrow> reader_drops" where
  "subtract_drop_snapshot e s =
     \<lparr>parse_drops = sat_sub (parse_drops e) (parse_drops s), queue_drops = sat_sub (queue_drops e) (queue_drops s),
      shutdown_discarded = sat_sub (shutdown_discarded e) (shutdown_discarded s)\<rparr>"

text \<open>\<open>clock_gettime\<close> in nanoseconds; the product and the sum wrap.\<close>

definition monotonic_ns :: "i64 \<Rightarrow> i64 \<Rightarrow> u64" where
  "monotonic_ns tv_sec tv_nsec = ucast tv_sec * 1000000000 + ucast tv_nsec"

record bench_config =
  bc_duration_seconds :: u64
  bc_warmup_seconds :: u64
  bc_threads :: nat
  bc_mode :: work_mode
  bc_block_size :: nat
  bc_drain_ms :: u64

definition config_ok :: "bench_config \<Rightarrow> bool" where
  "config_ok c \<longleftrightarrow> \<not> (bc_duration_seconds c = 0 \<or> bc_threads c = 0 \<or> bc_block_size c = 0)"

record operation_report =
  or_read_ops :: u64
  or_write_ops :: u64
  or_read_bytes :: u64
  or_write_bytes :: u64

definition report_of_work :: "workload_counters \<Rightarrow> operation_report" where
  "report_of_work c = \<lparr>or_read_ops = wc_read_ops c, or_write_ops = wc_write_ops c, or_read_bytes = wc_read_bytes c, or_write_bytes = wc_write_bytes c\<rparr>"

definition report_of_metrics :: "observed_metrics \<Rightarrow> operation_report" where
  "report_of_metrics m = \<lparr>or_read_ops = om_read_ops m, or_write_ops = om_write_ops m, or_read_bytes = om_read_bytes m, or_write_bytes = om_write_bytes m\<rparr>"

text \<open>\<open>os_release\<close>, on the contents of \<open>/etc/os-release\<close> when it can be read.\<close>

definition trim_quotes :: "string \<Rightarrow> string" where
  "trim_quotes s = rev (dropWhile (\<lambda>c. c = CHR 0x22) (rev (dropWhile (\<lambda>c. c = CHR 0x22) s)))"

definition os_release :: "string option \<Rightarrow> string" where
  "os_release contents =
     (case (case contents of
              None \<Rightarrow> None
            | Some c \<Rightarrow> find_map (\<lambda>line. map_option trim_quotes (strip_prefix ''PRETTY_NAME='' line)) (text_lines c)) of
        Some nm \<Rightarrow> nm
      | None \<Rightarrow> ''unknown'')"

text \<open>What the program was built with, and what the host tells it.\<close>

record build_constants =
  bd_version :: string
  bd_architecture :: string
  bd_target :: string
  bd_rustc :: string
  bd_ebpf_toolchain :: string
  bd_linker :: string

record bench_host =
  bh_osrelease :: "string option"
  bh_os_release :: "string option"
  bh_parallelism :: "nat option"

record environment =
  en_build :: build_constants
  en_kernel_release :: string
  en_os_release :: string
  en_logical_cpus :: nat

definition environment_of :: "build_constants \<Rightarrow> bench_host \<Rightarrow> environment" where
  "environment_of bd h =
     \<lparr>en_build = bd,
      en_kernel_release = trim (case bh_osrelease h of Some v \<Rightarrow> v | None \<Rightarrow> []),
      en_os_release = os_release (bh_os_release h),
      en_logical_cpus = (case bh_parallelism h of Some n \<Rightarrow> n | None \<Rightarrow> 1)\<rparr>"

record configuration =
  cf_requested_duration_seconds :: u64
  cf_measured_duration_ns :: u64
  cf_warmup_seconds :: u64
  cf_threads :: nat
  cf_mode :: work_mode
  cf_block_size :: nat
  cf_drain_ms :: u64
  cf_max_latency_samples :: nat

record capture_report =
  cp_read_entries :: u64
  cp_write_entries :: u64
  cp_read_exits :: u64
  cp_write_exits :: u64
  cp_compat_syscalls_ignored :: u64

record drop_report =
  dr_kernel_ring :: u64
  dr_kernel_stash :: u64
  dr_kernel_scratch :: u64
  dr_userspace_parse :: u64
  dr_userspace_queue :: u64
  dr_shutdown_discarded :: u64

record counter_scope =
  sc_observed_events :: string
  sc_capture_counters :: string
  sc_kernel_drops :: string
  sc_userspace_drops :: string

record bench_report =
  br_schema_version :: u32
  br_environment :: environment
  br_configuration :: configuration
  br_workload :: operation_report
  br_observed :: operation_report
  br_event_recall :: rat
  br_byte_recall :: rat
  br_events_per_second :: rat
  br_delivery :: latency_summary
  br_syscall :: latency_summary
  br_capture :: capture_report
  br_drops :: drop_report
  br_scope :: counter_scope

definition capture_report_of :: "capture_stats \<Rightarrow> capture_report" where
  "capture_report_of kern =
     \<lparr>cp_read_entries = read_entries kern, cp_write_entries = write_entries kern, cp_read_exits = read_exits kern,
      cp_write_exits = write_exits kern, cp_compat_syscalls_ignored = compat_syscalls_ignored kern\<rparr>"

definition drop_report_of :: "capture_stats \<Rightarrow> reader_drops \<Rightarrow> drop_report" where
  "drop_report_of kern userspace =
     \<lparr>dr_kernel_ring = ring_output_drops kern, dr_kernel_stash = stash_update_failures kern,
      dr_kernel_scratch = scratch_failures kern, dr_userspace_parse = parse_drops userspace,
      dr_userspace_queue = queue_drops userspace, dr_shutdown_discarded = shutdown_discarded userspace\<rparr>"

definition counter_scopes :: counter_scope where
  "counter_scopes =
     \<lparr>sc_observed_events = ''benchmark PID, events emitted during the measurement interval'',
      sc_capture_counters = ''system-wide delta during the measurement interval'',
      sc_kernel_drops = ''system-wide delta during the measurement interval'',
      sc_userspace_drops = ''system-wide delta from measurement start through final drain''\<rparr>"

text \<open>The measured run: what the report is made of. A rate over an interval of no time has no value in
  the rationals; the workload lasts at least a second.\<close>

record bench_run =
  bn_config :: bench_config
  bn_environment :: environment
  bn_kernel_start :: "capture_stats list"
  bn_kernel_end :: "capture_stats list"
  bn_drops_start :: reader_drops
  bn_drops_end :: reader_drops
  bn_start_ns :: u64
  bn_end_ns :: u64
  bn_workload :: workload_counters
  bn_observed :: observed_metrics

definition configuration_of :: "bench_config \<Rightarrow> u64 \<Rightarrow> configuration" where
  "configuration_of c measured =
     \<lparr>cf_requested_duration_seconds = bc_duration_seconds c, cf_measured_duration_ns = measured,
      cf_warmup_seconds = bc_warmup_seconds c, cf_threads = bc_threads c, cf_mode = bc_mode c,
      cf_block_size = bc_block_size c, cf_drain_ms = bc_drain_ms c, cf_max_latency_samples = MAX_LATENCY_SAMPLES\<rparr>"

definition bench_report_of :: "bench_run \<Rightarrow> bench_report option" where
  "bench_report_of b =
     (let kern = subtract_capture_stats (sum_capture_stats (bn_kernel_end b)) (sum_capture_stats (bn_kernel_start b));
          userspace = subtract_drop_snapshot (bn_drops_end b) (bn_drops_start b);
          workload = bn_workload b; observed = bn_observed b;
          expected_events = wc_read_ops workload + wc_write_ops workload;
          observed_events = om_read_ops observed + om_write_ops observed;
          expected_bytes = wc_read_bytes workload + wc_write_bytes workload;
          observed_bytes = om_read_bytes observed + om_write_bytes observed;
          elapsed = sat_sub (bn_end_ns b) (bn_start_ns b)
      in do { delivery \<leftarrow> latency_report (om_delivery observed);
              syscall \<leftarrow> latency_report (om_syscall observed);
              Some \<lparr>br_schema_version = 2, br_environment = bn_environment b,
                    br_configuration = configuration_of (bn_config b) elapsed,
                    br_workload = report_of_work workload, br_observed = report_of_metrics observed,
                    br_event_recall = recall_ratio observed_events expected_events,
                    br_byte_recall = recall_ratio observed_bytes expected_bytes,
                    br_events_per_second = f64 (f64_of_u64 observed_events / f64 (f64_of_u64 elapsed / 1000000000)),
                    br_delivery = delivery, br_syscall = syscall,
                    br_capture = capture_report_of kern, br_drops = drop_report_of kern userspace,
                    br_scope = counter_scopes\<rparr> })"

subsection \<open>What the workload counts\<close>

definition reads :: "work_mode \<Rightarrow> bool" where
  "reads mode \<longleftrightarrow> mode = ReadMode \<or> mode = MixedMode"

definition writes :: "work_mode \<Rightarrow> bool" where
  "writes mode \<longleftrightarrow> mode = WriteMode \<or> mode = MixedMode"

text \<open>The counters of \<open>n\<close> passes.\<close>

definition passes_work :: "work_mode \<Rightarrow> nat \<Rightarrow> nat \<Rightarrow> workload_counters" where
  "passes_work mode block_size n =
     \<lparr>wc_read_ops = (if reads mode then of_nat n else 0), wc_write_ops = (if writes mode then of_nat n else 0),
      wc_read_bytes = (if reads mode then of_nat (n * block_size) else 0),
      wc_write_bytes = (if writes mode then of_nat (n * block_size) else 0)\<rparr>"

lemma add_work_passes: "add_work (passes_work mode bs m) (passes_work mode bs n) = passes_work mode bs (m + n)"
  by (simp add: add_work_def passes_work_def algebra_simps)

lemma pass_counts:
  assumes "read_pass mode bs r (passes_work mode bs k) = Inr c1" and "write_pass mode bs w c1 = Inr c2"
  shows "c2 = passes_work mode bs (Suc k)"
  using assms
  by (cases mode; cases r; cases w)
    (auto simp: read_pass_def write_pass_def passes_work_def reads_def writes_def algebra_simps)

lemma worker_loop_counts:
  "worker_loop mode bs ps (passes_work mode bs k) = Inr c \<Longrightarrow> c = passes_work mode bs (k + length ps)"
proof (induction ps arbitrary: k)
  case (Cons p ps)
  obtain r w where p: "p = (r, w)" by (cases p)
  obtain c1 where c1: "read_pass mode bs r (passes_work mode bs k) = Inr c1"
    using Cons.prems p by (cases "read_pass mode bs r (passes_work mode bs k)") simp_all
  obtain c2 where c2: "write_pass mode bs w c1 = Inr c2"
    using Cons.prems p c1 by (cases "write_pass mode bs w c1") simp_all
  have "worker_loop mode bs ps (passes_work mode bs (Suc k)) = Inr c"
    using Cons.prems p c1 c2 pass_counts [OF c1 c2] by simp
  from Cons.IH [OF this] show ?case by simp
qed simp

definition thread_passes :: "work_thread \<Rightarrow> nat" where
  "thread_passes t = (case t of None \<Rightarrow> 0 | Some (opened, passes) \<Rightarrow> length passes)"

lemma worker_thread_counts:
  "worker_thread mode bs t = Some (Inr c) \<Longrightarrow> c = passes_work mode bs (thread_passes t)"
proof -
  assume w: "worker_thread mode bs t = Some (Inr c)"
  then obtain ps where t: "t = Some (None, ps)" "worker_loop mode bs ps no_work = Inr c"
    by (auto simp: worker_thread_def split: option.splits)
  moreover have "no_work = passes_work mode bs 0" by (simp add: no_work_def passes_work_def)
  ultimately show ?thesis using worker_loop_counts [of mode bs ps 0 c] by (simp add: thread_passes_def)
qed

lemma join_workers_counts:
  "join_workers (map (worker_thread mode bs) threads) (passes_work mode bs k) = Inr c \<Longrightarrow>
   c = passes_work mode bs (k + sum_list (map thread_passes threads))"
proof (induction threads arbitrary: k)
  case (Cons t threads)
  obtain c1 where c1: "worker_thread mode bs t = Some (Inr c1)"
  proof (cases "worker_thread mode bs t")
    case (Some r)
    with Cons.prems that show ?thesis by (cases r) simp_all
  qed (use Cons.prems in simp)
  with Cons.prems worker_thread_counts [OF c1]
  have "join_workers (map (worker_thread mode bs) threads) (passes_work mode bs (k + thread_passes t)) = Inr c"
    by (simp add: add_work_passes)
  from Cons.IH [OF this] show ?case by (simp add: add.assoc)
qed simp

text \<open>The workload the benchmark measures against is counted exactly: when the run returns counters,
  so no thread panicked and no file operation failed, each operation of the mode is counted once for
  every pass of every thread, with the block size for its bytes, and the other kind of operation not
  at all; in mixed mode reads and writes balance.\<close>

theorem workload_counted_exactly:
  assumes "run_workload mode block_size threads = Inr c"
  shows "let n = sum_list (map thread_passes threads)
    in c = \<lparr>wc_read_ops = (if mode \<noteq> WriteMode then of_nat n else 0), wc_write_ops = (if mode \<noteq> ReadMode then of_nat n else 0),
            wc_read_bytes = (if mode \<noteq> WriteMode then of_nat (n * block_size) else 0),
            wc_write_bytes = (if mode \<noteq> ReadMode then of_nat (n * block_size) else 0)\<rparr>"
proof -
  have "no_work = passes_work mode block_size 0" by (simp add: no_work_def passes_work_def)
  with join_workers_counts [of mode block_size threads 0 c] assms
  have "c = passes_work mode block_size (sum_list (map thread_passes threads))" by (simp add: run_workload_def)
  then show ?thesis by (cases mode) (simp_all add: passes_work_def reads_def writes_def Let_def)
qed

theorem workload_counted_exactly_witness:
  "run_workload MixedMode 64 [Some (None, [(None, None), (None, None)]), Some (None, [(None, None)])] =
     Inr \<lparr>wc_read_ops = 3, wc_write_ops = 3, wc_read_bytes = 192, wc_write_bytes = 192\<rparr>"
proof -
  obtain c where c: "run_workload MixedMode 64 [Some (None, [(None, None), (None, None)]), Some (None, [(None, None)])] = Inr c"
    by (simp add: run_workload_def worker_thread_def read_pass_def write_pass_def)
  from workload_counted_exactly [OF this] c show ?thesis by (simp add: Let_def thread_passes_def)
qed

subsection \<open>What the collector observes\<close>

text \<open>The events the report counts, each with its batch.\<close>

fun measured :: "u32 \<Rightarrow> received_batch \<times> bpf_event \<Rightarrow> bool" where
  "measured bpid (b, ReadEv pid tid fd bytes result latency emitted) \<longleftrightarrow>
     pid = bpid \<and> 0 < sint result \<and> rc_start b \<le> emitted \<and> emitted \<le> rc_end b"
| "measured bpid (b, WriteEv pid tid fd bytes result latency emitted) \<longleftrightarrow>
     pid = bpid \<and> 0 < sint result \<and> rc_start b \<le> emitted \<and> emitted \<le> rc_end b"
| "measured bpid (b, _) \<longleftrightarrow> False"

fun is_read :: "received_batch \<times> bpf_event \<Rightarrow> bool" where
  "is_read (b, ReadEv pid tid fd bytes result latency emitted) = True"
| "is_read (b, _) = False"

fun transferred :: "received_batch \<times> bpf_event \<Rightarrow> u64" where
  "transferred (b, ReadEv pid tid fd bytes result latency emitted) = bytes"
| "transferred (b, WriteEv pid tid fd bytes result latency emitted) = bytes"
| "transferred (b, _) = 0"

fun delivery_latency :: "received_batch \<times> bpf_event \<Rightarrow> u64" where
  "delivery_latency (b, ReadEv pid tid fd bytes result latency emitted) = sat_sub (rc_received b) emitted"
| "delivery_latency (b, WriteEv pid tid fd bytes result latency emitted) = sat_sub (rc_received b) emitted"
| "delivery_latency (b, _) = 0"

fun syscall_latency :: "received_batch \<times> bpf_event \<Rightarrow> u64" where
  "syscall_latency (b, ReadEv pid tid fd bytes result latency emitted) = latency"
| "syscall_latency (b, WriteEv pid tid fd bytes result latency emitted) = latency"
| "syscall_latency (b, _) = 0"

definition seen :: "received_batch list \<Rightarrow> (received_batch \<times> bpf_event) list" where
  "seen bs = concat (map (\<lambda>b. map (Pair b) (rc_events b)) bs)"

definition metrics_of :: "(received_batch \<times> bpf_event) list \<Rightarrow> observed_metrics" where
  "metrics_of evs =
     \<lparr>om_read_ops = of_nat (length (filter is_read evs)), om_write_ops = of_nat (length (filter (\<lambda>x. \<not> is_read x) evs)),
      om_read_bytes = sum_list (map transferred (filter is_read evs)),
      om_write_bytes = sum_list (map transferred (filter (\<lambda>x. \<not> is_read x) evs)),
      om_delivery = take MAX_LATENCY_SAMPLES (map delivery_latency evs),
      om_syscall = take MAX_LATENCY_SAMPLES (map syscall_latency evs)\<rparr>"

lemma take_snoc: "take n (xs @ [x]) = (if length xs < n then take n xs @ [x] else take n xs)"
  by (auto simp: take_Cons')

lemma metrics_of_snoc:
  "metrics_of (evs @ [x]) =
     (let m = metrics_of evs;
          m = (if is_read x then m\<lparr>om_read_ops := om_read_ops m + 1, om_read_bytes := om_read_bytes m + transferred x\<rparr>
               else m\<lparr>om_write_ops := om_write_ops m + 1, om_write_bytes := om_write_bytes m + transferred x\<rparr>)
      in if length (om_delivery m) < MAX_LATENCY_SAMPLES
         then m\<lparr>om_delivery := om_delivery m @ [delivery_latency x], om_syscall := om_syscall m @ [syscall_latency x]\<rparr>
         else m)"
  by (cases "is_read x"; cases "length evs < MAX_LATENCY_SAMPLES")
    (simp_all add: metrics_of_def Let_def take_snoc add.commute)

lemma collect_event_step:
  "collect_event bpid (rc_received b) (rc_start b) (rc_end b) ev (metrics_of evs) =
     metrics_of (if measured bpid (b, ev) then evs @ [(b, ev)] else evs)"
  by (cases "measured bpid (b, ev)"; cases ev)
    (auto simp: observe_def Let_def not_le not_less metrics_of_snoc)

lemma collect_events:
  "fold (collect_event bpid (rc_received b) (rc_start b) (rc_end b)) es (metrics_of evs) =
     metrics_of (evs @ filter (measured bpid) (map (Pair b) es))"
proof (induction es arbitrary: evs)
  case (Cons e es)
  then show ?case by (simp add: collect_event_step)
qed simp

lemma collect_metrics_of:
  "collect_metrics bpid bs (metrics_of evs) = metrics_of (evs @ filter (measured bpid) (seen bs))"
  by (induction bs arbitrary: evs) (simp_all add: seen_def collect_events)

text \<open>(C39) The collector reports exactly the measured events: of all events of the batches, whatever
  their order and batching, it counts those reads and writes of the benchmark's process that
  succeeded and were emitted within the interval, each once with its bytes, and keeps the latencies
  of the first million of them, as many of one kind as of the other.\<close>

theorem collector_exact:
  "let kept = filter (measured bpid) (seen bs); m = collect_metrics bpid bs no_metrics
   in om_read_ops m = of_nat (length (filter is_read kept)) \<and>
      om_write_ops m = of_nat (length (filter (\<lambda>x. \<not> is_read x) kept)) \<and>
      om_read_bytes m = sum_list (map transferred (filter is_read kept)) \<and>
      om_write_bytes m = sum_list (map transferred (filter (\<lambda>x. \<not> is_read x) kept)) \<and>
      om_delivery m = take MAX_LATENCY_SAMPLES (map delivery_latency kept) \<and>
      om_syscall m = take MAX_LATENCY_SAMPLES (map syscall_latency kept)"
proof -
  have "no_metrics = metrics_of []" by (simp add: no_metrics_def metrics_of_def)
  then have "collect_metrics bpid bs no_metrics = metrics_of (filter (measured bpid) (seen bs))"
    using collect_metrics_of [of bpid bs "[]"] by simp
  then show ?thesis by (simp add: metrics_of_def Let_def)
qed

subsection \<open>Percentiles\<close>

lemma percentile_index: "xs \<noteq> [] \<Longrightarrow> p \<le> 100 \<Longrightarrow> (length xs - 1) * p div 100 < length xs"
proof -
  assume "xs \<noteq> []" "p \<le> 100"
  then have "(length xs - 1) * p div 100 \<le> (length xs - 1) * 100 div 100" by (intro div_le_mono mult_le_mono2)
  also have "\<dots> < length xs" using \<open>xs \<noteq> []\<close> by simp
  finally show ?thesis .
qed

text \<open>The element at an index of a sorted list, by rank in any list with the same elements.\<close>

lemma sorted_rank:
  assumes "i < length xs"
  shows "i < length (filter (\<lambda>x. x \<le> sort xs ! i) xs) \<and> length (filter (\<lambda>x. x < sort xs ! i) xs) \<le> i"
proof -
  let ?s = "sort xs" and ?v = "sort xs ! i"
  have len: "length (filter P xs) = length (filter P ?s)" for P
    by (metis mset_filter mset_sort size_mset)
  have i: "i < length ?s" using assms by simp
  have le: "x \<le> ?v" if "x \<in> set (take (Suc i) ?s)" for x
  proof -
    from that obtain j where "j \<le> i" "x = ?s ! j" using i by (auto simp: in_set_conv_nth less_Suc_eq_le)
    then show ?thesis using sorted_nth_mono [of ?s j i] i by simp
  qed
  have ge: "\<not> x < ?v" if "x \<in> set (drop i ?s)" for x
  proof -
    from that i obtain j where j: "j < length xs - i" "x = ?s ! (i + j)" by (auto simp: in_set_conv_nth)
    then have "i + j < length ?s" by simp
    then show ?thesis using sorted_nth_mono [of ?s i "i + j"] j by (simp add: not_less)
  qed
  have all: "filter (\<lambda>x. x \<le> ?v) (take (Suc i) ?s) = take (Suc i) ?s" using le by (simp add: filter_id_conv)
  have none: "filter (\<lambda>x. x < ?v) (drop i ?s) = []" using ge by (simp add: filter_empty_conv)
  have "length (filter (\<lambda>x. x \<le> ?v) ?s) =
      length (filter (\<lambda>x. x \<le> ?v) (take (Suc i) ?s)) + length (filter (\<lambda>x. x \<le> ?v) (drop (Suc i) ?s))"
    by (metis append_take_drop_id filter_append length_append)
  then have upper: "Suc i \<le> length (filter (\<lambda>x. x \<le> ?v) ?s)" using all i by simp
  have "length (filter (\<lambda>x. x < ?v) ?s) =
      length (filter (\<lambda>x. x < ?v) (take i ?s)) + length (filter (\<lambda>x. x < ?v) (drop i ?s))"
    by (metis append_take_drop_id filter_append length_append)
  then have "length (filter (\<lambda>x. x < ?v) ?s) \<le> i"
    using none length_filter_le [of "\<lambda>x. x < ?v" "take i ?s"] i by simp
  with upper show ?thesis by (simp add: len Suc_le_eq)
qed

text \<open>The percentile is defined on any sample and is the sample of its rank.\<close>

definition has_rank :: "nat \<Rightarrow> u64 list \<Rightarrow> u64 \<Rightarrow> bool" where
  "has_rank i xs v \<longleftrightarrow>
     v \<in> set xs \<and> i < length (filter (\<lambda>x. x \<le> v) xs) \<and> length (filter (\<lambda>x. x < v) xs) \<le> i"

lemma percentile_sort:
  assumes "xs \<noteq> []" and "p \<le> 100"
  shows "percentile (sort xs) p = Some (sort xs ! ((length xs - 1) * p div 100))"
    and "has_rank ((length xs - 1) * p div 100) xs (sort xs ! ((length xs - 1) * p div 100))"
proof -
  have i: "(length xs - 1) * p div 100 < length xs" using percentile_index assms by blast
  have "sort xs \<noteq> []" using assms(1) by (metis length_0_conv length_sort)
  with i show "percentile (sort xs) p = Some (sort xs ! ((length xs - 1) * p div 100))"
    by (simp add: percentile_def Let_def)
  have "sort xs ! ((length xs - 1) * p div 100) \<in> set (sort xs)" using i by (intro nth_mem) simp
  then show "has_rank ((length xs - 1) * p div 100) xs (sort xs ! ((length xs - 1) * p div 100))"
    using sorted_rank [OF i] by (simp add: has_rank_def)
qed

lemma percentile_mono:
  "xs \<noteq> [] \<Longrightarrow> p \<le> q \<Longrightarrow> q \<le> 100 \<Longrightarrow>
   sort xs ! ((length xs - 1) * p div 100) \<le> sort xs ! ((length xs - 1) * q div 100)"
  using percentile_index [of xs q] by (intro sorted_nth_mono div_le_mono mult_le_mono2) simp_all

lemma last_sorted: "sorted ys \<Longrightarrow> ys \<noteq> [] \<Longrightarrow> Max (set ys) = last ys"
  for ys :: "u64 list"
  by (induction ys) (auto simp: Max_insert max_def dest: last_in_set)

lemma last_sort: "xs \<noteq> [] \<Longrightarrow> last (sort xs) = Max (set xs)"
  for xs :: "u64 list"
  using last_sorted [of "sort xs"] by (metis length_0_conv length_sort set_sort sorted_sort)

text \<open>The latency report never indexes out of range, and its figures are order statistics of the
  samples whatever order they arrived in: each percentile is a sample with the rank the percentage
  asks for, they do not decrease, and none exceeds the reported maximum, which is the largest sample.\<close>

theorem latency_report_sound:
  assumes "samples \<noteq> []"
  shows "\<exists>r. latency_report samples = Some r \<and> lr_samples r = length samples \<and>
    has_rank ((length samples - 1) * 50 div 100) samples (lr_p50 r) \<and>
    has_rank ((length samples - 1) * 95 div 100) samples (lr_p95 r) \<and>
    has_rank ((length samples - 1) * 99 div 100) samples (lr_p99 r) \<and>
    lr_p50 r \<le> lr_p95 r \<and> lr_p95 r \<le> lr_p99 r \<and> lr_p99 r \<le> lr_max r \<and> lr_max r = Max (set samples)"
proof -
  let ?v = "\<lambda>p. sort samples ! ((length samples - 1) * p div 100)"
  let ?r = "\<lparr>lr_samples = length samples, lr_p50 = ?v 50, lr_p95 = ?v 95, lr_p99 = ?v 99, lr_max = Max (set samples)\<rparr>"
  have "latency_report samples = Some ?r"
    using assms by (simp add: latency_report_def Let_def percentile_sort last_sort)
  moreover have "?v 50 \<le> ?v 95" by (rule percentile_mono [OF assms]) simp_all
  moreover have "?v 95 \<le> ?v 99" by (rule percentile_mono [OF assms]) simp_all
  moreover have "?v 99 \<le> Max (set samples)"
    using percentile_sort(2) [OF assms, of 99] by (intro Max_ge) (simp_all add: has_rank_def)
  moreover have "has_rank ((length samples - 1) * 50 div 100) samples (?v 50)" by (rule percentile_sort(2) [OF assms]) simp
  moreover have "has_rank ((length samples - 1) * 95 div 100) samples (?v 95)" by (rule percentile_sort(2) [OF assms]) simp
  moreover have "has_rank ((length samples - 1) * 99 div 100) samples (?v 99)" by (rule percentile_sort(2) [OF assms]) simp
  ultimately show ?thesis by (intro exI [of _ ?r]) simp
qed

theorem latency_report_sound_witness:
  "\<exists>r. latency_report [30, 10, 20] = Some r \<and> lr_samples r = 3 \<and> lr_max r = 30"
  using latency_report_sound [of "[30, 10, 20]"] by (auto simp: max_def)

end
