(* ===== verification/Programs.thy ===== *)
theory Programs
  imports Startup Bench
begin

section \<open>The main functions\<close>

text \<open>
  The three programs of the repository from their first line to their result: the benchmark
  (\<open>ncda/src/bin/ncda-bench.rs\<close>) with the files it creates and removes, the build script
  (\<open>ncda/build.rs\<close>) with the directives it prints for cargo, and ncda itself (\<open>ncda/src/main.rs\<close>). What
  the file system, the kernel, the clock, the tasks, cargo and \<open>aya-build\<close> answer is input.
\<close>

subsection \<open>Sequencing\<close>

text \<open>The \<open>?\<close> operator, where a step may also panic.\<close>

fun and_then :: "'a joined \<Rightarrow> ('a \<Rightarrow> 'b joined) \<Rightarrow> 'b joined" where
  "and_then (Joined (Inl e)) f = Joined (Inl e)"
| "and_then (Joined (Inr x)) f = f x"
| "and_then (Panicked t) f = Panicked t"

lemma and_then_returns:
  "and_then m f = Joined (Inr y) \<longleftrightarrow> (\<exists>x. m = Joined (Inr x) \<and> f x = Joined (Inr y))"
  by (cases "(m, f)" rule: and_then.cases) auto

text \<open>Awaiting a task, with the context given to its panic.\<close>

definition awaited :: "string \<Rightarrow> 'a joined \<Rightarrow> any_error + 'a" where
  "awaited panicked r = (case r of Joined x \<Rightarrow> x | Panicked t \<Rightarrow> Inl (with_context panicked (message t)))"

subsection \<open>The benchmark's files\<close>

text \<open>The directories and the files with their lengths that exist, and the answers to the calls.\<close>

record disk =
  dk_dirs :: "string set"
  dk_files :: "string \<rightharpoonup> nat"

record disk_answers =
  da_create_dir :: "any_error + unit"
  da_create :: "nat \<Rightarrow> any_error + unit"
  da_set_len :: "nat \<Rightarrow> any_error + unit"
  da_remove :: bool

definition worker_file :: "string \<Rightarrow> nat \<Rightarrow> string" where
  "worker_file dir index = joined_path dir (''worker-'' @ show_nat index @ ''.dat'')"

fun create_worker_files ::
    "disk_answers \<Rightarrow> string \<Rightarrow> nat \<Rightarrow> nat list \<Rightarrow> string list \<Rightarrow> disk \<Rightarrow> (any_error + string list) \<times> disk" where
  "create_worker_files a dir block_size [] paths d = (Inr paths, d)"
| "create_worker_files a dir block_size (i # js) paths d =
     (let path = worker_file dir i
      in case da_create a i of
           Inl e \<Rightarrow> (Inl (with_context (''create benchmark file '' @ path) e), d)
         | Inr _ \<Rightarrow>
             let d = d\<lparr>dk_files := (dk_files d)(path \<mapsto> 0)\<rparr>
             in (case da_set_len a i of
                   Inl e \<Rightarrow> (Inl e, d)
                 | Inr _ \<Rightarrow>
                     create_worker_files a dir block_size js (paths @ [path])
                       (d\<lparr>dk_files := (dk_files d)(path \<mapsto> block_size)\<rparr>)))"

definition bench_root :: "string \<Rightarrow> u32 \<Rightarrow> u64 \<Rightarrow> string" where
  "bench_root temp pid now = joined_path temp (''ncda-bench-'' @ show_word pid @ ''-'' @ show_word now)"

definition create_benchmark_files ::
    "disk_answers \<Rightarrow> string \<Rightarrow> nat \<Rightarrow> nat \<Rightarrow> disk \<Rightarrow> (any_error + string list) \<times> disk" where
  "create_benchmark_files a dir threads block_size d =
     (case da_create_dir a of
        Inl e \<Rightarrow> (Inl (with_context (''create benchmark directory '' @ dir) e), d)
      | Inr _ \<Rightarrow> create_worker_files a dir block_size [0..<threads] [] (d\<lparr>dk_dirs := insert dir (dk_dirs d)\<rparr>))"

text \<open>\<open>remove_dir_all\<close>, whose failure is ignored.\<close>

definition remove_benchmark_files :: "disk_answers \<Rightarrow> string \<Rightarrow> disk \<Rightarrow> disk" where
  "remove_benchmark_files a dir d =
     (if da_remove a
      then \<lparr>dk_dirs = {p \<in> dk_dirs d. \<not> starts_with (dir @ ''/'') p \<and> p \<noteq> dir},
            dk_files = (\<lambda>p. if starts_with (dir @ ''/'') p then None else dk_files d p)\<rparr>
      else d)"

subsection \<open>The benchmark\<close>

text \<open>The command line, the host and what every call and task of the run gives. A workload is the
  threads it ran, or the text of its task's panic.\<close>

record bench_inputs =
  bi_config :: bench_config
  bi_temp_dir :: string
  bi_pid :: u32
  bi_created :: u64
  bi_disk :: disk_answers
  bi_object :: "any_error + ebpf_object"
  bi_kernel :: kernel_answers
  bi_unexpected :: any_error
  bi_hook :: exit_hook
  bi_warmup :: "string + work_thread list"
  bi_kernel_start :: "any_error + capture_stats list"
  bi_drops_start :: reader_drops
  bi_start_ns :: u64
  bi_workload :: "string + work_thread list"
  bi_end_ns :: u64
  bi_kernel_end :: "any_error + capture_stats list"
  bi_detach :: "any_error + unit"
  bi_reader :: "unit joined"
  bi_collector :: "string + received_batch list"
  bi_drops_end :: reader_drops
  bi_environment :: environment
  bi_to_json :: "bench_report \<Rightarrow> any_error + string"
  bi_not_utf8 :: any_error
  bi_output :: "string option"
  bi_write :: "any_error + unit"

datatype bench_output = Printed string | Written string string

definition run_workload_async ::
    "work_mode \<Rightarrow> nat \<Rightarrow> string + work_thread list \<Rightarrow> any_error + workload_counters" where
  "run_workload_async mode block_size task =
     awaited ''workload task panicked''
       (case task of
          Inl t \<Rightarrow> Panicked t
        | Inr threads \<Rightarrow> Joined (case run_workload mode block_size threads of Inl e \<Rightarrow> Inl (message e) | Inr c \<Rightarrow> Inr c))"

definition collected :: "u32 \<Rightarrow> string + received_batch list \<Rightarrow> any_error + observed_metrics" where
  "collected pid task =
     awaited ''collector task panicked''
       (case task of Inl t \<Rightarrow> Panicked t | Inr batches \<Rightarrow> Joined (Inr (collect_metrics pid batches no_metrics)))"

definition emit_report :: "bench_inputs \<Rightarrow> bench_report \<Rightarrow> any_error + bench_output" where
  "emit_report i report =
     (case bi_to_json i report of
        Inl e \<Rightarrow> Inl e
      | Inr json \<Rightarrow>
          let json = json @ [CHR 0x0A]
          in (case bi_output i of
                Some output \<Rightarrow>
                  (case bi_write i of
                     Inl e \<Rightarrow> Inl (with_context (''write benchmark report '' @ output) e)
                   | Inr _ \<Rightarrow> Inr (Written output json))
              | None \<Rightarrow> if valid_utf8 json then Inr (Printed json) else Inl (bi_not_utf8 i)))"

text \<open>From the loaded object to the attached programs, without the hint of ncda's own start.\<close>

definition bench_start :: "bench_inputs \<Rightarrow> attached_link list joined" where
  "bench_start i =
     (let u = bi_unexpected i; k = bi_kernel i; hook = bi_hook i
      in and_then (Joined (bi_object i)) (\<lambda>ob.
         and_then (Joined (load_in_order u k ob (load_plan hook))) (\<lambda>_.
         and_then (Joined (take_map u RingBufMap ob ''EVENTS'' None)) (\<lambda>_.
         and_then (Joined (take_map u PerCpuArrayMap ob ''CAPTURE_STATS'' None)) (\<lambda>_.
         Joined (attach_in_order u k ob [] (attach_plan hook)))))))"

definition bench_measure :: "bench_inputs \<Rightarrow> bench_output joined" where
  "bench_measure i =
     (let c = bi_config i; mode = bc_mode c; block_size = bc_block_size c
      in and_then (bench_start i) (\<lambda>_.
         and_then (Joined (if 0 < bc_warmup_seconds c then run_workload_async mode block_size (bi_warmup i) else Inr no_work)) (\<lambda>_.
         and_then (Joined (bi_kernel_start i)) (\<lambda>kernel_start.
         and_then (Joined (run_workload_async mode block_size (bi_workload i))) (\<lambda>workload.
         and_then (Joined (bi_kernel_end i)) (\<lambda>kernel_end.
         and_then (Joined (bi_detach i)) (\<lambda>_.
         and_then (Joined (awaited ''reader task panicked'' (bi_reader i))) (\<lambda>_.
         and_then (Joined (collected (bi_pid i) (bi_collector i))) (\<lambda>observed.
         (case bench_report_of
                 \<lparr>bn_config = c, bn_environment = bi_environment i, bn_kernel_start = kernel_start,
                  bn_kernel_end = kernel_end, bn_drops_start = bi_drops_start i, bn_drops_end = bi_drops_end i,
                  bn_start_ns = bi_start_ns i, bn_end_ns = bi_end_ns i, bn_workload = workload, bn_observed = observed\<rparr> of
            None \<Rightarrow> Panicked ''index out of bounds''
          | Some report \<Rightarrow> Joined (emit_report i report)))))))))))"

text \<open>The files are dropped last, whatever the measurement came to.\<close>

definition bench_main :: "bench_inputs \<Rightarrow> disk \<Rightarrow> bench_output joined \<times> disk" where
  "bench_main i d =
     (let c = bi_config i; dir = bench_root (bi_temp_dir i) (bi_pid i) (bi_created i)
      in if \<not> config_ok c
         then (Joined (Inl (message ''duration, threads, and block size must be greater than zero'')), d)
         else case create_benchmark_files (bi_disk i) dir (bc_threads c) (bc_block_size c) d of
           (Inl e, d) \<Rightarrow> (Joined (Inl e), d)
         | (Inr paths, d) \<Rightarrow> (bench_measure i, remove_benchmark_files (bi_disk i) dir d))"

subsection \<open>The build script\<close>

text \<open>What cargo, the tools and \<open>aya-build\<close> answer: the packages with their names and the directories of
  their manifests, \<open>None\<close> for a manifest without one.\<close>

record build_answers =
  ba_rustc :: "(bool \<times> string) option"
  ba_linker :: "(bool \<times> string) option"
  ba_files :: files
  ba_parse :: "string \<Rightarrow> any_error + ebpf_object"
  ba_packages :: "any_error + (string \<times> string \<times> string option) list"
  ba_build :: "string \<Rightarrow> string \<Rightarrow> string \<Rightarrow> any_error + unit"

definition EBPF_TOOLCHAIN :: string where
  "EBPF_TOOLCHAIN = ''nightly-2026-08-04''"

text \<open>The directive that makes cargo watch a variable.\<close>

definition watch :: "string \<Rightarrow> string" where
  "watch var = ''cargo:rerun-if-env-changed='' @ var"

text \<open>\<open>export_tool_version\<close>.\<close>

definition exported_version :: "environment_variables \<Rightarrow> string \<Rightarrow> (bool \<times> string) option \<Rightarrow> string list" where
  "exported_version env var output =
     [watch var, ''cargo:rustc-env='' @ var @ ''='' @ tool_version env var output]"

definition build_from_source :: "build_answers \<Rightarrow> string \<Rightarrow> string list \<times> (any_error + unit)" where
  "build_from_source a toolchain =
     ([''cargo:rerun-if-changed=../ncda-ebpf/src'', ''cargo:rerun-if-changed=../ncda-ebpf/Cargo.toml'',
       ''cargo:rerun-if-changed=../ncda-common/src'', ''cargo:rerun-if-changed=../ncda-common/Cargo.toml''],
      case ba_packages a of
        Inl e \<Rightarrow> Inl (with_context ''MetadataCommand::exec'' e)
      | Inr packages \<Rightarrow>
          (case List.find (\<lambda>(nm, _). nm = ''ncda-ebpf'') packages of
             None \<Rightarrow> Inl (message ''ncda-ebpf package not found'')
           | Some (nm, manifest, None) \<Rightarrow> Inl (message (''no parent for '' @ manifest))
           | Some (nm, manifest, Some dir) \<Rightarrow> ba_build a nm dir toolchain))"

text \<open>The directives a prebuilt object adds: the first once the path is known not to be empty, the
  second once the environment has been checked.\<close>

definition prebuilt_directives :: "environment_variables \<Rightarrow> string \<Rightarrow> string \<Rightarrow> string list" where
  "prebuilt_directives env arch source =
     (if source = [] then []
      else watch ''NCDA_EBPF_TARGET_ARCH''
        # (if required_environment env ''NCDA_EBPF_TARGET_ARCH'' = Inr arch
              \<and> (\<exists>v. required_environment env ''NCDA_EBPF_TOOLCHAIN'' = Inr v)
              \<and> (\<exists>v. required_environment env ''NCDA_BPF_LINKER_VERSION'' = Inr v)
           then [''cargo:rerun-if-changed='' @ source] else []))"

text \<open>The directives printed and the result; \<open>unset\<close> is the error of an environment variable that cargo
  did not set.\<close>

definition build_main ::
    "any_error \<Rightarrow> environment_variables \<Rightarrow> string \<Rightarrow> build_answers \<Rightarrow> string list \<times> (any_error + unit)" where
  "build_main unset env arch a =
     (case env ''TARGET'' of
        None \<Rightarrow> ([], Inl unset)
      | Some target \<Rightarrow>
          let toolchain = (case env ''NCDA_EBPF_TOOLCHAIN'' of Some v \<Rightarrow> v | None \<Rightarrow> EBPF_TOOLCHAIN);
              printed = [''cargo:rustc-env=NCDA_BUILD_TARGET='' @ target, watch ''NCDA_EBPF_TOOLCHAIN'',
                         ''cargo:rustc-env=NCDA_EBPF_TOOLCHAIN='' @ toolchain]
                        @ exported_version env ''NCDA_RUSTC_VERSION'' (ba_rustc a)
                        @ exported_version env ''NCDA_BPF_LINKER_VERSION'' (ba_linker a)
                        @ [watch ''NCDA_EBPF_OBJECT'']
          in (case env ''NCDA_EBPF_OBJECT'' of
                Some source \<Rightarrow>
                  (printed @ prebuilt_directives env arch source,
                   map_sum id (\<lambda>_. ()) (install_prebuilt env arch source (ba_files a) (ba_parse a)))
              | None \<Rightarrow>
                  (case build_from_source a toolchain of (directives, result) \<Rightarrow> (printed @ directives, result))))"

subsection \<open>ncda\<close>

text \<open>From the signal handlers to the return: the loaded object, the kernel, what ends the wait and what
  the tasks return. That the memory limit could not be raised is only logged.\<close>

record ncda_inputs =
  ni_terminate :: "any_error + unit"
  ni_object :: "any_error + ebpf_object"
  ni_host :: host
  ni_kernel :: kernel_answers
  ni_unexpected :: any_error
  ni_hook :: exit_hook
  ni_wake :: wake_up
  ni_results :: shutdown_results

definition ncda_main :: "ncda_inputs \<Rightarrow> any_error + unit" where
  "ncda_main i =
     (case ni_terminate i of
        Inl e \<Rightarrow> Inl (with_context ''install SIGTERM handler'' e)
      | Inr _ \<Rightarrow>
          (case ni_object i of
             Inl e \<Rightarrow> Inl (add_ebpf_permission_hint (ni_host i) e)
           | Inr ob \<Rightarrow>
               (case start_up (ni_host i) (ni_unexpected i) (ni_kernel i) ob (ni_hook i) of
                  Inl e \<Rightarrow> Inl e
                | Inr links \<Rightarrow> main_exit (ni_wake i) (ni_results i))))"

subsection \<open>What the programs leave and return\<close>

text \<open>The benchmark's directory lies apart from everything else on the disk.\<close>

definition fresh_dir :: "string \<Rightarrow> disk \<Rightarrow> bool" where
  "fresh_dir dir d \<longleftrightarrow> dir \<notin> dk_dirs d \<and> (\<forall>p \<in> dk_dirs d. \<not> starts_with (dir @ ''/'') p) \<and>
     (\<forall>p. starts_with (dir @ ''/'') p \<longrightarrow> dk_files d p = None)"

lemma bench_root_last: "bench_root temp pid now \<noteq> [] \<and> last (bench_root temp pid now) \<noteq> CHR ''/''"
proof -
  have "last (show_word now) \<in> set (show_word now)" by (simp add: show_word_def)
  then have "last (show_word now) \<noteq> CHR ''/''" using show_nat_no_slash unfolding show_word_def by metis
  then show ?thesis by (simp add: bench_root_def joined_path_def show_word_def last_append)
qed

lemma worker_file_below:
  "dir \<noteq> [] \<Longrightarrow> last dir \<noteq> CHR ''/'' \<Longrightarrow> starts_with (dir @ ''/'') (worker_file dir i)"
  by (simp add: worker_file_def joined_path_def starts_with_iff)

definition files_possible :: "disk_answers \<Rightarrow> nat list \<Rightarrow> bool" where
  "files_possible a js \<longleftrightarrow> (\<forall>i \<in> set js. da_create a i = Inr () \<and> da_set_len a i = Inr ())"

lemma create_worker_files_made:
  assumes "dir \<noteq> []" and "last dir \<noteq> CHR ''/''"
  shows "case create_worker_files a dir bs js paths d of (r, d') \<Rightarrow>
      dk_dirs d' = dk_dirs d \<and> (\<forall>p. \<not> starts_with (dir @ ''/'') p \<longrightarrow> dk_files d' p = dk_files d p) \<and>
      (files_possible a js \<longleftrightarrow> r = Inr (paths @ map (worker_file dir) js)) \<and> (files_possible a js \<longleftrightarrow> (\<exists>ps. r = Inr ps))"
proof (induction js arbitrary: paths d)
  case (Cons i js)
  have below: "starts_with (dir @ ''/'') (worker_file dir i)" using worker_file_below assms by blast
  show ?case
  proof (cases "da_create a i")
    case (Inl e)
    then show ?thesis by (simp add: files_possible_def Let_def)
  next
    case made: (Inr u)
    show ?thesis
    proof (cases "da_set_len a i")
      case (Inl e)
      with made below show ?thesis by (auto simp: files_possible_def Let_def)
    next
      case (Inr v)
      with made below Cons.IH [where paths = "paths @ [worker_file dir i]"
          and d = "d\<lparr>dk_files := (dk_files d)(worker_file dir i \<mapsto> bs)\<rparr>"] show ?thesis
        by (auto simp: files_possible_def Let_def split: prod.splits)
    qed
  qed
qed (simp add: files_possible_def)

text \<open>The benchmark leaves nothing behind: when its directory is its own and can be removed, the disk is
  as it was, whatever the run came to, with one exception, exactly when the directory was made but
  not every worker's file in it: the guard that would remove the directory is only made after them.\<close>

theorem bench_removes_its_files:
  assumes "fresh_dir dir d" and "dir = bench_root (bi_temp_dir i) (bi_pid i) (bi_created i)" and "da_remove (bi_disk i)"
  shows "snd (bench_main i d) = d \<longleftrightarrow>
    \<not> (config_ok (bi_config i) \<and> da_create_dir (bi_disk i) = Inr () \<and>
       \<not> files_possible (bi_disk i) [0..<bc_threads (bi_config i)])"
proof -
  let ?c = "bi_config i" and ?a = "bi_disk i" and ?d = "d\<lparr>dk_dirs := insert dir (dk_dirs d)\<rparr>"
  have dir: "dir \<noteq> []" "last dir \<noteq> CHR ''/''" using bench_root_last assms(2) by auto
  obtain r d' where made: "create_worker_files ?a dir (bc_block_size ?c) [0..<bc_threads ?c] [] ?d = (r, d')" by fastforce
  with create_worker_files_made [OF dir, where a = ?a and bs = "bc_block_size ?c" and js = "[0..<bc_threads ?c]" and paths = "[]" and d = ?d]
  have d': "dk_dirs d' = insert dir (dk_dirs d)" "\<forall>p. \<not> starts_with (dir @ ''/'') p \<longrightarrow> dk_files d' p = dk_files d p"
    "files_possible ?a [0..<bc_threads ?c] \<longleftrightarrow> (\<exists>ps. r = Inr ps)" by auto
  have removed: "remove_benchmark_files ?a dir d' = d"
    using assms(1,3) d'(1,2)
    by (cases d) (auto simp: remove_benchmark_files_def fresh_dir_def fun_eq_iff)
  have kept: "d' \<noteq> d" using d'(1) assms(1) by (auto simp: fresh_dir_def)
  show ?thesis
  proof (cases "config_ok ?c")
    case ok: True
    show ?thesis
    proof (cases "da_create_dir ?a")
      case (Inl e)
      with ok show ?thesis by (simp add: bench_main_def create_benchmark_files_def Let_def)
    next
      case (Inr u)
      with ok made removed kept d'(3) assms(2) show ?thesis
        by (cases r) (auto simp: bench_main_def create_benchmark_files_def Let_def)
    qed
  qed (simp add: bench_main_def Let_def)
qed

text \<open>A benchmark that succeeds has counted its workload exactly, has detached the programs and ended the
  reader before it reports, and has delivered the report of what it measured.\<close>

theorem bench_reports_its_run:
  assumes "fst (bench_main i d) = Joined (Inr out)"
  shows "\<exists>threads workload batches report. bi_workload i = Inr threads \<and>
    run_workload (bc_mode (bi_config i)) (bc_block_size (bi_config i)) threads = Inr workload \<and>
    bi_detach i = Inr () \<and> bi_reader i = Joined (Inr ()) \<and> bi_collector i = Inr batches \<and>
    br_workload report = report_of_work workload \<and>
    br_observed report = report_of_metrics (collect_metrics (bi_pid i) batches no_metrics) \<and>
    emit_report i report = Inr out"
proof -
  have "bench_measure i = Joined (Inr out)"
    using assms by (auto simp: bench_main_def Let_def split: if_splits prod.splits sum.splits)
  then obtain kernel_start workload kernel_end observed report where
    w: "run_workload_async (bc_mode (bi_config i)) (bc_block_size (bi_config i)) (bi_workload i) = Inr workload"
    and over: "bi_detach i = Inr ()" "awaited ''reader task panicked'' (bi_reader i) = Inr ()"
      "collected (bi_pid i) (bi_collector i) = Inr observed"
    and report: "bench_report_of
       \<lparr>bn_config = bi_config i, bn_environment = bi_environment i, bn_kernel_start = kernel_start,
        bn_kernel_end = kernel_end, bn_drops_start = bi_drops_start i, bn_drops_end = bi_drops_end i,
        bn_start_ns = bi_start_ns i, bn_end_ns = bi_end_ns i, bn_workload = workload, bn_observed = observed\<rparr> = Some report"
      "emit_report i report = Inr out"
    by (auto simp: bench_measure_def Let_def and_then_returns split: option.splits)
  from w obtain threads where "bi_workload i = Inr threads"
    "run_workload (bc_mode (bi_config i)) (bc_block_size (bi_config i)) threads = Inr workload"
    by (auto simp: run_workload_async_def awaited_def split: sum.splits)
  moreover from over(2) have "bi_reader i = Joined (Inr ())" by (auto simp: awaited_def split: joined.splits)
  moreover from over(3) obtain batches where "bi_collector i = Inr batches"
    "observed = collect_metrics (bi_pid i) batches no_metrics"
    by (auto simp: collected_def awaited_def split: sum.splits)
  moreover from report(1) have "br_workload report = report_of_work workload" "br_observed report = report_of_metrics observed"
    by (auto simp: bench_report_of_def Let_def split: bind_splits)
  ultimately show ?thesis using over(1) report(2) by blast
qed

text \<open>The variables cargo is told to watch.\<close>

definition watched :: "string list \<Rightarrow> string set" where
  "watched printed = {v. watch v \<in> set printed}"

text \<open>The build script is run again whenever it has to be: its directives and its result depend on no
  variable but those it told cargo to watch and the two that cargo sets itself.\<close>

theorem build_watches_what_it_reads:
  assumes "\<forall>v \<in> watched (fst (build_main unset env arch a)) \<union> {''TARGET'', ''OUT_DIR''}. env' v = env v"
  shows "build_main unset env' arch a = build_main unset env arch a"
proof (cases "env ''TARGET''")
  case None
  with assms show ?thesis by (simp add: build_main_def)
next
  case target: (Some target)
  have "{''NCDA_EBPF_TOOLCHAIN'', ''NCDA_RUSTC_VERSION'', ''NCDA_BPF_LINKER_VERSION'', ''NCDA_EBPF_OBJECT''}
      \<subseteq> watched (fst (build_main unset env arch a))"
    by (simp add: watched_def build_main_def target exported_version_def Let_def split: option.split prod.split)
  with assms have same: "env' ''TARGET'' = env ''TARGET''" "env' ''OUT_DIR'' = env ''OUT_DIR''"
    "env' ''NCDA_EBPF_TOOLCHAIN'' = env ''NCDA_EBPF_TOOLCHAIN''" "env' ''NCDA_RUSTC_VERSION'' = env ''NCDA_RUSTC_VERSION''"
    "env' ''NCDA_BPF_LINKER_VERSION'' = env ''NCDA_BPF_LINKER_VERSION''" "env' ''NCDA_EBPF_OBJECT'' = env ''NCDA_EBPF_OBJECT''"
    by auto
  have versions: "exported_version env' ''NCDA_RUSTC_VERSION'' out = exported_version env ''NCDA_RUSTC_VERSION'' out"
    "exported_version env' ''NCDA_BPF_LINKER_VERSION'' out = exported_version env ''NCDA_BPF_LINKER_VERSION'' out" for out
    by (simp_all add: exported_version_def tool_version_def same)
  show ?thesis
  proof (cases "env ''NCDA_EBPF_OBJECT''")
    case None
    then show ?thesis by (simp add: build_main_def target same versions)
  next
    case (Some source)
    have "prebuilt_directives env' arch source = prebuilt_directives env arch source \<and>
        install_prebuilt env' arch source f p = install_prebuilt env arch source f p" for f p
    proof (cases "source = []")
      case False
      then have "env' ''NCDA_EBPF_TARGET_ARCH'' = env ''NCDA_EBPF_TARGET_ARCH''"
        using assms Some target by (auto simp: watched_def build_main_def prebuilt_directives_def Let_def)
      with same have req: "required_environment env' ''NCDA_EBPF_TARGET_ARCH'' = required_environment env ''NCDA_EBPF_TARGET_ARCH''"
        "required_environment env' ''NCDA_EBPF_TOOLCHAIN'' = required_environment env ''NCDA_EBPF_TOOLCHAIN''"
        "required_environment env' ''NCDA_BPF_LINKER_VERSION'' = required_environment env ''NCDA_BPF_LINKER_VERSION''"
        by (simp_all add: required_environment_def)
      show ?thesis unfolding prebuilt_directives_def install_prebuilt_def req same by simp
    qed (simp add: prebuilt_directives_def install_prebuilt_def)
    then show ?thesis using Some by (simp add: build_main_def target same versions)
  qed
qed

text \<open>With an object the build script installed, ncda succeeds exactly when its signal handler could be
  installed, the kernel refused none of its programs and nothing failed from the mode's end on.\<close>

theorem ncda_succeeds:
  assumes "install_prebuilt env arch source files parse = Inr bytes" and "parse bytes = Inr ob" and "built_kinds ob"
    and "ni_object i = Inr ob"
  shows "ncda_main i = Inr () \<longleftrightarrow>
    ni_terminate i = Inr () \<and> (\<forall>e. \<not> refused (ni_kernel i) (ni_hook i) e) \<and> main_exit (ni_wake i) (ni_results i) = Inr ()"
  using validated_start [OF assms(1-3), where h = "ni_host i" and unexpected = "ni_unexpected i" and k = "ni_kernel i" and hook = "ni_hook i"] assms(4)
  by (cases "ni_terminate i") (auto simp: ncda_main_def split: sum.splits)

end
