(* ===== verification/Spec2Isabelle.thy ===== *)
theory Spec2Isabelle
  imports Event_Log Fd_Cache Reader App_Safety Session Interleaving Screen Programs
begin

text \<open>
  A verification development for ncda, a terminal monitor of live file I/O.

  The program. eBPF programs (\<open>ncda-ebpf/src/main.rs\<close>) run at every system call entry and exit and
  at process exec and exit: an entry stashes the arguments of a call under the calling thread, the
  matching exit turns the stash into a record of \<open>ncda-common/src/lib.rs\<close> and submits it to a ring
  buffer. The reader task (\<open>ncda/src/bpf.rs\<close>) drains the ring, parses the records into events and
  sends them in batches to the aggregator (\<open>ncda/src/main.rs\<close>), which ingests them into the shared
  \<open>AppState\<close> (\<open>tui/app.rs\<close>): descriptors are resolved to paths by the descriptor cache
  (\<open>bpf.rs\<close>), paths are decorated with container names (\<open>container.rs\<close>), and the bytes are
  recorded in the file tree (\<open>model.rs\<close>), the process table (\<open>process.rs\<close>) and the rolling rates
  (\<open>rate.rs\<close>). The render loop (\<open>tui/mod.rs\<close>) locks the state, lists what the filter
  (\<open>tui/filter.rs\<close>) lets through, draws it (\<open>tui/header.rs\<close>, \<open>footer.rs\<close>, \<open>layout.rs\<close>,
  \<open>flat_view.rs\<close>, \<open>tree_view.rs\<close>) and handles keys (\<open>tui/input.rs\<close>). When the output ends, \<open>main\<close>
  detaches the programs, drains the ring and collects what failed.

  Theories, in the order of that path:

  Prelude: machine integers with saturating arithmetic, the string, parsing and sorting functions
  of Rust's standard library the sources use, association lists for iterated hash tables.
  Common: the constants, structs and counters of \<open>ncda-common\<close>.
  Capture: every eBPF program for both architectures (\<open>kstep\<close>, \<open>krun\<close>, the inductive \<open>captured\<close>).
  What the kernel helpers return is an input of each step (\<open>kctx\<close>). All submitted records parse;
  a call is captured exactly; an exited thread leaves nothing behind; a full ring costs exactly the
  records counted as lost.
  Wire: the byte layout of the records and \<open>parse_event\<close>, which accepts exactly the encodings of
  valid structs.
  Reader: batching, the final drain, loss counters and snapshots, and the order of attaching and
  detaching. Every captured record is delivered, in order; the entry program is never attached
  without its consumers.
  Paths: lossless display of pathname bytes, normalisation, pseudo and unresolved paths.
  Fd\_Cache: \<open>FdPathCache\<close>, which refines a finite map from descriptors to paths, and what a
  resolved path can be trusted for.
  Containers: \<open>ContainerResolver\<close>, the cgroup extractors, the caches, discovery through crictl and
  docker, and the bounded wait for those commands.
  Model and Tree\_Spec: \<open>FileTree\<close>, its invariants and its refinement of an abstract specification
  that maps paths to statistics.
  Processes: \<open>ProcessTable\<close> and its display order.
  Rates and Event\_Log: \<open>RateTracker\<close> and \<open>EventLog\<close>; both windows count every byte of the window
  and none older than one bucket more, and the preaggregated tables are exact.
  Filters: the query language, filtered aggregates and matching processes.
  App\_State: \<open>AppState\<close> with its batch ingestion. App\_View: the invariant of the pending table,
  absence of panics, and the view of a state (its tables and counters without the caches).
  Coalescing: ingesting with coalesced I/O is invisible in the view. App\_Safety: excluded paths
  are never tracked; loss is accounted from the last reset. App\_Invariant: the well-formedness of
  a state as one type, kept by every operation of a run (the inductive \<open>running\<close>).
  Pipeline: the aggregator task and the composition of kernel programs, reader and aggregator:
  batching and coalescing are invisible from the system call to the state, and every submitted
  event is counted or discarded.
  Interleaving: the tasks side by side as one step relation (\<open>sys_step\<close>, the inductive
  \<open>interleaved\<close>): the machine, the reader and its phases, the bounded channel, the aggregator, the
  loss monitor, the other users of the state and \<open>main\<close> with the order of its shutdown. In every
  interleaving no event is lost, duplicated or reordered; the undisturbed ones (\<open>calm\<close>) refine
  ingesting the events one at a time; the shutdown never deadlocks and ends; a finished program has
  accounted for every record.
  Views: the rows of a directory, the unfolded tree and the process list.
  Input: the view state and every key handler.
  Session: the render loop as a sequence of turns over arbitrary snapshots of the shared state.
  Format: figures as text, with the rounding of doubles and of the float formats written out.
  Layout: columns, styles, bars, grapheme clusters and the fitting of text to cells. Tables: the
  rows and headings of both views. Screen: the header, the footer, the panels and the frame as the
  list of widgets with their areas. Rows fill the terminal exactly, the panel shows the selected
  process, and drawing changes nothing that is listed.
  Tasks: the rest of \<open>main.rs\<close>: error chains and the permission hint, the periodic tasks, the
  stdout mode, and the shutdown, which reports every failure.
  Startup: the checks of the build script (\<open>ncda/build.rs\<close>), loading and attaching with every
  lookup and its error, the command line's defaults and the terminal guard. A validated object
  fails to start only where the kernel refuses it; the terminal is restored on every way out.
  Bench: \<open>ncda-bench\<close>: its workload, collector, percentiles and report.
  Programs: the \<open>main\<close> functions of the benchmark, the build script and ncda from their first line to
  their result. The benchmark removes its files on every way out but one; the build script watches
  every variable it reads; with an installed object ncda fails only for what was refused or failed.

  Correspondence. A struct is a record or a datatype with the source's fields, prefixed where a
  name would clash; a method is a definition of the same name taking the state last and returning
  it; \<open>Option\<close> is \<open>option\<close>, \<open>Result\<close> a sum, and a panic (\<open>expect\<close>, \<open>unwrap\<close>, \<open>unreachable!\<close>, a
  slice out of range) the value \<open>None\<close>. Integers are words of their width; \<open>usize\<close> counters and
  indices are natural numbers, saturating at \<open>2 ^ 64 - 1\<close> where the source saturates. Byte strings
  and UTF-8 strings are lists of bytes. A hash table that is only accessed by key is a map; one
  that is iterated is an association list whose order stands for the unspecified iteration order.
  An \<open>Instant\<close> is a number of nanoseconds. A rate is kept
  as numerator and denominator (\<open>rate\<close>) and rounded where it is shown; a double is a rational
  number, every operation on it followed by the rounding \<open>f64\<close>, which holds for the normal numbers
  the sources reach. An error of \<open>anyhow\<close> is the list of its causes.

  Parameters. What lies outside the sources is an argument: the \<open>/proc\<close> reads of one batch
  (\<open>env\<close>), the iteration order of the pending table (\<open>order\<close>, any permutation), Unicode
  lower-casing (\<open>lower\<close>), the output of the discovery commands, the outcome of attaching a program,
  the interleaving of the tasks (every lock acquisition of the render loop sees its own snapshot),
  the terminal's page height, the cell width of a text (with the laws \<open>width_laws\<close> of
  \<open>unicode-width\<close>), ratatui's \<open>Layout::split\<close> and \<open>Block::inner\<close> (the record \<open>terminal\<close>), the times
  of samples, checks and signals, what each awaited task returns, and what other tasks do to the
  shared state while one waits. In the interleavings the joins of the discovery and of the output
  task return, as their own flags make them, and \<open>main\<close> leaves its wait in order.

  Bounds. Recursions are structural or carry a measure: the tree functions the size of a node, the
  final drain the length of the ring. Waiting for a discovery command polls at most 81 times, the
  timeout of 2 s divided by the poll interval of 25 ms plus the first poll, and this is proved.
  Once the programs are detached the shutdown takes at most 5 steps for every record still in the
  ring, 2 for every batch in the channel and 16 more.

  Properties. Each is introduced by a text block with its claim number; one with a hypothesis is
  followed by a witness, an application of it to concrete values. The locales state the
  contracts that several definitions share: \<open>comparison\<close>, a total preorder passed to \<open>sort_by\<close>;
  \<open>bucket_log\<close>, the bucketed windows of both rates; \<open>wire_struct\<close>, a struct with a tagged encoding;
  \<open>descriptor_table\<close>, the lookups the cache promises its clients; \<open>id_extractor\<close>, the recognition of
  a container identifier; \<open>measured_system\<close>, a step relation whose helpful steps use up the work
  left. Each is interpreted on the model's definitions.

  Not modelled: the painting of widgets and the polling of the terminal (ratatui, crossterm),
  parsing the command line, the logger and the runtime (clap, env\_logger, tokio), parsing and
  relocating the bytecode (aya), the JSON text of the benchmark's report (serde) and the build of the
  eBPF crate (aya-build), none of which has logic of its own beyond library calls.
\<close>

end
